(* ===== verification/Fib_Prelude.thy ===== *)
theory Fib_Prelude
  imports Main "HOL-Library.Word"
begin

text \<open>
  What every component shares: names for Go's integer and byte types, the collections the
  components put their facts in, and generic lemmas on words, lists and results.

  Conventions of the whole development.
  \<^item> A \<^verbatim>\<open>[]byte\<close> and a \<^verbatim>\<open>string\<close> are a list of 8-bit words.
  \<^item> \<^verbatim>\<open>uint64\<close>, \<^verbatim>\<open>uint32\<close>, \<^verbatim>\<open>uint16\<close> and \<^verbatim>\<open>uint8\<close> values whose width matters are words of that
    width; \<open>+\<close>, \<open>-\<close> and shifts wrap as Go's do.
  \<^item> \<^verbatim>\<open>len(x)\<close> and slice positions are natural numbers. A Go \<^verbatim>\<open>int\<close> that may be negative is an
    \<open>int\<close>.
  \<^item> A function that returns an error returns a sum, \<open>Inl\<close> the error.
  \<^item> A function that appends to a \<^verbatim>\<open>dst\<close> slice takes it and returns it extended.
\<close>

unbundle bit_operations_syntax

type_synonym byte = "8 word"
type_synonym bytes = "byte list"
type_synonym uint16 = "16 word"
type_synonym uint32 = "32 word"
type_synonym uint64 = "64 word"

named_theorems wire_simps \<open>equations of encoders and decoders on constructed input\<close>
named_theorems consumes \<open>a reader leaves fewer bytes than it was given\<close>

text \<open>Indexing a slice; out of range, the Go program panics.\<close>

definition slice_at :: "'a list \<Rightarrow> nat \<Rightarrow> 'a option" where
  "slice_at xs i = (if i < length xs then Some (xs ! i) else None)"

lemma slice_at_Some [simp]: "i < length xs \<Longrightarrow> slice_at xs i = Some (xs ! i)"
  by (simp add: slice_at_def)

subsection \<open>Words\<close>

lemma word_split_low: "(w AND mask n) + push_bit n (drop_bit n w) = w" for w :: "'a::len word"
  using bits_ident [of n w] by (simp add: take_bit_eq_mask add.commute)

lemma unat_drop_bit: "unat (drop_bit n w) = unat w div 2 ^ n" for w :: "'a::len word"
  by (metis drop_bit_eq_div unat_drop_bit_eq)

lemma unat_drop_bit_less: "unat (drop_bit n w) < m \<longleftrightarrow> unat w < m * 2 ^ n" for w :: "'a::len word"
  by (simp add: unat_drop_bit less_mult_imp_div_less div_less_iff_less_mult)

lemma unat_byte: "unat (b :: byte) < 256"
  using unsigned_less [of b] by simp

lemma unat_mask: "n \<le> LENGTH('a) \<Longrightarrow> unat (mask n :: 'a::len word) = 2 ^ n - 1"
proof -
  assume "n \<le> LENGTH('a)"
  then have "unat (mask n :: 'a word) = mask n"
    unfolding bit_eq_iff bit_unsigned_iff bit_mask_iff by auto
  then show ?thesis by (simp add: mask_eq_exp_minus_1)
qed

lemma unat_less_bit: "unat w < 2 ^ n \<Longrightarrow> bit w k \<Longrightarrow> k < n" for w :: "'a::len word"
proof -
  assume "unat w < 2 ^ n" and k: "bit w k"
  then have "unat (take_bit n w) = unat w"
    by (simp add: unsigned_take_bit_eq take_bit_nat_eq_self)
  then have "take_bit n w = w" by (simp add: unsigned_word_eqI)
  with k show "k < n" by (metis bit_take_bit_iff)
qed

lemma and_zero_bit: "a AND b = 0 \<Longrightarrow> bit a k \<Longrightarrow> \<not> bit b k" for a :: "'a::len word"
  by (metis bit_0_eq bit_and_iff bot_apply bot_bool_def)

subsection \<open>Lists\<close>

lemma take_append_length [simp]: "take (length xs) (xs @ ys) = xs"
  by simp

lemma drop_append_length [simp]: "drop (length xs) (xs @ ys) = ys"
  by simp

text \<open>The place of \<open>n\<close> in a filtered range is the number of elements kept before it.\<close>

lemma filter_upt_nth:
  assumes "n < N" and "P n"
  shows "length (filter P [0..<n]) < length (filter P [0..<N])"
    and "filter P [0..<N] ! length (filter P [0..<n]) = n"
proof -
  have "[0..<N] = [0..<n] @ n # [Suc n..<N]"
    using assms(1) by (metis less_imp_add_positive upt_add_eq_append upt_conv_Cons zero_le)
  then have "filter P [0..<N] = filter P [0..<n] @ n # filter P [Suc n..<N]"
    using assms(2) by simp
  then show "length (filter P [0..<n]) < length (filter P [0..<N])"
    and "filter P [0..<N] ! length (filter P [0..<n]) = n"
    by (simp_all add: nth_append)
qed

lemma length_filter_upt: "length (filter P [0..<N]) = card {n. n < N \<and> P n}"
proof -
  have "set (filter P [0..<N]) = {n. n < N \<and> P n}" by auto
  then show ?thesis by (metis distinct_card distinct_filter distinct_upt)
qed

lemma unat_len: "n < 2 ^ 63 \<Longrightarrow> unat (of_nat n :: uint64) = n"
  by (simp add: unat_of_nat)

lemma sint_small:
  fixes w :: uint64
  assumes "unat w < 2 ^ 63"
  shows "sint w = int (unat w)"
proof -
  have u: "uint w = int (unat w)" by simp
  have "int (unat w) < int (2 ^ 63)" using assms by (rule of_nat_less_iff [THEN iffD2])
  then have "uint w < 2 ^ 63" unfolding u of_nat_power of_nat_numeral .
  moreover have "- (2 ^ 63) \<le> uint w" using uint_ge_0 [of w] by (rule order_trans [rotated]) simp
  ultimately have "signed_take_bit 63 (uint w) = uint w" by (intro signed_take_bit_int_eq_self)
  moreover have "sint w = signed_take_bit 63 (uint w)" unfolding sint_uint by simp
  ultimately show ?thesis using u by (simp only:)
qed

subsection \<open>Positions in a ring of a power of two\<close>

lemma word_unat_eqI: "unat v = unat w \<Longrightarrow> v = w" for v w :: "'a::len word"
  by (rule unsigned_word_eqI)

lemma unat_and_ring:
  fixes i :: "'a::len word"
  assumes "e \<le> LENGTH('a)"
  shows "unat (i AND of_nat (2 ^ e - 1)) = unat i mod 2 ^ e"
proof -
  have "(of_nat (2 ^ e - 1) :: 'a word) = mask e" by (simp add: mask_eq_exp_minus_1 of_nat_diff)
  then have "unat (i AND of_nat (2 ^ e - 1)) = unat i AND unat (mask e :: 'a word)"
    by (simp add: unsigned_and_eq)
  also have "\<dots> = unat i mod 2 ^ e"
    by (simp only: unat_mask [OF assms]) (metis mask_eq_exp_minus_1 take_bit_eq_mask take_bit_eq_mod)
  finally show ?thesis .
qed

lemma unat_mod_ring:
  assumes "e \<le> LENGTH('a)"
  shows "unat (of_nat n :: 'a::len word) mod 2 ^ e = n mod 2 ^ e"
proof -
  have "(2 :: nat) ^ e dvd 2 ^ LENGTH('a)" using assms by (simp add: le_imp_power_dvd)
  then show ?thesis by (simp add: unat_of_nat mod_mod_cancel)
qed

lemma unat_add_ring:
  fixes i :: "'a::len word"
  assumes "e \<le> LENGTH('a)"
  shows "unat (i + of_nat d) mod 2 ^ e = (unat i + d) mod 2 ^ e"
  using unat_mod_ring [OF assms, of "unat i + d"] by simp

lemma unat_diff_ring:
  fixes i j :: "'a::len word"
  assumes "e \<le> LENGTH('a)"
  shows "unat (j - i) mod 2 ^ e = (unat j + (2 ^ e - unat i mod 2 ^ e)) mod 2 ^ e"
proof -
  have "unat i mod 2 ^ e \<le> 2 ^ e" by (simp add: less_imp_le)
  then have "(unat (j - i) + unat i + (2 ^ e - unat i mod 2 ^ e)) mod 2 ^ e = unat (j - i) mod 2 ^ e"
    by (metis (no_types) add.assoc le_add_diff_inverse mod_add_left_eq mod_add_right_eq mod_add_self2)
  moreover have "(unat (j - i) + unat i) mod 2 ^ e = unat j mod 2 ^ e"
    using unat_add_ring [OF assms, of "j - i" "unat i"] by simp
  ultimately show ?thesis by (metis mod_add_left_eq)
qed

end
