(* ===== verification/Hpack_Int.thy ===== *)
theory Hpack_Int
  imports Fib_Prelude
begin

text \<open>
  HPACK's prefixed integers (RFC 7541 section 5.1): \<^verbatim>\<open>readInt\<close> and \<^verbatim>\<open>appendInt\<close> of
  \<^verbatim>\<open>hpack/hpack.go\<close>, on 64-bit words with Go's shifts, and the errors of the package.
\<close>

text \<open>The package's error values; \<open>ErrEmit\<close> carries an error of the caller's \<^verbatim>\<open>emit\<close>.\<close>

datatype 'e hpack_error =
    ErrInvalidIndex
  | ErrIntegerOverflow
  | ErrTruncated
  | ErrInvalidHuffman
  | ErrStringTooLong
  | ErrInvalidSizeUpdate
  | ErrEmit 'e

text \<open>The loop of \<^verbatim>\<open>readInt\<close> over the bytes after the prefix.\<close>

fun readIntLoop :: "uint64 \<Rightarrow> nat \<Rightarrow> bytes \<Rightarrow> 'e hpack_error + (uint64 \<times> bytes)" where
  "readIntLoop value shift [] = Inl ErrTruncated"
| "readIntLoop value shift (b # bs) =
     (let value = value + push_bit shift (ucast (b AND 0x7f)) in
      if b AND 0x80 = 0 then Inr (value, bs)
      else if shift + 7 \<ge> 56 then Inl ErrIntegerOverflow
      else readIntLoop value (shift + 7) bs)"

definition readInt :: "bytes \<Rightarrow> nat \<Rightarrow> 'e hpack_error + (uint64 \<times> bytes)" where
  "readInt block n =
     (case block of
        [] \<Rightarrow> Inl ErrTruncated
      | b # rest \<Rightarrow>
          (let mask = push_bit n 1 - 1; value = ucast b AND mask in
           if value < mask then Inr (value, rest) else readIntLoop value 0 rest))"

text \<open>The loop of \<^verbatim>\<open>appendInt\<close> over the value left after the prefix.\<close>

function appendIntLoop :: "bytes \<Rightarrow> uint64 \<Rightarrow> bytes" where
  "appendIntLoop dst value =
     (if value \<ge> 0x80 then appendIntLoop (dst @ [ucast value OR 0x80]) (drop_bit 7 value)
      else dst @ [ucast value])"
  by pat_completeness auto
termination
  by (relation "measure (\<lambda>(dst, value). unat value)")
     (auto simp: unat_drop_bit word_le_nat_alt)

declare appendIntLoop.simps [simp del]

definition appendInt :: "bytes \<Rightarrow> byte \<Rightarrow> nat \<Rightarrow> uint64 \<Rightarrow> bytes" where
  "appendInt dst first n value =
     (let mask = push_bit n 1 - 1 in
      if value < mask then dst @ [first OR ucast value]
      else appendIntLoop (dst @ [first OR ucast mask]) (value - mask))"

subsection \<open>What reading takes\<close>

lemma readIntLoop_consumes: "readIntLoop v s bs = Inr (w, rest) \<Longrightarrow> length rest < length bs"
  by (induction v s bs rule: readIntLoop.induct) (fastforce simp: Let_def split: if_splits)+

lemma readInt_consumes [consumes]: "readInt bs n = Inr (w, rest) \<Longrightarrow> length rest < length bs"
  by (auto simp: readInt_def Let_def split: list.splits if_splits dest: readIntLoop_consumes)

subsection \<open>Writing then reading\<close>

lemma appendIntLoop_append: "appendIntLoop (xs @ dst) v = xs @ appendIntLoop dst v"
proof (induction dst v rule: appendIntLoop.induct)
  case (1 dst v)
  then show ?case
    by (simp add: appendIntLoop.simps [of _ v])
qed

lemma appendIntLoop_Nil: "appendIntLoop dst v = dst @ appendIntLoop [] v"
  using appendIntLoop_append [of dst "[]" v] by simp

lemma appendInt_append: "appendInt dst first n v = dst @ appendInt [] first n v"
  using appendIntLoop_Nil [of "dst @ [first OR ucast (push_bit n 1 - 1 :: uint64)]"]
    appendIntLoop_Nil [of "[first OR ucast (push_bit n 1 - 1 :: uint64)]"]
  by (simp add: appendInt_def Let_def)

text \<open>The seven low bits of a byte of the loop, and its continuation bit.\<close>

lemma bit_byte_low: "bit (0x7f :: byte) n \<longleftrightarrow> n < 7"
proof -
  have "(0x7f :: byte) = mask 7" by (simp add: mask_eq_exp_minus_1)
  then show ?thesis by (simp only: bit_mask_iff) auto
qed

lemma bit_byte_high: "bit (0x80 :: byte) n \<longleftrightarrow> n = 7"
proof -
  have "(0x80 :: byte) = push_bit 7 1" by simp
  then show ?thesis by (simp only: bit_push_bit_iff bit_1_iff) auto
qed

lemmas bit_loop_byte = bit_unsigned_iff bit_and_iff bit_or_iff bit_mask_iff bit_byte_low bit_byte_high

lemma loop_byte_low: "(ucast ((ucast v OR 0x80 :: byte) AND 0x7f) :: uint64) = v AND mask 7" for v :: uint64
  by (rule bit_word_eqI, unfold bit_loop_byte) auto

lemma byte_and_high: "b AND 0x80 = 0 \<longleftrightarrow> \<not> bit b 7" for b :: byte
  using and_exp_eq_0_iff_not_bit [of b 7] by simp

lemma loop_byte_more: "(ucast v OR 0x80 :: byte) AND 0x80 \<noteq> 0" for v :: uint64
  unfolding byte_and_high bit_loop_byte by simp

lemma small_high_bits: "v < 0x80 \<Longrightarrow> bit v n \<Longrightarrow> n < 7" for v :: uint64
  by (rule unat_less_bit) (simp_all add: word_less_nat_alt)

lemma last_byte_low: "v < 0x80 \<Longrightarrow> (ucast ((ucast v :: byte) AND 0x7f) :: uint64) = v" for v :: uint64
  by (rule bit_word_eqI, unfold bit_loop_byte) (auto dest: small_high_bits)

lemma last_byte_end: "v < 0x80 \<Longrightarrow> (ucast v :: byte) AND 0x80 = 0" for v :: uint64
  by (auto simp: byte_and_high bit_simps dest: small_high_bits)

lemma readIntLoop_appendIntLoop:
  assumes "s + 7 * k = 56" and "0 < k"
  shows "readIntLoop a s (appendIntLoop [] v @ rest) =
    (if unat v < 2 ^ (7 * k) then Inr (a + push_bit s v, rest) else Inl ErrIntegerOverflow)"
  using assms
proof (induction k arbitrary: a s v)
  case 0
  then show ?case by simp
next
  case (Suc k)
  show ?case
  proof (cases "v < 0x80")
    case True
    have "unat v < 2 ^ 7" using True by (simp add: word_less_nat_alt)
    also have "(2::nat) ^ 7 \<le> 2 ^ (7 * Suc k)" by (rule power_increasing) auto
    finally show ?thesis
      using True by (simp add: appendIntLoop.simps [of _ v] linorder_not_le [symmetric] last_byte_low last_byte_end)
  next
    case False
    then have step: "appendIntLoop [] v @ rest =
        (ucast v OR 0x80) # (appendIntLoop [] (drop_bit 7 v) @ rest)"
      using appendIntLoop_Nil [of "[ucast v OR 0x80]" "drop_bit 7 v"]
      by (simp add: appendIntLoop.simps [of _ v] not_less)
    show ?thesis
    proof (cases "k = 0")
      case True
      with False Suc.prems show ?thesis
        by (simp add: step loop_byte_more word_less_nat_alt)
    next
      case k: False
      have "a + push_bit s (v AND mask 7) + push_bit (s + 7) (drop_bit 7 v) =
          a + push_bit s ((v AND mask 7) + push_bit 7 (drop_bit 7 v))"
        by (simp only: push_bit_add push_bit_push_bit add.assoc)
      then have "a + push_bit s (v AND mask 7) + push_bit (s + 7) (drop_bit 7 v) = a + push_bit s v"
        by (simp only: word_split_low)
      moreover have "unat (drop_bit 7 v) < 2 ^ (7 * k) \<longleftrightarrow> unat v < 2 ^ (7 * Suc k)"
        unfolding unat_drop_bit_less mult_Suc_right power_add by (simp only: mult.commute)
      moreover have "\<not> 56 \<le> s + 7" using Suc.prems k by auto
      moreover note Suc.IH [of "s + 7" "a + push_bit s (v AND mask 7)" "drop_bit 7 v"]
      moreover have "s + 7 + 7 * k = 56" "0 < k" using Suc.prems k by auto
      ultimately show ?thesis
        unfolding step readIntLoop.simps Let_def loop_byte_low
        by (simp only: loop_byte_more if_False)
    qed
  qed
qed

text \<open>The prefix byte: its low bits are the value's, or all ones when more bytes follow.\<close>

lemma prefix_mask: "push_bit n 1 - 1 = (mask n :: uint64)"
  by (simp add: mask_eq_exp_minus_1 push_bit_eq_mult)

lemma prefix_byte_low:
  fixes first :: byte and v :: uint64
  assumes "n \<le> 8" and "first AND mask n = 0" and "unat v < 2 ^ n"
  shows "ucast (first OR ucast v) AND mask n = v"
proof (rule bit_word_eqI)
  fix k
  have "bit first k \<Longrightarrow> \<not> bit (mask n :: byte) k" and "bit v k \<Longrightarrow> k < n"
    using assms(2,3) by (auto dest: and_zero_bit unat_less_bit)
  then show "bit (ucast (first OR ucast v) AND mask n :: uint64) k \<longleftrightarrow> bit v k"
    using assms(1) unfolding bit_loop_byte by auto
qed

lemma readInt_appendInt:
  assumes "1 \<le> n" and "n \<le> 8" and "first AND mask n = 0"
  shows "readInt (appendInt [] first n v @ rest) n =
    (if unat v < 2 ^ n - 1 + 2 ^ 56 then Inr (v, rest) else Inl ErrIntegerOverflow)"
proof (cases "v < mask n")
  case True
  then have v: "unat v < 2 ^ n - 1"
    using assms(2) by (simp add: word_less_nat_alt unat_mask)
  then have "ucast (first OR ucast v) AND mask n = v"
    by (intro prefix_byte_low) (use assms in auto)
  with True v show ?thesis
    by (simp only: appendInt_def readInt_def prefix_mask Let_def) simp
next
  case False
  then have v: "2 ^ n - 1 \<le> unat v"
    using assms(2) by (simp add: word_less_nat_alt unat_mask)
  have "ucast (first OR ucast (mask n :: uint64)) AND mask n = (mask n :: uint64)"
    by (rule prefix_byte_low) (use assms in \<open>auto simp: unat_mask\<close>)
  moreover have "unat (v - mask n) = unat v - (2 ^ n - 1)"
    using False assms(2) by (simp add: unat_sub unat_mask not_less)
  moreover have "unat v - (2 ^ n - 1) < 2 ^ 56 \<longleftrightarrow> unat v < 2 ^ n - 1 + 2 ^ 56"
    using v by auto
  ultimately show ?thesis
    using False appendIntLoop_Nil [of "[first OR ucast (mask n :: uint64)]" "v - mask n"]
    by (simp only: appendInt_def readInt_def prefix_mask Let_def)
       (simp add: readIntLoop_appendIntLoop [of 0 8])
qed

text \<open>
  C1. \<^verbatim>\<open>readInt\<close> undoes \<^verbatim>\<open>appendInt\<close>: behind a first byte whose prefix bits are free it gives
  back the value and leaves what follows, exactly when the value is below \<open>2^n - 1 + 2^56\<close>; a
  larger value is the overflow error, never a wrong value.
\<close>

theorem hpack_int_roundtrip:
  assumes "1 \<le> n" and "n \<le> 8" and "first AND mask n = 0"
  shows "readInt (appendInt [] first n v @ rest) n =
    (if unat v < 2 ^ n - 1 + 2 ^ 56 then Inr (v, rest) else Inl ErrIntegerOverflow)"
  using assms by (rule readInt_appendInt)

theorem hpack_int_roundtrip_witness:
  "(1::nat) \<le> 5 \<and> (5::nat) \<le> 8 \<and> (0x20 :: byte) AND mask 5 = 0 \<and>
   readInt (appendInt [] 0x20 5 1337 @ [7]) 5 = (Inr (1337, [7]) :: unit hpack_error + _)"
  using hpack_int_roundtrip [of 5 "0x20" 1337 "[7]"] by (simp add: mask_eq_exp_minus_1)

end
