(* ===== verification/Hpack_Prefix_Code.thy ===== *)
theory Hpack_Prefix_Code
  imports Fib_Prelude "HOL-Library.Sublist"
begin

text \<open>
  Binary prefix codes, as the HPACK Huffman coder needs them: the bits of a number, most
  significant first; the contract of a prefix code that covers every 30-bit word but the all-ones
  end-of-string word, as a locale; what follows of its code tree (inner nodes have a zero child,
  there are at most as many of them as symbols); and a checker for canonical codes, which gives
  the contract from one pass over a table of codes and lengths.
\<close>

subsection \<open>Bits of a number, most significant first\<close>

fun msb_bits :: "'a::semiring_bits \<Rightarrow> nat \<Rightarrow> bool list" where
  "msb_bits w 0 = []"
| "msb_bits w (Suc i) = bit w i # msb_bits w i"

lemma length_msb_bits [simp]: "length (msb_bits w n) = n"
  by (induction n) auto

lemma msb_bits_numeral: "msb_bits w (numeral n) = bit w (pred_numeral n) # msb_bits w (pred_numeral n)"
  by (simp add: numeral_eq_Suc)

lemma msb_bits_cong: "(\<And>i. i < n \<Longrightarrow> bit v i = bit w i) \<Longrightarrow> msb_bits v n = msb_bits w n"
  by (induction n) auto

lemma nth_msb_bits: "i < n \<Longrightarrow> msb_bits w n ! i = bit w (n - Suc i)"
  by (induction n arbitrary: i) (auto simp: nth_Cons split: nat.splits)

lemma msb_bits_eq_iff: "msb_bits v n = msb_bits w n \<longleftrightarrow> (\<forall>i<n. bit v i = bit w i)"
  by (induction n) (auto simp: less_Suc_eq)

lemma msb_bits_inj:
  "v < 2 ^ n \<Longrightarrow> w < 2 ^ n \<Longrightarrow> msb_bits v n = msb_bits w n \<Longrightarrow> v = w" for v w :: nat
proof -
  assume v: "v < 2 ^ n" and w: "w < 2 ^ n" and eq: "msb_bits v n = msb_bits w n"
  have "take_bit n v = take_bit n w"
    using eq by (auto simp: bit_eq_iff bit_take_bit_iff msb_bits_eq_iff)
  then show "v = w" using v w by (simp add: take_bit_nat_eq_self)
qed

lemma take_msb_bits: "take l (msb_bits v (l + k)) = msb_bits (v div 2 ^ k) l" for v :: nat
proof (rule nth_equalityI)
  fix i assume "i < length (take l (msb_bits v (l + k)))"
  then have i: "i < l" by simp
  then have "l + k - Suc i = k + (l - Suc i)" by simp
  with i show "take l (msb_bits v (l + k)) ! i = msb_bits (v div 2 ^ k) l ! i"
    by (simp add: nth_msb_bits bit_iff_odd div_exp_eq)
qed simp

lemma div_pow_less: "v div 2 ^ k < m \<longleftrightarrow> v < m * 2 ^ k" for v :: nat
  by (simp add: div_less_iff_less_mult)

lemma msb_bits_ones: "msb_bits (2 ^ n - 1 :: nat) n = replicate n True"
  unfolding mask_eq_exp_minus_1 [symmetric]
  by (rule nth_equalityI) (auto simp: nth_msb_bits bit_mask_iff)

lemma horner_bits_less: "horner_sum of_bool (2::nat) bs < 2 ^ length bs"
  by (induction bs) auto

lemma msb_bits_surj: "\<exists>v < 2 ^ length xs. msb_bits (v :: nat) (length xs) = xs"
proof (intro exI conjI)
  let ?v = "horner_sum of_bool 2 (rev xs) :: nat"
  show "?v < 2 ^ length xs"
    using horner_bits_less [of "rev xs"] by simp
  show "msb_bits ?v (length xs) = xs"
    by (rule nth_equalityI) (auto simp: nth_msb_bits bit_horner_sum_bit_iff rev_nth)
qed

lemma prefix_msb_bits:
  "prefix (msb_bits v l) (msb_bits w (l + k)) \<longleftrightarrow> w div 2 ^ k = v" if "v < 2 ^ l" "w < 2 ^ (l + k)" for v w :: nat
proof -
  have "prefix (msb_bits v l) (msb_bits w (l + k)) \<longleftrightarrow> msb_bits v l = msb_bits (w div 2 ^ k) l"
    using take_msb_bits [of l w k] by (metis length_msb_bits prefix_def take_append_length take_is_prefix)
  moreover have "w div 2 ^ k < 2 ^ l"
    using that(2) by (simp add: less_mult_imp_div_less power_add)
  ultimately show ?thesis using msb_bits_inj that(1) by metis
qed


subsection \<open>The contract of the code\<close>

locale prefix_code =
  fixes code :: "byte \<Rightarrow> bool list"
  assumes code_prefix: "prefix (code a) (code b) \<Longrightarrow> a = b"
    and code_covers: "length x = 30 \<Longrightarrow> x \<noteq> replicate 30 True \<Longrightarrow> \<exists>a. prefix (code a) x"
    and code_not_eos: "\<not> prefix (code a) (replicate 30 True)"
    and code_min: "5 \<le> length (code a)"
    and code_max: "length (code a) \<le> 30"
begin

definition inner :: "bool list \<Rightarrow> bool" where
  "inner p \<longleftrightarrow> (\<exists>a. strict_prefix p (code a))"

lemma code_not_inner: "inner p \<Longrightarrow> \<not> prefix (code a) p"
  unfolding inner_def by (metis code_prefix prefix_order.less_le_not_le prefix_order.order_trans)

lemma inner_prefix: "inner p \<Longrightarrow> prefix q p \<Longrightarrow> inner q"
  unfolding inner_def by (metis prefix_order.le_less_trans)

lemma inner_length: "inner p \<Longrightarrow> length p < 30"
  unfolding inner_def using prefix_length_less code_max order_less_le_trans by blast

lemma code_comparable: "prefix (code a) x \<Longrightarrow> prefix p x \<Longrightarrow> \<not> prefix (code a) p \<Longrightarrow> inner p"
  unfolding inner_def using prefix_same_cases prefix_order.less_le by blast

text \<open>
  A word that is not all ones and runs below an inner node holds a code that goes past the node.
\<close>

lemma covers_below:
  assumes "length p + length q \<le> 30" and "False \<in> set (p @ q)"
    and "\<And>a. \<not> prefix (code a) p"
  obtains a where "prefix (code a) (p @ q @ replicate (30 - length p - length q) True)"
    and "strict_prefix p (code a)"
proof -
  let ?x = "p @ q @ replicate (30 - length p - length q) True"
  have "length ?x = 30" using assms(1) by simp
  moreover have "?x \<noteq> replicate 30 True"
    using assms(2) by (metis Un_iff append.assoc in_set_replicate set_append)
  ultimately obtain a where a: "prefix (code a) ?x" using code_covers by blast
  moreover have "strict_prefix p (code a)"
    using a assms(3) [of a] prefix_same_cases [of "code a" ?x p]
    by (auto simp: prefix_order.less_le)
  ultimately show thesis using that by blast
qed

lemma ones_inner: "k < 30 \<Longrightarrow> inner (replicate k True)"
proof -
  assume k: "k < 30"
  have "\<not> prefix (code a) (replicate k True)" for a
  proof
    assume "prefix (code a) (replicate k True)"
    also have "prefix (replicate k True) (replicate 30 True)"
      using k by (metis le_add_diff_inverse less_imp_le prefixI replicate_add)
    finally show False using code_not_eos by blast
  qed
  then obtain a where "strict_prefix (replicate k True) (code a)"
    by (rule covers_below [of "replicate k True" "[False]", rotated 2]) (use k in auto)
  then show ?thesis unfolding inner_def by blast
qed

lemma short_inner: "length p < 5 \<Longrightarrow> inner p"
proof -
  assume p: "length p < 5"
  have "\<not> prefix (code a) p" for a
    using prefix_length_le [of "code a" p] code_min [of a] p by auto
  then obtain a where "strict_prefix p (code a)"
    by (rule covers_below [of p "[False]", rotated 2]) (use p in auto)
  then show ?thesis unfolding inner_def by blast
qed

lemma inner_witness: "inner p \<Longrightarrow> \<exists>a k. code a = p @ False # replicate k True"
proof -
  assume p: "inner p"
  obtain a where a: "prefix (code a) (p @ [False] @ replicate (30 - length p - length [False]) True)"
    and s: "strict_prefix p (code a)"
    by (rule covers_below [of p "[False]"]) (use p inner_length [OF p] code_not_inner [OF p] in auto)
  from s obtain r where r: "code a = p @ r" "r \<noteq> []"
    by (auto simp: strict_prefix_def prefix_def)
  with a have "prefix r (False # replicate (29 - length p) True)" by simp
  with r(2) obtain r' where r': "r = False # r'" "prefix r' (replicate (29 - length p) True)"
    by (cases r) auto
  then have "r' = replicate (length r') True"
    by (metis in_set_replicate prefix_imp_subseq replicate_eqI set_mono_prefix subsetD)
  with r r' show ?thesis by metis
qed

lemma inner_zero: "inner p \<Longrightarrow> \<exists>a. prefix (p @ [False]) (code a)"
  using inner_witness [of p] by (auto simp: prefix_def)

text \<open>Every inner node has its own code, the last one below its zero child.\<close>

definition inner_code :: "bool list \<Rightarrow> byte" where
  "inner_code p = (SOME a. \<exists>k. code a = p @ False # replicate k True)"

lemma inner_code: "inner p \<Longrightarrow> \<exists>k. code (inner_code p) = p @ False # replicate k True"
  unfolding inner_code_def by (rule someI_ex) (use inner_witness in blast)

lemma strip_ones: "p @ False # replicate k True = q @ False # replicate j True \<Longrightarrow> p = q"
proof -
  assume "p @ False # replicate k True = q @ False # replicate j True"
  then have "dropWhile id (rev (p @ False # replicate k True)) = dropWhile id (rev (q @ False # replicate j True))"
    by simp
  moreover have "dropWhile id (replicate i True @ False # x) = False # x" for i x
    by (induction i) auto
  ultimately show "p = q" by simp
qed

lemma inner_code_inj: "inj_on inner_code {p. inner p}"
proof (rule inj_onI)
  fix p q assume p: "p \<in> {p. inner p}" and q: "q \<in> {p. inner p}" and eq: "inner_code p = inner_code q"
  obtain k where "code (inner_code p) = p @ False # replicate k True" using p inner_code by blast
  moreover obtain j where "code (inner_code q) = q @ False # replicate j True" using q inner_code by blast
  ultimately show "p = q" using eq strip_ones by metis
qed

lemma finite_inner: "finite {p. inner p}"
  using inner_code_inj by (rule inj_on_finite [where B = UNIV]) auto

lemma card_inner: "card {p. inner p} \<le> 256"
proof -
  have "card {p. inner p} \<le> card (UNIV :: byte set)"
    by (rule card_inj_on_le [OF inner_code_inj]) auto
  then show ?thesis by (simp add: card_word)
qed

end

subsection \<open>Canonical codes\<close>

text \<open>
  A code is canonical when the codes of one length are consecutive numbers in the order of their
  symbols, and the first of each length is twice the end of the length before. \<open>canon\<close> runs
  over the codes \<open>vs\<close> and lengths \<open>ls\<close> with the next code of each length; \<open>canonical\<close> adds how
  the lengths' ranges follow each other.
\<close>

fun canon :: "nat list \<Rightarrow> nat list \<Rightarrow> nat list \<Rightarrow> nat list option" where
  "canon nxt (v # vs) (l # ls) = (if nxt ! l = v then canon (nxt[l := Suc v]) vs ls else None)"
| "canon nxt _ _ = Some nxt"

definition canonical :: "nat list \<Rightarrow> nat list \<Rightarrow> nat list \<Rightarrow> nat list \<Rightarrow> bool" where
  "canonical starts ends vs ls \<longleftrightarrow>
     length vs = 256 \<and> length ls = 256 \<and> list_all (\<lambda>l. 5 \<le> l \<and> l \<le> 30) ls \<and>
     length starts = 31 \<and> canon starts vs ls = Some ends \<and>
     starts ! 0 = 0 \<and> (\<forall>l<30. starts ! Suc l = 2 * ends ! l) \<and> ends ! 30 = 2 ^ 30 - 1"

lemma canon_length: "canon nxt vs ls = Some nxt' \<Longrightarrow> length nxt' = length nxt"
  by (induction nxt vs ls rule: canon.induct) (auto split: if_splits)

lemma canon_range:
  assumes "canon nxt vs ls = Some nxt'" and "length vs = length ls" and "\<forall>l\<in>set ls. l < length nxt"
    and "l < length nxt"
  shows "nxt ! l \<le> nxt' ! l" and "{vs ! i |i. i < length vs \<and> ls ! i = l} = {nxt ! l..<nxt' ! l}"
proof -
  have "nxt ! l \<le> nxt' ! l \<and> {vs ! i |i. i < length vs \<and> ls ! i = l} = {nxt ! l..<nxt' ! l}"
    using assms
  proof (induction nxt vs ls rule: canon.induct)
    case (1 nxt v vs k ls)
    let ?n = "nxt[k := Suc v]"
    have v: "nxt ! k = v" and c: "canon ?n vs ls = Some nxt'"
      using "1.prems"(1) by (auto split: if_splits)
    have IH: "?n ! l \<le> nxt' ! l \<and> {vs ! i |i. i < length vs \<and> ls ! i = l} = {?n ! l..<nxt' ! l}"
      using "1.IH" [OF v c] "1.prems" by simp
    have set: "{(v # vs) ! i |i. i < length (v # vs) \<and> (k # ls) ! i = l} =
        (if k = l then {v} else {}) \<union> {vs ! i |i. i < length vs \<and> ls ! i = l}"
    proof -
      have "(\<exists>i<Suc (length vs). x = (v # vs) ! i \<and> (k # ls) ! i = l) \<longleftrightarrow>
          (x = v \<and> k = l) \<or> (\<exists>i<length vs. x = vs ! i \<and> ls ! i = l)" for x
        by (simp only: Ex_less_Suc2) simp
      moreover have "x \<in> {(v # vs) ! i |i. i < length (v # vs) \<and> (k # ls) ! i = l} \<longleftrightarrow>
          (\<exists>i<Suc (length vs). x = (v # vs) ! i \<and> (k # ls) ! i = l)" for x
        by auto
      ultimately show ?thesis by (intro set_eqI) auto
    qed
    show ?case
      using IH v "1.prems"(3,4) unfolding set by (cases "k = l") auto
  qed auto
  then show "nxt ! l \<le> nxt' ! l" and "{vs ! i |i. i < length vs \<and> ls ! i = l} = {nxt ! l..<nxt' ! l}"
    by auto
qed

lemma canon_mono:
  assumes "canon nxt vs ls = Some nxt'" and "length vs = length ls" and "\<forall>l\<in>set ls. l < length nxt"
    and "i < j" and "j < length vs" and "ls ! i = ls ! j"
  shows "vs ! i < vs ! j"
  using assms
proof (induction nxt vs ls arbitrary: i j rule: canon.induct)
  case (1 nxt v vs k ls)
  have v: "nxt ! k = v" and c: "canon (nxt[k := Suc v]) vs ls = Some nxt'"
    using "1.prems"(1) by (auto split: if_splits)
  from "1.prems"(4,5) obtain j' where j: "j = Suc j'" "j' < length vs" by (cases j) auto
  show ?case
  proof (cases i)
    case 0
    have "vs ! j' \<in> {vs ! i |i. i < length vs \<and> ls ! i = k}"
      using j 0 "1.prems"(6) by auto
    also have "\<dots> = {(nxt[k := Suc v]) ! k..<nxt' ! k}"
      by (rule canon_range(2) [OF c]) (use "1.prems" in auto)
    finally show ?thesis using 0 j "1.prems"(3) by simp
  next
    case (Suc i')
    have "vs ! i' < vs ! j'"
      by (rule "1.IH" [OF v c]) (use "1.prems" j Suc in auto)
    then show ?thesis using Suc j by simp
  qed
qed auto

lemma canonical_ends_starts:
  assumes "canonical starts ends vs ls" and "l + d < 30"
  shows "ends ! l * 2 ^ Suc d \<le> starts ! Suc (l + d)"
  using assms(2)
proof (induction d)
  case 0
  then show ?case using assms(1) by (simp add: canonical_def)
next
  case (Suc d)
  have "starts ! Suc (l + d) \<le> ends ! Suc (l + d)"
    using assms(1) Suc.prems
    by (intro canon_range(1) [of starts vs ls ends]) (auto simp: canonical_def list_all_iff)
  moreover have "starts ! Suc (Suc (l + d)) = 2 * ends ! Suc (l + d)"
    using assms(1) Suc.prems by (simp add: canonical_def)
  ultimately show ?case using Suc by simp
qed

lemma canonical_value:
  assumes "canonical starts ends vs ls" and "i < 256"
  shows "starts ! (ls ! i) \<le> vs ! i" and "vs ! i < ends ! (ls ! i)"
    and "5 \<le> ls ! i" and "ls ! i \<le> 30"
proof -
  show l: "5 \<le> ls ! i" "ls ! i \<le> 30"
    using assms by (auto simp: canonical_def list_all_length)
  have "vs ! i \<in> {vs ! j |j. j < length vs \<and> ls ! j = ls ! i}"
    using assms by (auto simp: canonical_def)
  also have "\<dots> = {starts ! (ls ! i)..<ends ! (ls ! i)}"
    using assms(1) l(2) by (intro canon_range(2)) (auto simp: canonical_def list_all_iff)
  finally show "starts ! (ls ! i) \<le> vs ! i" "vs ! i < ends ! (ls ! i)" by auto
qed

lemma canonical_end_bound:
  assumes "canonical starts ends vs ls" and "l \<le> 30"
  shows "ends ! l * 2 ^ (30 - l) \<le> 2 ^ 30 - 1"
proof (cases "l = 30")
  case True
  then show ?thesis using assms by (simp add: canonical_def)
next
  case False
  have "starts ! 30 \<le> ends ! 30"
    using assms by (intro canon_range(1) [of starts vs ls ends]) (auto simp: canonical_def list_all_iff)
  moreover have "ends ! l * 2 ^ Suc (29 - l) \<le> starts ! Suc (l + (29 - l))"
    using assms False by (intro canonical_ends_starts [OF assms(1)]) auto
  moreover have "30 - l = Suc (29 - l)" "Suc (l + (29 - l)) = 30" using assms(2) False by auto
  moreover have "ends ! 30 = 2 ^ 30 - 1" using assms(1) unfolding canonical_def by blast
  ultimately show ?thesis by (metis le_trans)
qed

lemma canonical_value_bound:
  assumes "canonical starts ends vs ls" and "i < 256"
  shows "vs ! i < 2 ^ (ls ! i)"
proof -
  have "vs ! i * 2 ^ (30 - ls ! i) < ends ! (ls ! i) * 2 ^ (30 - ls ! i)"
    using canonical_value [OF assms] by simp
  also have "\<dots> \<le> 2 ^ 30 - 1"
    using canonical_value [OF assms] by (intro canonical_end_bound [OF assms(1)])
  also have "\<dots> < 2 ^ (ls ! i) * 2 ^ (30 - ls ! i)"
    using canonical_value(4) [OF assms] by (simp flip: power_add)
  finally show ?thesis by simp
qed

lemma canonical_find:
  assumes "canonical starts ends vs ls" and "n < 2 ^ 30 - 1"
  obtains i where "i < 256" and "n div 2 ^ (30 - ls ! i) = vs ! i"
proof -
  have "\<exists>l\<le>k. starts ! l * 2 ^ (30 - l) \<le> n \<and> n < ends ! l * 2 ^ (30 - l)"
    if "k \<le> 30" and "n < ends ! k * 2 ^ (30 - k)" for k
    using that
  proof (induction k)
    case 0
    then show ?case using assms(1) by (auto simp: canonical_def)
  next
    case (Suc k)
    show ?case
    proof (cases "starts ! Suc k * 2 ^ (30 - Suc k) \<le> n")
      case True
      then show ?thesis using Suc.prems by auto
    next
      case False
      moreover have "starts ! Suc k * 2 ^ (30 - Suc k) = ends ! k * 2 ^ (30 - k)"
      proof -
        have "30 - k = Suc (30 - Suc k)" "starts ! Suc k = 2 * ends ! k"
          using assms(1) Suc.prems by (auto simp: canonical_def)
        then show ?thesis by simp
      qed
      ultimately show ?thesis using Suc by (metis Suc_leD le_Suc_eq not_le)
    qed
  qed
  from this [of 30] obtain l where l: "l \<le> 30" "starts ! l * 2 ^ (30 - l) \<le> n" "n < ends ! l * 2 ^ (30 - l)"
    using assms by (auto simp: canonical_def)
  then have "n div 2 ^ (30 - l) \<in> {starts ! l..<ends ! l}"
    by (simp add: less_mult_imp_div_less less_eq_div_iff_mult_less_eq)
  also have "\<dots> = {vs ! i |i. i < length vs \<and> ls ! i = l}"
    using assms(1) l(1) by (intro canon_range(2) [symmetric]) (auto simp: canonical_def list_all_iff)
  finally show thesis using that assms(1) by (auto simp: canonical_def)
qed

text \<open>A longer code starts past every code of a shorter length.\<close>

lemma canonical_not_prefix:
  assumes c: "canonical starts ends vs ls" and i: "i < 256" and j: "j < 256"
    and p: "prefix (msb_bits (vs ! i) (ls ! i)) (msb_bits (vs ! j) (ls ! j))"
  shows "i = j"
proof -
  let ?d = "ls ! j - ls ! i"
  have le: "ls ! i \<le> ls ! j" using prefix_length_le [OF p] by simp
  then have l: "ls ! j = ls ! i + ?d" by simp
  have div: "vs ! j div 2 ^ ?d = vs ! i"
    using prefix_msb_bits [of "vs ! i" "ls ! i" "vs ! j" ?d] p
      canonical_value_bound [OF c i] canonical_value_bound [OF c j] by (simp flip: l)
  have "?d = 0"
  proof (rule ccontr)
    assume d: "?d \<noteq> 0"
    have "vs ! j < ends ! (ls ! i) * 2 ^ ?d"
      using div canonical_value(2) [OF c i] by (metis div_pow_less)
    also have "\<dots> \<le> starts ! (ls ! j)"
    proof -
      have "Suc (?d - 1) = ?d" "Suc (ls ! i + (?d - 1)) = ls ! j" "ls ! i + (?d - 1) < 30"
        using d canonical_value(4) [OF c j] by auto
      then show ?thesis using canonical_ends_starts [OF c, of "ls ! i" "?d - 1"] by metis
    qed
    finally show False using canonical_value(1) [OF c j] by simp
  qed
  with div l have "vs ! j = vs ! i" "ls ! i = ls ! j" by auto
  moreover have "canon starts vs ls = Some ends" "length vs = length ls" "length vs = 256"
      "\<forall>l\<in>set ls. l < length starts"
    using c by (auto simp: canonical_def list_all_iff)
  ultimately show "i = j"
    using canon_mono [of starts vs ls ends i j] canon_mono [of starts vs ls ends j i] i j
    by (cases i j rule: linorder_cases) auto
qed

theorem canonical_prefix_code:
  assumes c: "canonical starts ends vs ls"
  shows "prefix_code (\<lambda>b. msb_bits (vs ! unat b) (ls ! unat b))"
proof
  fix a b :: byte
  show "a = b" if "prefix (msb_bits (vs ! unat a) (ls ! unat a)) (msb_bits (vs ! unat b) (ls ! unat b))"
    using canonical_not_prefix [OF c unat_byte unat_byte that] by (simp add: word_unat_eq_iff)
  show "5 \<le> length (msb_bits (vs ! unat a) (ls ! unat a))"
    and "length (msb_bits (vs ! unat a) (ls ! unat a)) \<le> 30"
    using canonical_value(3,4) [OF c unat_byte [of a]] by simp_all
next
  fix x :: "bool list" assume x: "length x = 30" "x \<noteq> replicate 30 True"
  obtain n :: nat where n: "n < 2 ^ 30" "msb_bits n 30 = x"
    using msb_bits_surj [of x] x(1) by auto
  have "n \<noteq> 2 ^ 30 - 1"
    using msb_bits_ones [of 30] n(2) x(2) by blast
  with n(1) have "n < 2 ^ 30 - 1" by simp
  then obtain i where i: "i < 256" "n div 2 ^ (30 - ls ! i) = vs ! i"
    by (rule canonical_find [OF c])
  then have "prefix (msb_bits (vs ! i) (ls ! i)) x"
    using prefix_msb_bits [of "vs ! i" "ls ! i" n "30 - ls ! i"] n
      canonical_value_bound [OF c i(1)] canonical_value(4) [OF c i(1)] by simp
  moreover have "unat (of_nat i :: byte) = i"
    using i(1) by (simp add: unat_of_nat)
  ultimately show "\<exists>b :: byte. prefix (msb_bits (vs ! unat b) (ls ! unat b)) x" by metis
next
  fix a :: byte
  note ones = msb_bits_ones [of 30]
  show "\<not> prefix (msb_bits (vs ! unat a) (ls ! unat a)) (replicate 30 True)"
  proof
    assume "prefix (msb_bits (vs ! unat a) (ls ! unat a)) (replicate 30 True)"
    then have "(2 ^ 30 - 1) div 2 ^ (30 - ls ! unat a) = vs ! unat a"
      using prefix_msb_bits [of "vs ! unat a" "ls ! unat a" "2 ^ 30 - 1" "30 - ls ! unat a"] ones
        canonical_value_bound [OF c unat_byte [of a]] canonical_value(4) [OF c unat_byte [of a]] by simp
    then have "(2 ^ 30 - 1) div 2 ^ (30 - ls ! unat a) < ends ! (ls ! unat a)"
      using canonical_value(2) [OF c unat_byte [of a]] by simp
    then have "2 ^ 30 - 1 < ends ! (ls ! unat a) * 2 ^ (30 - ls ! unat a)"
      by (metis div_pow_less)
    also have "\<dots> \<le> 2 ^ 30 - 1"
      using canonical_value(4) [OF c unat_byte [of a]] by (rule canonical_end_bound [OF c])
    finally show False by simp
  qed
qed

end
