(* ===== verification/Hpack_Code.thy ===== *)
theory Hpack_Code
  imports Hpack_Tables Hpack_Prefix_Code
begin

text \<open>
  RFC 7541's Huffman code, as \<^verbatim>\<open>hpack/tables.go\<close> lists it, is a canonical prefix code: it meets
  the contract \<open>prefix_code\<close>.
\<close>

definition hcode :: "byte \<Rightarrow> bool list" where
  "hcode b = msb_bits (huffmanCodes ! unat b) (huffmanCodeLen ! unat b)"

text \<open>Where the canonical code of each length starts and ends.\<close>

definition hstarts :: "nat list" where
  "hstarts = [0, 0, 0, 0, 0, 0, 20, 92, 248, 508, 1016, 2042, 4090, 8184, 16380, 32764, 65534,
     131068, 262136, 524272, 1048550, 2097116, 4194258, 8388568, 16777194, 33554412, 67108832,
     134217694, 268435426, 536870910, 1073741820]"

definition hends :: "nat list" where
  "hends = [0, 0, 0, 0, 0, 10, 46, 124, 254, 508, 1021, 2045, 4092, 8190, 16382, 32767, 65534,
     131068, 262136, 524275, 1048558, 2097129, 4194284, 8388597, 16777206, 33554416, 67108847,
     134217713, 268435455, 536870910, 1073741823]"

lemma huffman_canon: "canon hstarts (map unat huffmanCodes) huffmanCodeLen = Some hends"
  by (simp add: huffmanCodes_def huffmanCodeLen_def hstarts_def hends_def)


lemma huffman_starts: "l < 30 \<Longrightarrow> hstarts ! Suc l = 2 * hends ! l"
proof -
  assume l: "l < 30"
  have len: "length (tl hstarts) = 30" "length (butlast hends) = 30"
    by (simp_all add: hstarts_def hends_def)
  have "hstarts ! Suc l = tl hstarts ! l" using l len by (simp add: nth_tl)
  also have "tl hstarts = map ((*) 2) (butlast hends)"
    by (simp add: hstarts_def hends_def)
  also have "\<dots> ! l = 2 * hends ! l" using l len by (simp add: nth_butlast)
  finally show "hstarts ! Suc l = 2 * hends ! l" .
qed

lemma huffman_canonical: "canonical hstarts hends (map unat huffmanCodes) huffmanCodeLen"
  unfolding canonical_def
proof (intro conjI allI impI)
  show "list_all (\<lambda>l. 5 \<le> l \<and> l \<le> 30) huffmanCodeLen"
    by (simp add: huffmanCodeLen_def)
  show "length hstarts = 31" "hstarts ! 0 = 0" "hends ! 30 = 2 ^ 30 - 1"
    by (simp_all add: hstarts_def hends_def)
  show "canon hstarts (map unat huffmanCodes) huffmanCodeLen = Some hends"
    by (rule huffman_canon)
qed (simp_all add: huffman_starts)

lemma hcode_unat: "hcode b = msb_bits (map unat huffmanCodes ! unat b) (huffmanCodeLen ! unat b)"
  unfolding hcode_def using unat_byte [of b] by (intro msb_bits_cong) (simp add: bit_unsigned_iff)

interpretation huff: prefix_code hcode
  using canonical_prefix_code [OF huffman_canonical] unfolding hcode_unat [symmetric] by simp

lemma length_hcode [simp]: "length (hcode b) = huffmanCodeLen ! unat b"
  by (simp add: hcode_def)

text \<open>A code has no bits past its length.\<close>

lemma code_bits_above: "bit (huffmanCodes ! unat b) k \<Longrightarrow> k < huffmanCodeLen ! unat b" for b :: byte
proof (rule unat_less_bit)
  show "unat (huffmanCodes ! unat b) < 2 ^ (huffmanCodeLen ! unat b)"
    using canonical_value_bound [OF huffman_canonical unat_byte [of b]] unat_byte [of b] by simp
qed

end
