(* ===== verification/Hpack_Huffman.thy ===== *)
theory Hpack_Huffman
  imports Hpack_Int Hpack_Code
begin

text \<open>
  The Huffman coder of \<^verbatim>\<open>hpack/huffman.go\<close>: the decoding tree built from the code table, the
  four-bits-a-step tables built from the tree, the decoder that runs on them and the encoder.
  An array of nodes is a list; a \<^verbatim>\<open>uint16\<close> child and a \<^verbatim>\<open>uint8\<close> state are natural numbers with
  the wrap-around of the conversion written out.
\<close>

subsection \<open>The tree\<close>

record huffmanNode =
  children0 :: nat
  children1 :: nat
  sym :: byte

definition child :: "huffmanNode \<Rightarrow> bool \<Rightarrow> nat" where
  "child n b = (if b then children1 n else children0 n)"

definition set_child :: "huffmanNode \<Rightarrow> bool \<Rightarrow> nat \<Rightarrow> huffmanNode" where
  "set_child n b c = (if b then n\<lparr>children1 := c\<rparr> else n\<lparr>children0 := c\<rparr>)"

definition newNode :: huffmanNode where
  "newNode = \<lparr>children0 = 0, children1 = 0, sym = 0\<rparr>"

text \<open>The inner loop of \<^verbatim>\<open>buildHuffmanTree\<close>, over the bits of one code from bit \<open>i - 1\<close> down.\<close>

fun huffmanPath :: "huffmanNode list \<Rightarrow> nat \<Rightarrow> uint32 \<Rightarrow> nat \<Rightarrow> huffmanNode list \<times> nat" where
  "huffmanPath tree node code 0 = (tree, node)"
| "huffmanPath tree node code (Suc i) =
     (let next = child (tree ! node) (bit code i) in
      if next = 0 then
        (let tree = tree @ [newNode];
             next = (length tree - 1) mod 2 ^ 16;
             tree = tree[node := set_child (tree ! node) (bit code i) next]
         in huffmanPath tree next code i)
      else huffmanPath tree next code i)"

definition addSym :: "huffmanNode list \<Rightarrow> nat \<Rightarrow> huffmanNode list" where
  "addSym tree s =
     (let (tree, node) = huffmanPath tree 0 (huffmanCodes ! s) (huffmanCodeLen ! s)
      in tree[node := (tree ! node)\<lparr>sym := of_nat s\<rparr>])"

definition buildHuffmanTree :: "huffmanNode list" where
  "buildHuffmanTree = foldl addSym [newNode] [0..<256]"

subsection \<open>The step table\<close>

record huffmanStep =
  step_next :: nat
  step_sym :: byte
  step_emit :: bool
  step_fail :: bool

definition newStep :: huffmanStep where
  "newStep = \<lparr>step_next = 0, step_sym = 0, step_emit = False, step_fail = False\<rparr>"

definition innerNode :: "huffmanNode list \<Rightarrow> nat \<Rightarrow> bool" where
  "innerNode tree i \<longleftrightarrow> children0 (tree ! i) \<noteq> 0"

definition huffmanNodes :: "huffmanNode list \<Rightarrow> nat list" where
  "huffmanNodes tree = filter (innerNode tree) [0..<length tree]"

definition stateOf :: "huffmanNode list \<Rightarrow> nat \<Rightarrow> nat" where
  "stateOf tree i =
     (if innerNode tree i then length (filter (innerNode tree) [0..<i]) mod 2 ^ 8 else 0)"

text \<open>The innermost loop of \<^verbatim>\<open>buildHuffmanSteps\<close>, over the bits of a nibble; \<^verbatim>\<open>break\<close> ends it.\<close>

fun nibbleWalk :: "huffmanNode list \<Rightarrow> nat \<Rightarrow> nat \<Rightarrow> huffmanStep \<Rightarrow> nat \<Rightarrow> nat \<times> huffmanStep" where
  "nibbleWalk tree nibble node step 0 = (node, step)"
| "nibbleWalk tree nibble node step (Suc i) =
     (let next = child (tree ! node) (bit nibble i) in
      if next = 0 then (node, step\<lparr>step_fail := True\<rparr>)
      else if children0 (tree ! next) = 0
      then nibbleWalk tree nibble 0 (step\<lparr>step_sym := sym (tree ! next), step_emit := True\<rparr>) i
      else nibbleWalk tree nibble next step i)"

definition nibbleStep :: "huffmanNode list \<Rightarrow> nat \<Rightarrow> nat \<Rightarrow> huffmanStep" where
  "nibbleStep tree start nibble =
     (let (node, step) = nibbleWalk tree nibble start newStep 4
      in step\<lparr>step_next := stateOf tree node\<rparr>)"

fun acceptLoop :: "huffmanNode list \<Rightarrow> nat \<Rightarrow> nat \<Rightarrow> nat \<Rightarrow> bool list \<Rightarrow> bool list" where
  "acceptLoop tree 0 depth node accepts = accepts"
| "acceptLoop tree (Suc n) depth node accepts =
     (if depth = 0 \<or> children0 (tree ! node) \<noteq> 0
      then acceptLoop tree n (Suc depth) (children1 (tree ! node)) (accepts[stateOf tree node := True])
      else accepts)"

definition buildHuffmanSteps :: "huffmanNode list \<Rightarrow> huffmanStep list list \<times> bool list" where
  "buildHuffmanSteps tree =
     (let steps = map (\<lambda>start. map (nibbleStep tree start) [0..<16]) (huffmanNodes tree);
          accepts = acceptLoop tree 8 0 0 (replicate 256 False)
      in (steps @ replicate (256 - length steps) (replicate 16 newStep), accepts))"

definition huffmanTree :: "huffmanNode list" where
  "huffmanTree = buildHuffmanTree"

definition huffmanSteps :: "huffmanStep list list" where
  "huffmanSteps = fst (buildHuffmanSteps huffmanTree)"

definition huffmanAccepts :: "bool list" where
  "huffmanAccepts = snd (buildHuffmanSteps huffmanTree)"

subsection \<open>Decoding\<close>

text \<open>The loop of \<^verbatim>\<open>huffmanDecodeAppend\<close>: two steps a byte, then the length check.\<close>

fun huffmanDecodeLoop :: "nat \<Rightarrow> bytes \<Rightarrow> bytes \<Rightarrow> int \<Rightarrow> 'e hpack_error + bytes" where
  "huffmanDecodeLoop state out [] maxLen =
     (if huffmanAccepts ! state then Inr out else Inl ErrInvalidHuffman)"
| "huffmanDecodeLoop state out (b # s) maxLen =
     (let step = huffmanSteps ! state ! unat (drop_bit 4 b) in
      if step_fail step then Inl ErrInvalidHuffman
      else
        (let out = (if step_emit step then out @ [step_sym step] else out);
             step = huffmanSteps ! step_next step ! unat (b AND 0xf) in
         if step_fail step then Inl ErrInvalidHuffman
         else
           (let out = (if step_emit step then out @ [step_sym step] else out) in
            if maxLen > 0 \<and> int (length out) > maxLen then Inl ErrStringTooLong
            else huffmanDecodeLoop (step_next step) out s maxLen)))"

definition huffmanDecodeAppend :: "bytes \<Rightarrow> bytes \<Rightarrow> int \<Rightarrow> 'e hpack_error + bytes" where
  "huffmanDecodeAppend out s maxLen = huffmanDecodeLoop 0 out s maxLen"

definition huffmanDecode :: "bytes \<Rightarrow> int \<Rightarrow> 'e hpack_error + bytes" where
  "huffmanDecode s maxLen = huffmanDecodeAppend [] s maxLen"

subsection \<open>Encoding\<close>

definition huffmanLen :: "bytes \<Rightarrow> nat" where
  "huffmanLen s = (sum_list (map (\<lambda>c. huffmanCodeLen ! unat c) s) + 7) div 8"

fun flushBytes :: "bytes \<Rightarrow> uint64 \<Rightarrow> nat \<Rightarrow> bytes \<times> nat" where
  "flushBytes dst acc n =
     (if n \<ge> 8 then flushBytes (dst @ [ucast (drop_bit (n - 8) acc)]) acc (n - 8) else (dst, n))"

declare flushBytes.simps [simp del]

fun huffmanAppendLoop :: "bytes \<Rightarrow> uint64 \<Rightarrow> nat \<Rightarrow> bytes \<Rightarrow> bytes \<times> uint64 \<times> nat" where
  "huffmanAppendLoop dst acc n [] = (dst, acc, n)"
| "huffmanAppendLoop dst acc n (c # s) =
     (let acc = push_bit (huffmanCodeLen ! unat c) acc OR ucast (huffmanCodes ! unat c);
          n = n + huffmanCodeLen ! unat c;
          (dst, n) = flushBytes dst acc n
      in huffmanAppendLoop dst acc n s)"

definition huffmanAppend :: "bytes \<Rightarrow> bytes \<Rightarrow> bytes" where
  "huffmanAppend dst s =
     (let (dst, acc, n) = huffmanAppendLoop dst 0 0 s
      in if n > 0 then dst @ [ucast (push_bit (8 - n) acc) OR drop_bit n 0xff] else dst)"

subsection \<open>The tree holds the prefixes of the codes\<close>

text \<open>
  \<open>tree_paths tree ps\<close>: node \<open>n\<close> is reached from the root by the bits \<open>ps ! n\<close>, no two nodes by
  the same bits, the paths are closed under prefixes, and a node has a child exactly where the longer path is a node's.
\<close>

definition tree_paths :: "huffmanNode list \<Rightarrow> bool list list \<Rightarrow> bool" where
  "tree_paths tree ps \<longleftrightarrow>
     length ps = length tree \<and> distinct ps \<and> 0 < length tree \<and> ps ! 0 = [] \<and>
     (\<forall>p b. p @ [b] \<in> set ps \<longrightarrow> p \<in> set ps) \<and>
     (\<forall>n b. n < length tree \<longrightarrow>
        (if ps ! n @ [b] \<in> set ps
         then child (tree ! n) b \<noteq> 0 \<and> child (tree ! n) b < length tree \<and>
              ps ! child (tree ! n) b = ps ! n @ [b]
         else child (tree ! n) b = 0))"

lemma child_simps [simp]:
  "child (set_child nd b c) b' = (if b = b' then c else child nd b')"
  "sym (set_child nd b c) = sym nd"
  "child (nd\<lparr>sym := s\<rparr>) b' = child nd b'"
  "child newNode b' = 0"
  by (auto simp: child_def set_child_def newNode_def)

lemma tree_paths_child:
  assumes "tree_paths tree ps" and "n < length tree" and "child (tree ! n) b \<noteq> 0"
  shows "child (tree ! n) b < length tree" and "ps ! child (tree ! n) b = ps ! n @ [b]"
    and "ps ! n @ [b] \<in> set ps"
  using assms unfolding tree_paths_def by (meson)+

lemma tree_paths_no_child:
  "tree_paths tree ps \<Longrightarrow> n < length tree \<Longrightarrow> child (tree ! n) b = 0 \<longleftrightarrow> ps ! n @ [b] \<notin> set ps"
  unfolding tree_paths_def by (meson)

lemma tree_paths_inj:
  "tree_paths tree ps \<Longrightarrow> n < length tree \<Longrightarrow> m < length tree \<Longrightarrow> ps ! n = ps ! m \<longleftrightarrow> n = m"
  unfolding tree_paths_def by (simp add: nth_eq_iff_index_eq)

lemma tree_pathsD:
  assumes "tree_paths tree ps"
  shows "length ps = length tree" and "0 < length tree" and "ps ! 0 = []"
  using assms by (simp_all add: tree_paths_def)

lemma tree_paths_node:
  assumes "tree_paths tree ps" and "n < length tree"
  shows "if ps ! n @ [b] \<in> set ps
    then child (tree ! n) b \<noteq> 0 \<and> child (tree ! n) b < length tree \<and>
      ps ! child (tree ! n) b = ps ! n @ [b]
    else child (tree ! n) b = 0"
  using assms unfolding tree_paths_def by blast

lemma tree_paths_grow:
  assumes t: "tree_paths tree ps" and n: "n < length tree" and z: "child (tree ! n) b = 0"
  shows "tree_paths ((tree @ [newNode])[n := set_child (tree ! n) b (length tree)])
    (ps @ [ps ! n @ [b]])" (is "tree_paths ?t ?ps")
proof -
  have len: "length ps = length tree" and dist: "distinct ps" and pos: "0 < length tree"
    and root: "ps ! 0 = []" and closed: "\<And>p b. p @ [b] \<in> set ps \<Longrightarrow> p \<in> set ps"
    using t by (auto simp: tree_paths_def)
  have new: "ps ! n @ [b] \<notin> set ps"
    using z tree_paths_no_child [OF t n] by blast
  have node: "if ?ps ! m @ [c] \<in> set ?ps
      then child (?t ! m) c \<noteq> 0 \<and> child (?t ! m) c < length ?t \<and> ?ps ! child (?t ! m) c = ?ps ! m @ [c]
      else child (?t ! m) c = 0" if m: "m < length ?t" for m c
  proof (cases "m < length tree")
    case True
    have old: "?ps ! m = ps ! m" using True len by (simp add: nth_append)
    show ?thesis
    proof (cases "m = n \<and> c = b")
      case True
      then show ?thesis using n len pos by (simp add: nth_append nth_list_update)
    next
      case False
      then have "ps ! m @ [c] \<noteq> ps ! n @ [b]"
        using tree_paths_inj [OF t \<open>m < length tree\<close> n] by auto
      moreover have "child (?t ! m) c = child (tree ! m) c"
        using False True by (cases "m = n") (auto simp: nth_append nth_list_update)
      ultimately show ?thesis
        using tree_paths_node [OF t True, of c] True len by (auto simp: nth_append split: if_splits)
    qed
  next
    case False
    then have m': "m = length tree" using m by simp
    have "ps ! n @ [b] @ [c] \<notin> set ps"
      using closed [of "ps ! n @ [b]" c] new by auto
    then show ?thesis using m' n len by (simp add: nth_append nth_list_update)
  qed
  have "p \<in> set ?ps" if "p @ [c] \<in> set ?ps" for p c
    using that closed n len by auto
  then show ?thesis
    unfolding tree_paths_def
    by (intro conjI allI impI node) (use dist new len pos root in \<open>auto simp: nth_append\<close>)
qed

lemma tree_paths_sym:
  assumes "tree_paths tree ps"
  shows "tree_paths (tree[n := (tree ! n)\<lparr>sym := s\<rparr>]) ps"
proof -
  have "child (tree[n := (tree ! n)\<lparr>sym := s\<rparr>] ! m) b = child (tree ! m) b" for m b
    by (cases "m = n"; cases "n < length tree") (auto simp: nth_list_update list_update_beyond)
  then show ?thesis using assms by (simp add: tree_paths_def)
qed

lemma prefixes_Cons: "{p @ q |q. prefix q (b # r)} = insert p {(p @ [b]) @ q |q. prefix q r}"
  by (auto simp: prefix_Cons)

text \<open>What the inner loop adds: the prefixes of the code below the node it starts from.\<close>

lemma huffmanPath_paths:
  assumes "tree_paths tree ps" and "node < length tree" and "length tree + i \<le> 2 ^ 16"
    and "huffmanPath tree node code i = (tree', node')"
  shows "\<exists>qs. tree_paths tree' (ps @ qs) \<and> node' < length tree' \<and>
    (ps @ qs) ! node' = ps ! node @ msb_bits code i \<and>
    set (ps @ qs) = set ps \<union> {ps ! node @ q |q. prefix q (msb_bits code i)} \<and>
    (\<forall>n<length tree. sym (tree' ! n) = sym (tree ! n)) \<and>
    length tree \<le> length tree' \<and> length tree' \<le> length tree + i"
  using assms
proof (induction i arbitrary: tree node ps)
  case 0
  then have "ps ! node \<in> set ps" by (simp add: tree_paths_def)
  with 0 show ?case by (intro exI [of _ "[]"]) auto
next
  case (Suc i)
  let ?b = "bit code i"
  have len: "length ps = length tree" using Suc.prems(1) by (simp add: tree_paths_def)
  show ?case
  proof (cases "child (tree ! node) ?b = 0")
    case True
    let ?t = "(tree @ [newNode])[node := set_child (tree ! node) ?b (length tree)]"
    let ?ps = "ps @ [ps ! node @ [?b]]"
    have step: "huffmanPath ?t (length tree) code i = (tree', node')"
      using Suc.prems(2,3,4) True by (simp add: Let_def nth_append)
    have t: "tree_paths ?t ?ps" using Suc.prems(1,2) True by (rule tree_paths_grow)
    obtain qs where qs: "tree_paths tree' (?ps @ qs)" "node' < length tree'"
        "(?ps @ qs) ! node' = ?ps ! length tree @ msb_bits code i"
        "set (?ps @ qs) = set ?ps \<union> {?ps ! length tree @ q |q. prefix q (msb_bits code i)}"
        "\<forall>n<length ?t. sym (tree' ! n) = sym (?t ! n)"
        "length ?t \<le> length tree'" "length tree' \<le> length ?t + i"
      using Suc.IH [OF t _ _ step] Suc.prems(3) by auto
    have nth: "?ps ! length tree = ps ! node @ [?b]" using len by (simp add: nth_append)
    have "set (ps @ ([ps ! node @ [?b]] @ qs)) = set ps \<union> {ps ! node @ q |q. prefix q (msb_bits code (Suc i))}"
      using qs(4) Suc.prems(2) len unfolding nth msb_bits.simps prefixes_Cons by auto
    moreover have "\<forall>n<length tree. sym (tree' ! n) = sym (tree ! n)"
      using qs(5) Suc.prems(2) by (auto simp: nth_append nth_list_update split: if_splits)
    ultimately show ?thesis
      using qs(1,2,3,6,7) nth by (intro exI [of _ "[ps ! node @ [?b]] @ qs"]) auto
  next
    case False
    let ?c = "child (tree ! node) ?b"
    have step: "huffmanPath tree ?c code i = (tree', node')"
      using Suc.prems(4) False by (simp add: Let_def)
    note c = tree_paths_child [OF Suc.prems(1,2) False]
    obtain qs where qs: "tree_paths tree' (ps @ qs)" "node' < length tree'"
        "(ps @ qs) ! node' = ps ! ?c @ msb_bits code i"
        "set (ps @ qs) = set ps \<union> {ps ! ?c @ q |q. prefix q (msb_bits code i)}"
        "\<forall>n<length tree. sym (tree' ! n) = sym (tree ! n)"
        "length tree \<le> length tree'" "length tree' \<le> length tree + i"
      using Suc.IH [OF Suc.prems(1) c(1) _ step] Suc.prems(3) by auto
    have "set (ps @ qs) = set ps \<union> {ps ! node @ q |q. prefix q (msb_bits code (Suc i))}"
      using qs(4) Suc.prems(2) len unfolding c(2) msb_bits.simps prefixes_Cons by auto
    then show ?thesis
      using qs c(2) by (intro exI [of _ qs]) auto
  qed
qed

text \<open>The tree after the symbols below \<open>k\<close>.\<close>

definition holds_codes :: "nat \<Rightarrow> huffmanNode list \<Rightarrow> bool list list \<Rightarrow> bool" where
  "holds_codes k tree ps \<longleftrightarrow>
     tree_paths tree ps \<and> length tree \<le> 1 + 30 * k \<and>
     set ps = insert [] {q. \<exists>s<k. prefix q (hcode (of_nat s))} \<and>
     (\<forall>s<k. \<exists>n<length tree. ps ! n = hcode (of_nat s) \<and> sym (tree ! n) = of_nat s)"

lemma hcode_of_nat:
  "s < 256 \<Longrightarrow> hcode (of_nat s) = msb_bits (huffmanCodes ! s) (huffmanCodeLen ! s)"
  by (simp add: hcode_def unat_of_nat)

lemma hcode_inj: "hcode a = hcode b \<Longrightarrow> a = b"
  by (rule huff.code_prefix) simp

lemma of_nat_byte_eq: "s < 256 \<Longrightarrow> t < 256 \<Longrightarrow> (of_nat s :: byte) = of_nat t \<longleftrightarrow> s = t"
  by (auto simp: word_unat_eq_iff unat_of_nat)

lemma addSym_holds:
  assumes h: "holds_codes k tree ps" and k: "k < 256"
  shows "\<exists>ps. holds_codes (Suc k) (addSym tree k) ps"
proof -
  let ?c = "huffmanCodes ! k" and ?l = "huffmanCodeLen ! k"
  obtain t' n' where path: "huffmanPath tree 0 ?c ?l = (t', n')" by fastforce
  have t: "tree_paths tree ps" using h by (simp add: holds_codes_def)
  note lenp = tree_pathsD(1) [OF t] and pos = tree_pathsD(2) [OF t] and root = tree_pathsD(3) [OF t]
  have l: "?l \<le> 30" using huff.code_max [of "of_nat k"] k by (simp add: unat_of_nat)
  obtain qs where qs: "tree_paths t' (ps @ qs)" "n' < length t'"
      "(ps @ qs) ! n' = ps ! 0 @ msb_bits ?c ?l"
      "set (ps @ qs) = set ps \<union> {ps ! 0 @ q |q. prefix q (msb_bits ?c ?l)}"
      "\<forall>n<length tree. sym (t' ! n) = sym (tree ! n)"
      "length tree \<le> length t'" "length t' \<le> length tree + ?l"
  proof -
    have "length tree + ?l \<le> 2 ^ 16" using h k l by (simp add: holds_codes_def)
    from huffmanPath_paths [OF t pos this path] that show thesis by blast
  qed
  let ?t = "t'[n' := (t' ! n')\<lparr>sym := of_nat k\<rparr>]"
  have add: "addSym tree k = ?t" by (simp add: addSym_def path)
  have code: "(ps @ qs) ! n' = hcode (of_nat k)" using qs(3) root k by (simp add: hcode_of_nat)
  have "\<exists>n<length ?t. (ps @ qs) ! n = hcode (of_nat s) \<and> sym (?t ! n) = of_nat s" if s: "s < Suc k" for s
  proof (cases "s = k")
    case True
    then show ?thesis using code qs(2) by (intro exI [of _ n']) simp
  next
    case False
    with s obtain n where n: "n < length tree" "ps ! n = hcode (of_nat s)" "sym (tree ! n) = of_nat s"
      using h unfolding holds_codes_def by (metis less_SucE)
    have "(ps @ qs) ! n = hcode (of_nat s)" using n lenp by (simp add: nth_append)
    moreover have "n \<noteq> n'"
    proof
      assume "n = n'"
      with code calculation have "(of_nat s :: byte) = of_nat k" by (metis hcode_inj)
      with s k False show False by (simp add: of_nat_byte_eq)
    qed
    ultimately show ?thesis using n qs(5,6) by (intro exI [of _ n]) auto
  qed
  moreover have "set (ps @ qs) = insert [] {q. \<exists>s<Suc k. prefix q (hcode (of_nat s))}"
  proof -
    have "set ps = insert [] {q. \<exists>s<k. prefix q (hcode (of_nat s))}"
      using h unfolding holds_codes_def by blast
    moreover have "{ps ! 0 @ q |q. prefix q (msb_bits ?c ?l)} = {q. prefix q (hcode (of_nat k))}"
      using root k by (simp add: hcode_of_nat)
    moreover have "{q. \<exists>s<Suc k. prefix q (hcode (of_nat s))} =
        {q. \<exists>s<k. prefix q (hcode (of_nat s))} \<union> {q. prefix q (hcode (of_nat k))}"
      by (auto simp: less_Suc_eq)
    ultimately show ?thesis using qs(4) by auto
  qed
  moreover have "length ?t \<le> 1 + 30 * Suc k"
    using qs(7) l h by (simp add: holds_codes_def)
  ultimately have "holds_codes (Suc k) ?t (ps @ qs)"
    unfolding holds_codes_def using tree_paths_sym [OF qs(1)] by blast
  then show ?thesis unfolding add by blast
qed

lemma build_holds: "k \<le> 256 \<Longrightarrow> \<exists>ps. holds_codes k (foldl addSym [newNode] [0..<k]) ps"
proof (induction k)
  case 0
  have "holds_codes 0 [newNode] [[]]"
    by (auto simp: holds_codes_def tree_paths_def)
  then show ?case by auto
next
  case (Suc k)
  then obtain ps where "holds_codes k (foldl addSym [newNode] [0..<k]) ps" by auto
  then show ?case using addSym_holds [of k] Suc.prems by simp
qed

text \<open>The paths of the finished tree.\<close>

definition hpaths :: "bool list list" where
  "hpaths = (SOME ps. holds_codes 256 huffmanTree ps)"

lemma hpaths_holds: "holds_codes 256 huffmanTree hpaths"
  unfolding hpaths_def huffmanTree_def buildHuffmanTree_def
  by (rule someI_ex) (rule build_holds, simp)

lemma hpaths_tree: "tree_paths huffmanTree hpaths"
  using hpaths_holds by (simp add: holds_codes_def)

lemmas hpaths_length = tree_pathsD(1) [OF hpaths_tree]
  and hpaths_pos = tree_pathsD(2) [OF hpaths_tree]
  and hpaths_root = tree_pathsD(3) [OF hpaths_tree]
  and hpaths_inj = tree_paths_inj [OF hpaths_tree]
  and hpaths_child = tree_paths_child [OF hpaths_tree]
  and hpaths_no_child = tree_paths_no_child [OF hpaths_tree]

lemma hpaths_set: "p \<in> set hpaths \<longleftrightarrow> (\<exists>a. prefix p (hcode a))"
proof -
  have "set hpaths = insert [] {q. \<exists>s<256. prefix q (hcode (of_nat s))}"
    using hpaths_holds unfolding holds_codes_def by blast
  moreover have "(\<exists>s<256. prefix p (hcode (of_nat s))) \<longleftrightarrow> (\<exists>a. prefix p (hcode a))"
  proof
    assume "\<exists>a. prefix p (hcode a)"
    then obtain a :: byte where "prefix p (hcode (of_nat (unat a)))" by auto
    then show "\<exists>s<256. prefix p (hcode (of_nat s))" using unat_byte by blast
  qed blast
  ultimately show ?thesis by auto
qed

lemma hpaths_sym: "n < length huffmanTree \<Longrightarrow> hpaths ! n = hcode a \<Longrightarrow> sym (huffmanTree ! n) = a"
proof -
  assume n: "n < length huffmanTree" "hpaths ! n = hcode a"
  obtain m where m: "m < length huffmanTree" "hpaths ! m = hcode (of_nat (unat a))"
      "sym (huffmanTree ! m) = of_nat (unat a)"
    using hpaths_holds unat_byte [of a] unfolding holds_codes_def by blast
  then have "n = m" using n hpaths_inj [of n m] by simp
  with m show ?thesis by simp
qed

abbreviation inner_at :: "nat \<Rightarrow> bool" where
  "inner_at n \<equiv> n < length huffmanTree \<and> innerNode huffmanTree n"

lemma inner_at_iff: "n < length huffmanTree \<Longrightarrow> innerNode huffmanTree n \<longleftrightarrow> huff.inner (hpaths ! n)"
proof -
  assume n: "n < length huffmanTree"
  have "innerNode huffmanTree n \<longleftrightarrow> child (huffmanTree ! n) False \<noteq> 0"
    by (simp add: innerNode_def child_def)
  also have "\<dots> \<longleftrightarrow> hpaths ! n @ [False] \<in> set hpaths"
    using hpaths_no_child [OF n, of False] by auto
  also have "\<dots> \<longleftrightarrow> huff.inner (hpaths ! n)"
    unfolding hpaths_set using huff.inner_zero
    by (metis append_prefixD huff.inner_def prefix_order.less_le prefix_snoc prefix_order.le_less_trans strict_prefix_def same_append_eq append_Nil2 not_Cons_self2)
  finally show ?thesis .
qed

lemma leaf_code: "n < length huffmanTree \<Longrightarrow> \<not> innerNode huffmanTree n \<Longrightarrow> hpaths ! n = hcode (sym (huffmanTree ! n))"
proof -
  assume n: "n < length huffmanTree" "\<not> innerNode huffmanTree n"
  then obtain a where "prefix (hpaths ! n) (hcode a)"
    using hpaths_length hpaths_set nth_mem by metis
  moreover have "\<not> strict_prefix (hpaths ! n) (hcode a)"
    using n inner_at_iff unfolding huff.inner_def by blast
  ultimately have "hpaths ! n = hcode a" by (simp add: prefix_order.less_le)
  with hpaths_sym [OF n(1)] show ?thesis by simp
qed

lemma inner_node: "huff.inner p \<Longrightarrow> \<exists>n. inner_at n \<and> hpaths ! n = p"
proof -
  assume p: "huff.inner p"
  then have "p \<in> set hpaths"
    unfolding hpaths_set huff.inner_def using prefix_order.less_imp_le by blast
  then obtain n where "n < length huffmanTree" "hpaths ! n = p"
    by (metis in_set_conv_nth hpaths_length)
  with p show ?thesis using inner_at_iff by auto
qed

lemma inner_at_root: "inner_at 0"
  using hpaths_pos huff.ones_inner [of 0] inner_at_iff hpaths_root by simp

subsection \<open>Decoding bit by bit\<close>

text \<open>The walk a bit at a time, which the step table takes four bits at a time.\<close>

fun bitWalk :: "nat \<Rightarrow> bool list \<Rightarrow> (nat \<times> bytes) option" where
  "bitWalk n [] = Some (n, [])"
| "bitWalk n (b # bs) =
     (let m = child (huffmanTree ! n) b in
      if m = 0 then None
      else if innerNode huffmanTree m then bitWalk m bs
      else map_option (\<lambda>(k, out). (k, sym (huffmanTree ! m) # out)) (bitWalk 0 bs))"

lemma bitWalk_append:
  "bitWalk n (xs @ ys) =
     (case bitWalk n xs of None \<Rightarrow> None
      | Some (m, out) \<Rightarrow> map_option (\<lambda>(k, out'). (k, out @ out')) (bitWalk m ys))"
proof (induction xs arbitrary: n)
  case Nil
  then show ?case by (cases "bitWalk n ys") auto
next
  case (Cons b xs)
  then show ?case
    by (auto simp: Let_def option.map_comp comp_def case_prod_beta split: option.splits
          intro!: option.map_cong0)
qed

lemma bitWalk_sound:
  assumes "inner_at n" and "bitWalk n bs = Some (m, out)"
  shows "inner_at m \<and> hpaths ! n @ bs = concat (map hcode out) @ hpaths ! m"
  using assms
proof (induction bs arbitrary: n out)
  case Nil
  then show ?case by simp
next
  case (Cons b bs)
  let ?c = "child (huffmanTree ! n) b"
  have c0: "?c \<noteq> 0" using Cons.prems(2) by (auto simp: Let_def split: if_splits)
  note c = hpaths_child [OF _ c0]
  show ?case
  proof (cases "innerNode huffmanTree ?c")
    case True
    then have "bitWalk ?c bs = Some (m, out)" using Cons.prems(2) c0 by (simp add: Let_def)
    then show ?thesis using Cons.IH [of ?c out] True c Cons.prems(1) by simp
  next
    case False
    then obtain out' where out: "bitWalk 0 bs = Some (m, out')" "out = sym (huffmanTree ! ?c) # out'"
      using Cons.prems(2) c0 by (auto simp: Let_def)
    then have IH: "inner_at m" "bs = concat (map hcode out') @ hpaths ! m"
      using Cons.IH [OF inner_at_root, of out'] hpaths_root by auto
    have "hpaths ! n @ [b] = hcode (sym (huffmanTree ! ?c))"
      using leaf_code [OF _ False] c Cons.prems(1) by simp
    then have "hpaths ! n @ b # bs = hcode (sym (huffmanTree ! ?c)) @ bs" by simp
    then show ?thesis unfolding out(2) using IH by simp
  qed
qed

lemma bitWalk_complete:
  assumes "inner_at n" and "inner_at m" and "hpaths ! n @ bs = concat (map hcode out) @ hpaths ! m"
  shows "bitWalk n bs = Some (m, out)"
  using assms
proof (induction bs arbitrary: n out)
  case Nil
  have out: "out = []"
  proof (cases out)
    case (Cons a r)
    then have "prefix (hcode a) (hpaths ! n)" using Nil.prems(3) by simp
    then show ?thesis using huff.code_not_inner inner_at_iff Nil.prems(1) by blast
  qed
  then show ?case using Nil.prems hpaths_inj [of n m] by simp
next
  case (Cons b bs)
  let ?c = "child (huffmanTree ! n) b"
  let ?q = "hpaths ! n @ [b]"
  have eq: "?q @ bs = concat (map hcode out) @ hpaths ! m" using Cons.prems(3) by simp
  have not: "\<not> prefix (hcode a) (hpaths ! n)" for a
    using huff.code_not_inner inner_at_iff Cons.prems(1) by blast
  have "huff.inner ?q \<or> (\<exists>a r. out = a # r \<and> ?q = hcode a)"
  proof (cases out)
    case Nil
    then have "prefix ?q (hpaths ! m)" using eq by (metis append_Nil concat.simps(1) list.map(1) prefixI)
    then show ?thesis using huff.inner_prefix inner_at_iff Cons.prems(2) by blast
  next
    case (Cons a r)
    then have "prefix (hcode a) (?q @ bs)" using eq by simp
    then consider "prefix (hcode a) ?q" | "strict_prefix ?q (hcode a)"
      using prefix_same_cases [of "hcode a" "?q @ bs" ?q] prefix_order.less_le [of ?q "hcode a"]
      by (metis prefixI prefix_order.order_refl)
    then show ?thesis
    proof cases
      case 1
      then show ?thesis using not [of a] Cons by auto
    next
      case 2
      then show ?thesis unfolding huff.inner_def by blast
    qed
  qed
  then have "?q \<in> set hpaths"
    unfolding hpaths_set huff.inner_def by (metis prefix_order.order_refl prefix_order.less_imp_le)
  then have c0: "?c \<noteq> 0" using hpaths_no_child [of n b] Cons.prems(1) by blast
  note c = hpaths_child [OF _ c0]
  show ?case
  proof (cases "innerNode huffmanTree ?c")
    case True
    have "bitWalk ?c bs = Some (m, out)"
      by (rule Cons.IH) (use True c Cons.prems eq in auto)
    then show ?thesis using True c0 by (simp add: Let_def)
  next
    case False
    then have "\<not> huff.inner ?q" using inner_at_iff [of ?c] c Cons.prems(1) by simp
    then obtain a r where a: "out = a # r" "?q = hcode a"
      using \<open>huff.inner ?q \<or> (\<exists>a r. out = a # r \<and> ?q = hcode a)\<close> by blast
    then have "sym (huffmanTree ! ?c) = a" using hpaths_sym [of ?c a] c Cons.prems(1) by simp
    moreover have "hpaths ! 0 @ bs = concat (map hcode r) @ hpaths ! m"
      using eq a hpaths_root by simp
    then have "bitWalk 0 bs = Some (m, r)"
      using Cons.IH [OF inner_at_root Cons.prems(2)] by blast
    ultimately show ?thesis using False c0 a(1) by (simp add: Let_def)
  qed
qed

subsection \<open>Four bits at a time\<close>

lemma inner_at_child:
  assumes "inner_at n" and "huff.inner (hpaths ! n @ [b])"
  shows "child (huffmanTree ! n) b \<noteq> 0" and "inner_at (child (huffmanTree ! n) b)"
    and "hpaths ! child (huffmanTree ! n) b = hpaths ! n @ [b]"
proof -
  have "hpaths ! n @ [b] \<in> set hpaths"
    using assms(2) unfolding hpaths_set huff.inner_def using prefix_order.less_imp_le by blast
  then show c: "child (huffmanTree ! n) b \<noteq> 0"
    using hpaths_no_child [of n b] assms(1) by blast
  then show "hpaths ! child (huffmanTree ! n) b = hpaths ! n @ [b]"
    using hpaths_child [of n b] assms(1) by blast
  with c show "inner_at (child (huffmanTree ! n) b)"
    using hpaths_child [of n b] inner_at_iff assms by auto
qed

text \<open>Fewer than five bits from the root finish no symbol and cannot fail.\<close>

lemma nibbleWalk_quiet:
  assumes "inner_at n" and "length (hpaths ! n) + k < 5"
  shows "\<exists>m. nibbleWalk huffmanTree nib n st k = (m, st) \<and> inner_at m \<and>
    bitWalk n (msb_bits nib k) = Some (m, [])"
  using assms
proof (induction k arbitrary: n)
  case 0
  then show ?case by simp
next
  case (Suc k)
  let ?c = "child (huffmanTree ! n) (bit nib k)"
  have "huff.inner (hpaths ! n @ [bit nib k])"
    using Suc.prems by (intro huff.short_inner) simp
  note c = inner_at_child [OF Suc.prems(1) this]
  obtain m where "nibbleWalk huffmanTree nib ?c st k = (m, st)" "inner_at m"
      "bitWalk ?c (msb_bits nib k) = Some (m, [])"
    using Suc.IH [OF c(2)] Suc.prems(2) c(3) by auto
  with c show ?case by (auto simp: Let_def innerNode_def)
qed

lemma nibbleWalk_bits:
  assumes "inner_at n" and "k \<le> 4" and "\<not> step_fail st"
  shows "(bitWalk n (msb_bits nib k) = None \<and> step_fail (snd (nibbleWalk huffmanTree nib n st k))) \<or>
    (\<exists>m. inner_at m \<and> bitWalk n (msb_bits nib k) = Some (m, []) \<and>
      nibbleWalk huffmanTree nib n st k = (m, st)) \<or>
    (\<exists>m c. inner_at m \<and> bitWalk n (msb_bits nib k) = Some (m, [c]) \<and>
      nibbleWalk huffmanTree nib n st k = (m, st\<lparr>step_sym := c, step_emit := True\<rparr>))"
  using assms
proof (induction k arbitrary: n)
  case 0
  then show ?case by simp
next
  case (Suc k)
  let ?c = "child (huffmanTree ! n) (bit nib k)"
  show ?case
  proof (cases "?c = 0")
    case True
    then show ?thesis by (simp add: Let_def)
  next
    case c0: False
    then have c: "?c < length huffmanTree" using hpaths_child Suc.prems(1) by blast
    show ?thesis
    proof (cases "innerNode huffmanTree ?c")
      case True
      then show ?thesis
        using Suc.IH [of ?c] c c0 Suc.prems by (simp add: Let_def innerNode_def)
    next
      case False
      obtain m where "nibbleWalk huffmanTree nib 0 (st\<lparr>step_sym := sym (huffmanTree ! ?c), step_emit := True\<rparr>) k =
          (m, st\<lparr>step_sym := sym (huffmanTree ! ?c), step_emit := True\<rparr>)"
          "inner_at m" "bitWalk 0 (msb_bits nib k) = Some (m, [])"
        using nibbleWalk_quiet [OF inner_at_root, of k nib] Suc.prems(2) hpaths_root by fastforce
      then show ?thesis using c0 False by (simp add: Let_def innerNode_def)
    qed
  qed
qed

subsection \<open>States\<close>

lemma length_huffmanNodes: "length (huffmanNodes huffmanTree) \<le> 256"
proof -
  have "length (huffmanNodes huffmanTree) = card {n. inner_at n}"
    unfolding huffmanNodes_def by (rule length_filter_upt)
  also have "\<dots> = card ((!) hpaths ` {n. inner_at n})"
    using hpaths_inj by (intro card_image [symmetric] inj_onI) auto
  also have "\<dots> \<le> card {p. huff.inner p}"
    using inner_at_iff by (intro card_mono huff.finite_inner) auto
  finally show ?thesis using huff.card_inner by simp
qed

text \<open>No state number wraps: a node's state is its place among the inner nodes.\<close>

lemma stateOf_nth:
  assumes "inner_at n"
  shows "stateOf huffmanTree n < length (huffmanNodes huffmanTree)"
    and "huffmanNodes huffmanTree ! stateOf huffmanTree n = n"
proof -
  have lt: "length (filter (innerNode huffmanTree) [0..<n]) < length (huffmanNodes huffmanTree)"
    and nth: "huffmanNodes huffmanTree ! length (filter (innerNode huffmanTree) [0..<n]) = n"
    unfolding huffmanNodes_def using assms filter_upt_nth by blast+
  moreover have "stateOf huffmanTree n = length (filter (innerNode huffmanTree) [0..<n])"
    using lt length_huffmanNodes assms unfolding stateOf_def by simp
  ultimately show "stateOf huffmanTree n < length (huffmanNodes huffmanTree)"
    and "huffmanNodes huffmanTree ! stateOf huffmanTree n = n" by simp_all
qed

lemma stateOf_inj: "inner_at n \<Longrightarrow> inner_at m \<Longrightarrow> stateOf huffmanTree n = stateOf huffmanTree m \<longleftrightarrow> n = m"
  by (metis stateOf_nth(2))

lemma stateOf_root: "stateOf huffmanTree 0 = 0"
  by (simp add: stateOf_def)

lemma huffmanSteps_nth:
  "inner_at n \<Longrightarrow> nib < 16 \<Longrightarrow> huffmanSteps ! stateOf huffmanTree n ! nib = nibbleStep huffmanTree n nib"
  using stateOf_nth [of n]
  by (simp add: huffmanSteps_def buildHuffmanSteps_def Let_def nth_append)

subsection \<open>Accepting states\<close>

lemma acceptLoop_nth:
  assumes "inner_at n" and "hpaths ! n = replicate depth True" and "depth + k \<le> 8"
    and "length acc = 256" and "inner_at m"
  shows "acceptLoop huffmanTree k depth n acc ! stateOf huffmanTree m \<longleftrightarrow>
    acc ! stateOf huffmanTree m \<or> (\<exists>d. depth \<le> d \<and> d < depth + k \<and> hpaths ! m = replicate d True)"
  using assms
proof (induction k arbitrary: depth n acc)
  case 0
  then show ?case by auto
next
  case (Suc k)
  let ?s = "stateOf huffmanTree"
  let ?c = "child (huffmanTree ! n) True"
  have "huff.inner (hpaths ! n @ [True])"
    using huff.ones_inner [of "Suc depth"] Suc.prems(2,3)
    by (simp add: replicate_append_same flip: replicate_Suc)
  note c = inner_at_child [OF Suc.prems(1) this]
  have "hpaths ! ?c = replicate (Suc depth) True"
    using c(3) Suc.prems(2) by (simp add: replicate_append_same)
  then have IH: "acceptLoop huffmanTree k (Suc depth) ?c (acc[?s n := True]) ! ?s m \<longleftrightarrow>
      acc[?s n := True] ! ?s m \<or> (\<exists>d. Suc depth \<le> d \<and> d < Suc depth + k \<and> hpaths ! m = replicate d True)"
    using Suc.IH [OF c(2)] Suc.prems by simp
  have "?s n < 256"
    using stateOf_nth(1) [OF Suc.prems(1)] length_huffmanNodes by simp
  then have upd: "acc[?s n := True] ! ?s m \<longleftrightarrow> acc ! ?s m \<or> hpaths ! m = replicate depth True"
    using Suc.prems stateOf_inj [OF Suc.prems(1,5)] hpaths_inj [of n m]
    by (auto simp: nth_list_update)
  have "acceptLoop huffmanTree (Suc k) depth n acc = acceptLoop huffmanTree k (Suc depth) ?c (acc[?s n := True])"
    using Suc.prems(1) by (simp add: innerNode_def child_def)
  then show ?case
    using IH upd by (metis Suc_leD Suc_le_eq add_Suc_right add_Suc le_eq_less_or_eq less_add_Suc1)
qed

lemma huffmanAccepts_nth:
  "inner_at m \<Longrightarrow> huffmanAccepts ! stateOf huffmanTree m \<longleftrightarrow> (\<exists>d<8. hpaths ! m = replicate d True)"
proof -
  assume m: "inner_at m"
  then have "stateOf huffmanTree m < 256"
    using stateOf_nth(1) length_huffmanNodes by (meson order_less_le_trans)
  then show ?thesis
    using acceptLoop_nth [OF inner_at_root _ _ _ m, of 0 8 "replicate 256 False"] hpaths_root
    by (auto simp: huffmanAccepts_def buildHuffmanSteps_def Let_def)
qed

subsection \<open>The decoder accepts exactly the encodings\<close>

definition bytes_bits :: "bytes \<Rightarrow> bool list" where
  "bytes_bits s = concat (map (\<lambda>b. msb_bits b 8) s)"

lemma bytes_bits_simps [simp]:
  "bytes_bits [] = []"
  "bytes_bits (b # s) = msb_bits b 8 @ bytes_bits s"
  "bytes_bits (s @ t) = bytes_bits s @ bytes_bits t"
  by (simp_all add: bytes_bits_def)

lemma length_bytes_bits [simp]: "length (bytes_bits s) = 8 * length s"
  by (induction s) auto

lemma bytes_bits_inj: "bytes_bits s = bytes_bits t \<Longrightarrow> s = t"
proof (induction s arbitrary: t)
  case Nil
  from arg_cong [OF this, of length] have "8 * length t = 0" by simp
  then show ?case by simp
next
  case (Cons b s)
  have "length t = Suc (length s)"
    using arg_cong [OF Cons.prems, of length] by (simp del: bytes_bits_simps)
  then obtain c t' where t: "t = c # t'" by (cases t) auto
  then have eq: "msb_bits b 8 = msb_bits c 8" "bytes_bits s = bytes_bits t'"
    using Cons.prems by auto
  have "b = c" using eq(1) by (intro bit_word_eqI) (auto simp: msb_bits_eq_iff)
  with eq(2) t show ?case using Cons.IH by simp
qed

lemma byte_nibbles:
  "msb_bits b 8 = msb_bits (unat (drop_bit 4 b)) 4 @ msb_bits (unat (b AND 0xf)) 4" for b :: byte
proof -
  have hi: "msb_bits (unat (drop_bit 4 b)) 4 = map (bit b) [7, 6, 5, 4]"
    by (simp add: msb_bits_numeral bit_unsigned_iff bit_drop_bit_eq)
  have "(0xf :: byte) = mask 4" by (simp add: mask_eq_exp_minus_1)
  then have "msb_bits (unat (b AND 0xf)) 4 = map (bit b) [3, 2, 1, 0]"
    by (simp add: msb_bits_numeral bit_unsigned_iff bit_and_iff bit_mask_iff)
  with hi show ?thesis by (simp add: msb_bits_numeral)
qed

lemma nibble_bound: "unat (drop_bit 4 b) < 16" "unat (b AND 0xf) < 16" for b :: byte
proof -
  show "unat (drop_bit 4 b) < 16"
    using unat_byte [of b] by (simp add: unat_drop_bit less_mult_imp_div_less)
  have "b AND 0xf \<le> 0xf" by (rule word_and_le1)
  then show "unat (b AND 0xf) < 16" by (simp add: word_le_nat_alt)
qed

text \<open>One step of the table is the walk of its nibble.\<close>

lemma nibbleStep_bits:
  assumes "inner_at n" and "nib < 16"
  shows "case bitWalk n (msb_bits nib 4) of
      None \<Rightarrow> step_fail (huffmanSteps ! stateOf huffmanTree n ! nib)
    | Some (m, out) \<Rightarrow> inner_at m \<and> \<not> step_fail (huffmanSteps ! stateOf huffmanTree n ! nib) \<and>
        step_next (huffmanSteps ! stateOf huffmanTree n ! nib) = stateOf huffmanTree m \<and>
        out = (if step_emit (huffmanSteps ! stateOf huffmanTree n ! nib)
               then [step_sym (huffmanSteps ! stateOf huffmanTree n ! nib)] else [])"
  using nibbleWalk_bits [OF assms(1), of 4 newStep nib]
  unfolding huffmanSteps_nth [OF assms] nibbleStep_def
  by (auto simp: newStep_def split: prod.splits)

lemma huffmanDecodeLoop_iff:
  assumes "inner_at n" and "maxLen > 0 \<Longrightarrow> int (length out) \<le> maxLen"
  shows "huffmanDecodeLoop (stateOf huffmanTree n) out s maxLen = Inr res \<longleftrightarrow>
    (\<exists>m out'. bitWalk n (bytes_bits s) = Some (m, out') \<and> (\<exists>d<8. hpaths ! m = replicate d True) \<and>
      res = out @ out' \<and> (maxLen > 0 \<longrightarrow> int (length res) \<le> maxLen))"
  using assms
proof (induction s arbitrary: n out)
  case Nil
  then show ?case using huffmanAccepts_nth [of n] by auto
next
  case (Cons b s)
  let ?hi = "unat (drop_bit 4 b)" and ?lo = "unat (b AND 0xf)"
  let ?st = "\<lambda>n nib. huffmanSteps ! stateOf huffmanTree n ! nib"
  have walk: "bitWalk n (bytes_bits (b # s)) = bitWalk n (msb_bits ?hi 4 @ msb_bits ?lo 4 @ bytes_bits s)"
    by (simp add: byte_nibbles)
  show ?case
  proof (cases "bitWalk n (msb_bits ?hi 4)")
    case None
    then have "step_fail (?st n ?hi)"
      using nibbleStep_bits [OF Cons.prems(1) nibble_bound(1), of b] by simp
    then show ?thesis unfolding walk bitWalk_append [of n] None by simp
  next
    case (Some p)
    then obtain m1 o1 where p1: "bitWalk n (msb_bits ?hi 4) = Some (m1, o1)" by (cases p) auto
    then have s1: "inner_at m1" "\<not> step_fail (?st n ?hi)" "step_next (?st n ?hi) = stateOf huffmanTree m1"
        "o1 = (if step_emit (?st n ?hi) then [step_sym (?st n ?hi)] else [])"
      using nibbleStep_bits [OF Cons.prems(1) nibble_bound(1), of b] by simp_all
    show ?thesis
    proof (cases "bitWalk m1 (msb_bits ?lo 4)")
      case None
      then have "step_fail (?st m1 ?lo)"
        using nibbleStep_bits [OF s1(1) nibble_bound(2), of b] by simp
      then show ?thesis
        unfolding walk bitWalk_append [of n] p1 using s1 None by (simp add: Let_def bitWalk_append [of m1])
    next
      case (Some q)
      then obtain m2 o2 where p2: "bitWalk m1 (msb_bits ?lo 4) = Some (m2, o2)" by (cases q) auto
      then have s2: "inner_at m2" "\<not> step_fail (?st m1 ?lo)" "step_next (?st m1 ?lo) = stateOf huffmanTree m2"
          "o2 = (if step_emit (?st m1 ?lo) then [step_sym (?st m1 ?lo)] else [])"
        using nibbleStep_bits [OF s1(1) nibble_bound(2), of b] by simp_all
      have loop: "huffmanDecodeLoop (stateOf huffmanTree n) out (b # s) maxLen =
          (if maxLen > 0 \<and> int (length (out @ o1 @ o2)) > maxLen then Inl ErrStringTooLong
           else huffmanDecodeLoop (stateOf huffmanTree m2) (out @ o1 @ o2) s maxLen)"
        using s1 s2 by (auto simp: Let_def)
      have full: "bitWalk n (bytes_bits (b # s)) =
          map_option (\<lambda>(k, o'). (k, o1 @ o2 @ o')) (bitWalk m2 (bytes_bits s))"
        unfolding walk bitWalk_append [of n] p1 using p2
        by (auto simp: bitWalk_append [of m1] option.map_comp comp_def case_prod_beta intro!: option.map_cong0)
      show ?thesis
        using Cons.IH [OF s2(1), of "out @ o1 @ o2"] unfolding loop full by auto
    qed
  qed
qed

lemma huffmanDecode_bits:
  "huffmanDecode s maxLen = Inr out \<longleftrightarrow>
     (\<exists>d<8. bytes_bits s = concat (map hcode out) @ replicate d True) \<and>
     (maxLen > 0 \<longrightarrow> int (length out) \<le> maxLen)"
proof -
  have "huffmanDecode s maxLen = Inr out \<longleftrightarrow>
    (\<exists>m. bitWalk 0 (bytes_bits s) = Some (m, out) \<and> (\<exists>d<8. hpaths ! m = replicate d True)) \<and>
    (maxLen > 0 \<longrightarrow> int (length out) \<le> maxLen)"
    using huffmanDecodeLoop_iff [OF inner_at_root, of maxLen "[]" s out]
    by (auto simp: huffmanDecode_def huffmanDecodeAppend_def stateOf_root)
  also have "(\<exists>m. bitWalk 0 (bytes_bits s) = Some (m, out) \<and> (\<exists>d<8. hpaths ! m = replicate d True)) \<longleftrightarrow>
    (\<exists>d<8. bytes_bits s = concat (map hcode out) @ replicate d True)" (is "?L \<longleftrightarrow> ?R")
  proof
    assume ?L
    then obtain m d where m: "bitWalk 0 (bytes_bits s) = Some (m, out)" "d < 8" "hpaths ! m = replicate d True"
      by blast
    from bitWalk_sound [OF inner_at_root m(1)]
    have "bytes_bits s = concat (map hcode out) @ replicate d True" by (simp add: hpaths_root m(3))
    with m(2) show ?R by blast
  next
    assume ?R
    then obtain d where d: "d < 8" "bytes_bits s = concat (map hcode out) @ replicate d True" by blast
    obtain m where "inner_at m" "hpaths ! m = replicate d True"
      using inner_node [OF huff.ones_inner [of d]] d(1) by auto
    with d(2) have "bitWalk 0 (bytes_bits s) = Some (m, out)"
      by (intro bitWalk_complete [OF inner_at_root]) (simp_all add: hpaths_root)
    with d(1) \<open>hpaths ! m = replicate d True\<close> show ?L by blast
  qed
  finally show ?thesis .
qed

subsection \<open>The encoder writes the codes\<close>

lemma msb_bits_shift_in:
  fixes acc :: uint64 and c :: uint32
  assumes "n + l \<le> 64" and "\<And>k. bit c k \<Longrightarrow> k < l"
  shows "msb_bits (push_bit l acc OR ucast c) (n + l) = msb_bits acc n @ msb_bits c l"
proof (rule nth_equalityI)
  fix i assume "i < length (msb_bits (push_bit l acc OR ucast c :: uint64) (n + l))"
  then have i: "i < n + l" by simp
  show "msb_bits (push_bit l acc OR ucast c :: uint64) (n + l) ! i = (msb_bits acc n @ msb_bits c l) ! i"
  proof (cases "i < n")
    case True
    then have "\<not> bit c (n + l - Suc i)" using assms(2) [of "n + l - Suc i"] by linarith
    with True show ?thesis using assms(1) by (auto simp: nth_msb_bits nth_append bit_simps)
  next
    case False
    then have "l - Suc (i - n) = n + l - Suc i" "n + l - Suc i < l" using i by linarith+
    with False show ?thesis using assms(1) i by (simp add: nth_msb_bits nth_append bit_simps)
  qed
qed simp

lemma flushBytes_bits:
  "flushBytes dst acc n = (dst', n') \<Longrightarrow> n \<le> 64 \<Longrightarrow>
    n' < 8 \<and> n' \<le> n \<and> bytes_bits dst' @ msb_bits acc n' = bytes_bits dst @ msb_bits acc n"
proof (induction dst acc n rule: flushBytes.induct)
  case (1 dst acc n)
  show ?case
  proof (cases "8 \<le> n")
    case True
    have "flushBytes (dst @ [ucast (drop_bit (n - 8) acc)]) acc (n - 8) = (dst', n')"
      using "1.prems"(1) True by (simp add: flushBytes.simps [of dst])
    then have IH: "n' < 8 \<and> n' \<le> n - 8 \<and> bytes_bits dst' @ msb_bits acc n' =
        bytes_bits (dst @ [ucast (drop_bit (n - 8) acc)]) @ msb_bits acc (n - 8)"
      using "1.IH" [OF True] "1.prems"(2) by simp
    have "msb_bits (ucast (drop_bit (n - 8) acc) :: byte) 8 @ msb_bits acc (n - 8) = msb_bits acc n"
      by (rule nth_equalityI) (use True in \<open>auto simp: nth_msb_bits nth_append bit_simps\<close>)
    then show ?thesis using IH by auto
  next
    case False
    then show ?thesis using "1.prems"(1) by (simp add: flushBytes.simps [of dst])
  qed
qed

lemma huffmanAppendLoop_bits:
  "huffmanAppendLoop dst acc n s = (dst', acc', n') \<Longrightarrow> n < 8 \<Longrightarrow>
    n' < 8 \<and> bytes_bits dst' @ msb_bits acc' n' = bytes_bits dst @ msb_bits acc n @ concat (map hcode s)"
proof (induction s arbitrary: dst acc n)
  case Nil
  then show ?case by simp
next
  case (Cons c s)
  let ?l = "huffmanCodeLen ! unat c"
  let ?acc = "push_bit ?l acc OR ucast (huffmanCodes ! unat c)"
  obtain d m where f: "flushBytes dst ?acc (n + ?l) = (d, m)" by fastforce
  have l: "?l \<le> 30" using huff.code_max [of c] by simp
  have shift: "msb_bits ?acc (n + ?l) = msb_bits acc n @ hcode c"
    unfolding hcode_def using l Cons.prems(2) code_bits_above by (intro msb_bits_shift_in) auto
  have m: "m < 8" "bytes_bits d @ msb_bits ?acc m = bytes_bits dst @ msb_bits ?acc (n + ?l)"
    using flushBytes_bits [OF f] l Cons.prems(2) by auto
  have "huffmanAppendLoop d ?acc m s = (dst', acc', n')"
    using Cons.prems(1) f by (simp add: Let_def)
  from Cons.IH [OF this m(1)] m(2) shift show ?case by simp
qed

lemma bit_padding: "bit (drop_bit n (mask 8 :: byte)) k \<longleftrightarrow> n + k < 8"
  by (simp only: bit_drop_bit_eq comp_def bit_mask_iff) auto

lemma padded_byte:
  fixes acc :: uint64
  assumes "n < 8"
  shows "msb_bits (ucast (push_bit (8 - n) acc) OR drop_bit n (mask 8) :: byte) 8 =
    msb_bits acc n @ replicate (8 - n) True"
proof (rule nth_equalityI)
  fix i assume "i < length (msb_bits (ucast (push_bit (8 - n) acc) OR drop_bit n (mask 8) :: byte) 8)"
  then have "i < 8" by simp
  then show "msb_bits (ucast (push_bit (8 - n) acc) OR drop_bit n (mask 8) :: byte) 8 ! i =
      (msb_bits acc n @ replicate (8 - n) True) ! i"
    using assms
    by (auto simp: nth_msb_bits nth_append bit_or_iff bit_padding bit_unsigned_iff bit_push_bit_iff)
qed (use assms in simp)

lemma huffmanAppend_bits:
  "\<exists>d<8. bytes_bits (huffmanAppend dst s) = bytes_bits dst @ concat (map hcode s) @ replicate d True"
proof -
  obtain d acc n where loop: "huffmanAppendLoop dst 0 0 s = (d, acc, n)" by (metis prod_cases3)
  have n: "n < 8" "bytes_bits d @ msb_bits acc n = bytes_bits dst @ concat (map hcode s)"
    using huffmanAppendLoop_bits [OF loop] by auto
  show ?thesis
  proof (cases "n = 0")
    case True
    then have "huffmanAppend dst s = d" using loop by (simp add: huffmanAppend_def)
    moreover have "bytes_bits d = bytes_bits dst @ concat (map hcode s)" using n(2) True by simp
    ultimately show ?thesis by (intro exI [of _ 0]) simp
  next
    case False
    have "(0xff :: byte) = mask 8" by (simp add: mask_eq_exp_minus_1)
    then have "huffmanAppend dst s = d @ [ucast (push_bit (8 - n) acc) OR drop_bit n (mask 8)]"
      using loop False by (simp add: huffmanAppend_def)
    then have "bytes_bits (huffmanAppend dst s) = (bytes_bits d @ msb_bits acc n) @ replicate (8 - n) True"
      using padded_byte [OF n(1), of acc] by simp
    then show ?thesis unfolding n(2) using False by (intro exI [of _ "8 - n"]) simp
  qed
qed

lemma length_codes: "length (concat (map hcode s)) = sum_list (map (\<lambda>c. huffmanCodeLen ! unat c) s)"
  by (induction s) (simp_all add: hcode_def)

lemma length_huffmanAppend: "length (huffmanAppend dst s) = length dst + huffmanLen s"
proof -
  obtain d where d: "d < 8" "bytes_bits (huffmanAppend dst s) = bytes_bits dst @ concat (map hcode s) @ replicate d True"
    using huffmanAppend_bits by blast
  from arg_cong [OF d(2), of length]
  have "8 * length (huffmanAppend dst s) = 8 * length dst + sum_list (map (\<lambda>c. huffmanCodeLen ! unat c) s) + d"
    by (simp add: length_codes)
  with d(1) show ?thesis unfolding huffmanLen_def by linarith
qed

lemma huffmanAppend_append: "huffmanAppend dst s = dst @ huffmanAppend [] s"
proof -
  obtain d where d: "d < 8" "bytes_bits (huffmanAppend dst s) = bytes_bits dst @ concat (map hcode s) @ replicate d True"
    using huffmanAppend_bits by blast
  obtain e where e: "e < 8" "bytes_bits (huffmanAppend [] s) = concat (map hcode s) @ replicate e True"
    using huffmanAppend_bits [of "[]" s] by auto
  have "length (concat (map hcode s)) + d = 8 * huffmanLen s"
    using arg_cong [OF d(2), of length] by (simp add: length_huffmanAppend)
  moreover have "length (concat (map hcode s)) + e = 8 * huffmanLen s"
    using arg_cong [OF e(2), of length] by (simp add: length_huffmanAppend)
  ultimately have "bytes_bits (huffmanAppend dst s) = bytes_bits (dst @ huffmanAppend [] s)"
    using d(2) e(2) by simp
  then show ?thesis by (rule bytes_bits_inj)
qed

lemma huffman_bits_unique:
  "(\<exists>d<8. bytes_bits s = concat (map hcode out) @ replicate d True) \<longleftrightarrow> s = huffmanAppend [] out"
proof
  assume "\<exists>d<8. bytes_bits s = concat (map hcode out) @ replicate d True"
  then obtain d where d: "d < 8" "bytes_bits s = concat (map hcode out) @ replicate d True" by blast
  obtain e where e: "e < 8" "bytes_bits (huffmanAppend [] out) = concat (map hcode out) @ replicate e True"
    using huffmanAppend_bits [of "[]" out] by auto
  have "8 * length s = length (concat (map hcode out)) + d" using arg_cong [OF d(2), of length] by simp
  moreover have "8 * length (huffmanAppend [] out) = length (concat (map hcode out)) + e"
    using arg_cong [OF e(2), of length] by simp
  ultimately have "d = e" using d(1) e(1) by presburger
  with d e show "s = huffmanAppend [] out" by (intro bytes_bits_inj) simp
next
  assume "s = huffmanAppend [] out"
  then show "\<exists>d<8. bytes_bits s = concat (map hcode out) @ replicate d True"
    using huffmanAppend_bits [of "[]" out] by auto
qed

lemma huffmanDecode_iff:
  "huffmanDecode s maxLen = Inr out \<longleftrightarrow>
     s = huffmanAppend [] out \<and> (maxLen > 0 \<longrightarrow> int (length out) \<le> maxLen)"
  unfolding huffmanDecode_bits huffman_bits_unique ..

text \<open>
  C2. Decoding a Huffman string (\<open>huffmanDecode\<close>, which walks the generated tables a nibble at a
  time) succeeds with exactly those octets whose encoding (\<open>huffmanAppend\<close>) the string is,
  padding included, as long as they do not exceed the limit. So the encoder's output always decodes
  back, and no other string, such as one with padding longer than seven bits, with zero padding or
  with the EOS code, is accepted.
\<close>

theorem huffman_decode_exact:
  "huffmanDecode s maxLen = Inr out \<longleftrightarrow>
     s = huffmanAppend [] out \<and> (0 < maxLen \<longrightarrow> int (length out) \<le> maxLen)"
  by (rule huffmanDecode_iff)

theorem huffman_decode_exact_witness:
  "huffmanDecode (huffmanAppend [] [0x77, 0x2e]) 2 = Inr [0x77, 0x2e]"
  using huffman_decode_exact [of "huffmanAppend [] [0x77, 0x2e]" 2 "[0x77, 0x2e]"] by simp

text \<open>
  C3. \<open>huffmanLen\<close>, which decides whether a string is worth Huffman coding and is written as
  its length before the string is coded, is how many bytes \<open>huffmanAppend\<close> adds, and those
  bytes do not depend on what they are appended to.
\<close>

theorem huffman_len_exact:
  "huffmanAppend dst s = dst @ huffmanAppend [] s \<and> length (huffmanAppend [] s) = huffmanLen s"
  using length_huffmanAppend [of "[]" s] by (intro conjI huffmanAppend_append) simp

end
