(* ===== verification/Probing.thy ===== *)
theory Probing
  imports Fib_Prelude
begin

text \<open>
  Linear probing with backward-shift deletion, the algorithm behind the two hash tables of
  \<^verbatim>\<open>hpack/index.go\<close>, on a table that is a list of optional elements. An element's home is the
  position its hash gives; it sits at the first free position from there, cyclically.
\<close>

locale probing =
  fixes N :: nat and home :: "'a \<Rightarrow> nat"
  assumes N_pos: "0 < N" and home_less: "home q < N"
begin

text \<open>How many steps ahead of \<open>i\<close> position \<open>j\<close> is, going round.\<close>

definition ahead :: "nat \<Rightarrow> nat \<Rightarrow> nat" where
  "ahead i j = (j + (N - i)) mod N"

definition chained :: "'a option list \<Rightarrow> bool" where
  "chained xs \<longleftrightarrow>
     (\<forall>j<N. \<forall>q. xs ! j = Some q \<longrightarrow> (\<forall>d<ahead (home q) j. xs ! ((home q + d) mod N) \<noteq> None))"

definition unique :: "'a option list \<Rightarrow> bool" where
  "unique xs \<longleftrightarrow> (\<forall>i<N. \<forall>j<N. \<forall>q. xs ! i = Some q \<longrightarrow> xs ! j = Some q \<longrightarrow> i = j)"

definition elems :: "'a option list \<Rightarrow> 'a set" where
  "elems xs = {q. \<exists>j<N. xs ! j = Some q}"

definition well_probed :: "'a option list \<Rightarrow> bool" where
  "well_probed xs \<longleftrightarrow> length xs = N \<and> chained xs \<and> unique xs \<and> (\<exists>j<N. xs ! j = None)"

lemma ahead_less: "ahead i j < N"
  using N_pos by (simp add: ahead_def)

lemma ahead_reaches: "i < N \<Longrightarrow> j < N \<Longrightarrow> (i + ahead i j) mod N = j"
  unfolding ahead_def by (simp add: mod_add_right_eq)

lemma ahead_unique:
  assumes "i < N" and "d < N"
  shows "ahead i ((i + d) mod N) = d"
proof -
  have "ahead i ((i + d) mod N) = (i + d + (N - i)) mod N"
    unfolding ahead_def by (simp add: mod_add_left_eq)
  also have "i + d + (N - i) = d + N" using assms(1) by simp
  finally show ?thesis using assms(2) by simp
qed

lemma well_probedD:
  assumes "well_probed xs"
  shows "length xs = N" and "unique xs" and "chained xs"
  using assms by (simp_all add: well_probed_def)

lemma well_probedI:
  "length xs = N \<Longrightarrow> chained xs \<Longrightarrow> unique xs \<Longrightarrow> e < N \<Longrightarrow> xs ! e = None \<Longrightarrow> well_probed xs"
  unfolding well_probed_def by blast

lemma uniqueD: "unique xs \<Longrightarrow> i < N \<Longrightarrow> j < N \<Longrightarrow> xs ! i = Some q \<Longrightarrow> xs ! j = Some q \<Longrightarrow> i = j"
  by (simp add: unique_def)

lemma chainedD:
  "chained xs \<Longrightarrow> j < N \<Longrightarrow> xs ! j = Some q \<Longrightarrow> d < ahead (home q) j \<Longrightarrow> xs ! ((home q + d) mod N) \<noteq> None"
  by (simp add: chained_def)

text \<open>A probe from the home of what it looks for ends at it, or at a free position if it is absent.\<close>

lemma probe_ends:
  assumes xs: "well_probed xs" and c: "c < N" and P: "\<And>q. q \<in> elems xs \<Longrightarrow> P q \<Longrightarrow> home q = c"
  obtains d where "d < N"
    and "\<And>i. i < d \<Longrightarrow> \<exists>q. xs ! ((c + i) mod N) = Some q \<and> \<not> P q"
    and "case xs ! ((c + d) mod N) of None \<Rightarrow> \<forall>q\<in>elems xs. \<not> P q | Some q \<Rightarrow> P q"
proof -
  let ?stop = "\<lambda>d. case xs ! ((c + d) mod N) of None \<Rightarrow> True | Some q \<Rightarrow> P q"
  obtain e where e: "e < N" "xs ! e = None" using xs by (auto simp: well_probed_def)
  have ex: "?stop (ahead c e)" using ahead_reaches [OF c e(1)] e(2) by simp
  define d where "d = (LEAST d. ?stop d)"
  have stop: "?stop d" unfolding d_def by (rule LeastI [of ?stop, OF ex])
  have dN: "d < N" using Least_le [of ?stop, OF ex] ahead_less [of c e] unfolding d_def by linarith
  have before: "\<exists>q. xs ! ((c + i) mod N) = Some q \<and> \<not> P q" if "i < d" for i
    using not_less_Least [of i ?stop] that unfolding d_def by (auto split: option.splits)
  have "\<not> P q" if none: "xs ! ((c + d) mod N) = None" and q: "q \<in> elems xs" for q
  proof
    assume Pq: "P q"
    obtain j where j: "j < N" "xs ! j = Some q" using q by (auto simp: elems_def)
    have "\<not> d < ahead c j" using chainedD [OF well_probedD(3) [OF xs] j, of d] none P [OF q Pq] by auto
    moreover have "ahead c j \<noteq> d" using ahead_reaches [OF c j(1)] j(2) none by auto
    ultimately have "ahead c j < d" by simp
    from before [OF this] show False using ahead_reaches [OF c j(1)] j(2) Pq by auto
  qed
  with stop have "case xs ! ((c + d) mod N) of None \<Rightarrow> \<forall>q\<in>elems xs. \<not> P q | Some q \<Rightarrow> P q"
    by (auto split: option.splits)
  with that dN before show thesis by blast
qed

lemma nth_update_Some: "xs ! k \<noteq> None \<Longrightarrow> xs[p := Some q] ! k \<noteq> None"
  by (cases "k = p"; cases "p < length xs") (auto simp: list_update_beyond not_less)

lemma nth_update_cases:
  assumes "xs[p := v] ! i = Some r"
  obtains "i = p" "v = Some r" | "xs ! i = Some r"
  using assms that by (cases "i = p"; cases "p < length xs") (auto simp: list_update_beyond not_less)

lemma elems_update:
  assumes u: "unique xs" and len: "length xs = N" and p: "p < N"
  shows "elems (xs[p := Some q]) = insert q (elems xs - set_option (xs ! p))"
proof (intro equalityI subsetI)
  fix r assume "r \<in> elems (xs[p := Some q])"
  then obtain j where j: "j < N" "xs[p := Some q] ! j = Some r" by (auto simp: elems_def)
  show "r \<in> insert q (elems xs - set_option (xs ! p))"
  proof (cases "j = p")
    case True
    then show ?thesis using j len by simp
  next
    case False
    then have r: "xs ! j = Some r" using j by simp
    then have "xs ! p \<noteq> Some r" using uniqueD [OF u j(1) p r] False by blast
    then show ?thesis using r j(1) by (auto simp: elems_def elem_set)
  qed
next
  fix r assume r: "r \<in> insert q (elems xs - set_option (xs ! p))"
  show "r \<in> elems (xs[p := Some q])"
  proof (cases "r = q")
    case True
    then show ?thesis using len p by (auto simp: elems_def intro!: exI [of _ p])
  next
    case False
    then obtain j where j: "j < N" "xs ! j = Some r" "xs ! p \<noteq> Some r" using r by (auto simp: elems_def elem_set)
    then have "xs[p := Some q] ! j = Some r" by (cases "j = p") auto
    then show ?thesis using j(1) by (auto simp: elems_def)
  qed
qed

lemma unique_update:
  assumes u: "unique xs" and len: "length xs = N" and new: "q \<notin> elems xs"
  shows "unique (xs[p := Some q])"
  unfolding unique_def
proof (intro allI impI)
  fix i j r assume ij: "i < N" "j < N" "xs[p := Some q] ! i = Some r" "xs[p := Some q] ! j = Some r"
  have "r = q \<Longrightarrow> xs ! i \<noteq> Some r \<and> xs ! j \<noteq> Some r" using new ij(1,2) by (auto simp: elems_def)
  moreover have "(i = p \<and> r = q) \<or> xs ! i = Some r" using nth_update_cases [OF ij(3)] by auto
  moreover have "(j = p \<and> r = q) \<or> xs ! j = Some r" using nth_update_cases [OF ij(4)] by auto
  ultimately show "i = j" using uniqueD [OF u ij(1,2), of r] by auto
qed

lemma well_probed_insert:
  assumes xs: "well_probed xs" and c: "home q = c" and d: "d < N" and new: "q \<notin> elems xs"
    and before: "\<And>i. i < d \<Longrightarrow> xs ! ((c + i) mod N) \<noteq> None"
    and room: "e < N" "xs ! e = None" "e \<noteq> (c + d) mod N"
  shows "well_probed (xs[(c + d) mod N := Some q])"
proof -
  let ?p = "(c + d) mod N" and ?ys = "xs[(c + d) mod N := Some q]"
  note len = well_probedD(1) [OF xs]
  have pN: "?p < N" using N_pos by simp
  have "chained ?ys"
    unfolding chained_def
  proof (intro allI impI)
    fix j r i assume j: "j < N" and r: "?ys ! j = Some r" and i: "i < ahead (home r) j"
    show "?ys ! ((home r + i) mod N) \<noteq> None"
    proof (cases "j = ?p")
      case True
      then have "r = q" using r len pN by simp
      then have "i < d" using i True ahead_unique [of c d] c d home_less [of q] by auto
      with before [OF this] show ?thesis using \<open>r = q\<close> c by (intro nth_update_Some) simp
    next
      case False
      then have "xs ! j = Some r" using r by simp
      from chainedD [OF well_probedD(3) [OF xs] j this i] show ?thesis by (rule nth_update_Some)
    qed
  qed
  moreover have "?ys ! e = None" using room by simp
  ultimately show ?thesis
    using room(1) unique_update [OF well_probedD(2) [OF xs] len new] len by (intro well_probedI) simp_all
qed

lemma well_probed_replace:
  assumes xs: "well_probed xs" and p: "p < N" "xs ! p = Some q" and h: "home r = home q" and new: "r \<notin> elems xs"
  shows "well_probed (xs[p := Some r])"
proof -
  note len = well_probedD(1) [OF xs]
  have chained: "chained (xs[p := Some r])"
    unfolding chained_def
  proof (intro allI impI)
    fix j s i assume j: "j < N" and s: "xs[p := Some r] ! j = Some s" and i: "i < ahead (home s) j"
    obtain s' where "xs ! j = Some s'" "home s' = home s"
      using s h p len j by (cases "j = p") auto
    then have "xs ! ((home s + i) mod N) \<noteq> None"
      using chainedD [OF well_probedD(3) [OF xs] j, of s' i] i by simp
    then show "xs[p := Some r] ! ((home s + i) mod N) \<noteq> None" by (rule nth_update_Some)
  qed
  obtain e where e: "e < N" "xs ! e = None" using xs unfolding well_probed_def by blast
  then have "e \<noteq> p" using p(2) by force
  then have "xs[p := Some r] ! e = None" using e(2) by simp
  with len chained unique_update [OF well_probedD(2) [OF xs] len new] e(1)
  show ?thesis by (intro well_probedI [of _ e]) simp_all
qed

text \<open>Fewer elements than positions leave a free position besides any given one.\<close>

lemma room_left:
  assumes u: "unique xs" and fin: "finite (elems xs)" and card: "card (elems xs) + 1 < N"
  obtains e where "e < N" "e \<noteq> p" "xs ! e = None"
proof -
  have "\<exists>e<N. e \<noteq> p \<and> xs ! e = None"
  proof (rule ccontr)
    assume none: "\<not> ?thesis"
    have "inj_on (\<lambda>i. the (xs ! i)) ({..<N} - {p})"
    proof (rule inj_onI)
      fix i j assume ij: "i \<in> {..<N} - {p}" "j \<in> {..<N} - {p}" "the (xs ! i) = the (xs ! j)"
      then obtain q where "xs ! i = Some q" "xs ! j = Some q" using none by fastforce
      then show "i = j" using uniqueD [OF u] ij by blast
    qed
    moreover have "(\<lambda>i. the (xs ! i)) ` ({..<N} - {p}) \<subseteq> elems xs"
      using none unfolding elems_def by fastforce
    ultimately have "card ({..<N} - {p}) \<le> card (elems xs)" using fin by (rule card_inj_on_le)
    then show False using card by (simp add: card_Diff_singleton_if split: if_splits)
  qed
  with that show thesis by blast
qed

text \<open>
  Deleting works from the emptied position to the next free one. Counted from just past a free
  position \<open>E\<close>, which no chain crosses, a chain is an interval.
\<close>

definition off :: "nat \<Rightarrow> nat \<Rightarrow> nat" where
  "off E i = ahead (Suc E mod N) i"

lemma off_less: "off E i < N"
  by (simp add: off_def ahead_less)

lemma off_inj: "i < N \<Longrightarrow> j < N \<Longrightarrow> off E i = off E j \<Longrightarrow> i = j"
  using ahead_reaches [of "Suc E mod N"] N_pos unfolding off_def by (metis mod_less_divisor)

lemma off_cong:
  assumes "i < N"
  shows "(Suc E + off E i) mod N = i"
  using ahead_reaches [of "Suc E mod N" i] N_pos assms unfolding off_def by (simp add: mod_add_left_eq)

lemma off_unique: "d < N \<Longrightarrow> off E ((Suc E + d) mod N) = d"
  using ahead_unique [of "Suc E mod N" d] N_pos unfolding off_def by (simp add: mod_add_left_eq)

lemma off_free: "E < N \<Longrightarrow> off E E = N - 1"
  using off_unique [of "N - 1" E] N_pos by (simp add: mod_add_right_eq)

lemma off_Suc:
  assumes "E < N" and "i < N" and "i \<noteq> E"
  shows "off E (Suc i mod N) = Suc (off E i)"
proof -
  have "off E i \<noteq> N - 1" using off_inj [OF assms(2,1), of E] off_free [OF assms(1)] assms(3) by auto
  then have "Suc (off E i) < N" using off_less [of E i] by simp
  moreover have "Suc i mod N = (Suc E + Suc (off E i)) mod N"
    using off_cong [OF assms(2), of E] by (metis add_Suc_right mod_Suc_eq)
  ultimately show ?thesis using off_unique [of "Suc (off E i)" E] by simp
qed

lemma ahead_off:
  assumes "c < N" and "j < N" and "off E c \<le> off E j"
  shows "ahead c j = off E j - off E c"
proof -
  have "(c + (off E j - off E c)) mod N = (Suc E + off E c + (off E j - off E c)) mod N"
    using off_cong [OF assms(1), of E] by (metis mod_add_left_eq)
  also have "\<dots> = j" using assms(3) off_cong [OF assms(2), of E] by (simp add: add.assoc)
  finally have "j = (c + (off E j - off E c)) mod N" ..
  then show ?thesis using ahead_unique [OF assms(1), of "off E j - off E c"] off_less [of E j] by simp
qed

lemma ahead_off_wrap:
  assumes "c < N" and "j < N" and "off E j < off E c"
  shows "ahead c j = N - off E c + off E j"
proof -
  let ?d = "N - off E c + off E j"
  have "(c + ?d) mod N = (Suc E + off E c + ?d) mod N"
    using off_cong [OF assms(1), of E] by (metis mod_add_left_eq)
  also have "Suc E + off E c + ?d = Suc E + off E j + N" using off_less [of E c] by simp
  also have "(Suc E + off E j + N) mod N = j" by (simp only: mod_add_self2 off_cong [OF assms(2)])
  finally have "j = (c + ?d) mod N" ..
  moreover have "?d < N" using assms(3) off_less [of E c] by linarith
  ultimately show ?thesis using ahead_unique [OF assms(1), of ?d] by simp
qed

definition chained_to :: "nat \<Rightarrow> 'a option list \<Rightarrow> nat \<Rightarrow> 'a \<Rightarrow> bool" where
  "chained_to E xs j q \<longleftrightarrow> off E (home q) \<le> off E j \<and>
     (\<forall>i<N. off E (home q) \<le> off E i \<longrightarrow> off E i < off E j \<longrightarrow> xs ! i \<noteq> None)"

lemma chained_toD:
  assumes "chained xs" and E: "E < N" "xs ! E = None" and j: "j < N" "xs ! j = Some q"
  shows "chained_to E xs j q"
proof -
  have chain: "xs ! i \<noteq> None" if "i < N" "ahead (home q) i < ahead (home q) j" for i
    using chainedD [OF assms(1) j that(2)] ahead_reaches [OF home_less that(1)] by simp
  have le: "off E (home q) \<le> off E j"
  proof (rule ccontr)
    assume "\<not> ?thesis"
    then have "ahead (home q) j = N - off E (home q) + off E j"
      using ahead_off_wrap [OF home_less j(1)] by simp
    moreover have "ahead (home q) E = N - 1 - off E (home q)"
      using ahead_off [OF home_less E(1), of E q] off_free [OF E(1)] off_less [of E "home q"] by simp
    ultimately have "ahead (home q) E < ahead (home q) j" using off_less [of E "home q"] by linarith
    from chain [OF E(1) this] E(2) show False by simp
  qed
  moreover have "xs ! i \<noteq> None" if i: "i < N" "off E (home q) \<le> off E i" "off E i < off E j" for i
    using chain [OF i(1)] ahead_off [OF home_less i(1,2)] ahead_off [OF home_less j(1) le] i(2,3) by simp
  ultimately show ?thesis by (simp add: chained_to_def)
qed

lemma chained_toI:
  assumes "\<And>j q. j < N \<Longrightarrow> xs ! j = Some q \<Longrightarrow> chained_to E xs j q"
  shows "chained xs"
  unfolding chained_def
proof (intro allI impI)
  fix j q d assume j: "j < N" "xs ! j = Some q" and d: "d < ahead (home q) j"
  let ?i = "(home q + d) mod N"
  note to = assms [OF j, unfolded chained_to_def]
  have i: "?i < N" using N_pos by simp
  have d': "d < off E j - off E (home q)" using d ahead_off [OF home_less j(1), of E q] to by simp
  have "off E (home q) \<le> off E ?i"
  proof (rule ccontr)
    assume "\<not> ?thesis"
    then have "ahead (home q) ?i = N - off E (home q) + off E ?i"
      using ahead_off_wrap [OF home_less i] by simp
    moreover have "ahead (home q) ?i = d" using ahead_unique [OF home_less] d' off_less [of E j] by simp
    ultimately show False using d' off_less [of E j] by linarith
  qed
  moreover from ahead_off [OF home_less i this] have "off E ?i - off E (home q) = d"
    using ahead_unique [OF home_less, of d q] d' off_less [of E j] by simp
  ultimately show "xs ! ?i \<noteq> None" using to i d' by auto
qed

definition shifting :: "nat \<Rightarrow> 'a option list \<Rightarrow> nat \<Rightarrow> nat \<Rightarrow> 'a set \<Rightarrow> bool" where
  "shifting E xs hole j R \<longleftrightarrow>
     length xs = N \<and> E < N \<and> xs ! E = None \<and> hole < N \<and> j < N \<and> xs ! hole \<noteq> None \<and> off E hole < off E j \<and>
     (\<forall>i<N. \<forall>q. i \<noteq> hole \<longrightarrow> xs ! i = Some q \<longrightarrow>
        chained_to E xs i q \<and> (off E hole < off E i \<longrightarrow> off E i < off E j \<longrightarrow> off E hole < off E (home q))) \<and>
     (\<forall>i<N. \<forall>k<N. \<forall>q. i \<noteq> hole \<longrightarrow> k \<noteq> hole \<longrightarrow> xs ! i = Some q \<longrightarrow> xs ! k = Some q \<longrightarrow> i = k) \<and>
     R = {q. \<exists>i<N. i \<noteq> hole \<and> xs ! i = Some q}"

lemma shiftingD:
  assumes "shifting E xs hole j R"
  shows "length xs = N" "E < N" "xs ! E = None" "hole < N" "j < N" "xs ! hole \<noteq> None" "off E hole < off E j"
    and "\<And>i q. i < N \<Longrightarrow> i \<noteq> hole \<Longrightarrow> xs ! i = Some q \<Longrightarrow> chained_to E xs i q"
    and "\<And>i q. i < N \<Longrightarrow> xs ! i = Some q \<Longrightarrow> off E hole < off E i \<Longrightarrow> off E i < off E j \<Longrightarrow> off E hole < off E (home q)"
    and "\<And>i k q. i < N \<Longrightarrow> k < N \<Longrightarrow> i \<noteq> hole \<Longrightarrow> k \<noteq> hole \<Longrightarrow> xs ! i = Some q \<Longrightarrow> xs ! k = Some q \<Longrightarrow> i = k"
    and "R = {q. \<exists>i<N. i \<noteq> hole \<and> xs ! i = Some q}"
  using assms unfolding shifting_def by blast+

lemma shiftingI:
  assumes "length xs = N" "E < N" "xs ! E = None" "hole < N" "j < N" "xs ! hole \<noteq> None" "off E hole < off E j"
    and "\<And>i q. i < N \<Longrightarrow> i \<noteq> hole \<Longrightarrow> xs ! i = Some q \<Longrightarrow> chained_to E xs i q"
    and "\<And>i q. i < N \<Longrightarrow> xs ! i = Some q \<Longrightarrow> off E hole < off E i \<Longrightarrow> off E i < off E j \<Longrightarrow> off E hole < off E (home q)"
    and "\<And>i k q. i < N \<Longrightarrow> k < N \<Longrightarrow> i \<noteq> hole \<Longrightarrow> k \<noteq> hole \<Longrightarrow> xs ! i = Some q \<Longrightarrow> xs ! k = Some q \<Longrightarrow> i = k"
    and "R = {q. \<exists>i<N. i \<noteq> hole \<and> xs ! i = Some q}"
  shows "shifting E xs hole j R"
  unfolding shifting_def using assms by blast

lemma shifting_start:
  assumes xs: "well_probed xs" and E: "E < N" "xs ! E = None" and hole: "hole < N" "xs ! hole = Some q"
  shows "shifting E xs hole (Suc hole mod N) (elems xs - {q})"
proof (rule shiftingI)
  have "hole \<noteq> E" using E hole by force
  then have suc: "off E (Suc hole mod N) = Suc (off E hole)" using off_Suc E(1) hole(1) by simp
  then show "off E hole < off E (Suc hole mod N)" by simp
  show "off E hole < off E (home r)"
    if "off E hole < off E i" "off E i < off E (Suc hole mod N)" for i r
    using that suc by simp
  show "elems xs - {q} = {q. \<exists>i<N. i \<noteq> hole \<and> xs ! i = Some q}"
    using hole uniqueD [OF well_probedD(2) [OF xs]] by (auto simp: elems_def)
  show "xs ! hole \<noteq> None" using hole(2) by simp
  show "Suc hole mod N < N" using N_pos by simp
  show "chained_to E xs i r" if "i < N" "xs ! i = Some r" for i r
    using chained_toD [OF well_probedD(3) [OF xs] E that] .
  show "i = k" if "i < N" "k < N" "xs ! i = Some r" "xs ! k = Some r" for i k r
    using uniqueD [OF well_probedD(2) [OF xs] that] .
qed (fact E hole well_probedD(1) [OF xs])+

lemma shifting_cond:
  assumes s: "shifting E xs hole j R" and j: "xs ! j = Some q"
  shows "j \<noteq> hole" and "ahead hole j \<le> ahead (home q) j \<longleftrightarrow> off E (home q) \<le> off E hole"
    and "off E (Suc j mod N) = Suc (off E j)" and "j \<noteq> E"
proof -
  note S = shiftingD [OF s]
  show jh: "j \<noteq> hole" using S(7) by auto
  have "off E (home q) \<le> off E j" using S(8) [OF S(5) jh j] by (simp add: chained_to_def)
  then show "ahead hole j \<le> ahead (home q) j \<longleftrightarrow> off E (home q) \<le> off E hole"
    using ahead_off [OF S(4,5), of E] ahead_off [OF home_less S(5), of E q] S(7) by auto
  show jE: "j \<noteq> E" using j S(3) by auto
  then show "off E (Suc j mod N) = Suc (off E j)" using off_Suc S(2,5) by simp
qed

lemma shifting_keep:
  assumes s: "shifting E xs hole j R" and j: "xs ! j = Some q" and c: "\<not> ahead hole j \<le> ahead (home q) j"
  shows "shifting E xs hole (Suc j mod N) R"
proof -
  note S = shiftingD [OF s] and C = shifting_cond [OF s j]
  show ?thesis
  proof (rule shiftingI)
    show "off E hole < off E (home r)"
      if i: "i < N" "xs ! i = Some r" "off E hole < off E i" "off E i < off E (Suc j mod N)" for i r
    proof (cases "i = j")
      case True
      then show ?thesis using C(2) c j i(2) by simp
    next
      case False
      then have "off E i \<noteq> off E j" using off_inj i(1) S(5) by blast
      then show ?thesis using S(9) i C(3) by simp
    qed
    show "Suc j mod N < N" using N_pos by simp
    show "off E hole < off E (Suc j mod N)" using C(3) S(7) by simp
  qed (fact S)+
qed

lemma shifting_move:
  assumes s: "shifting E xs hole j R" and j: "xs ! j = Some q" and c: "ahead hole j \<le> ahead (home q) j"
  shows "shifting E (xs[hole := Some q]) j (Suc j mod N) R"
proof -
  note S = shiftingD [OF s] and C = shifting_cond [OF s j]
  let ?ys = "xs[hole := Some q]"
  have at: "?ys ! i = (if i = hole then Some q else xs ! i)" for i using S(1,4) by simp
  have none: "?ys ! i = None \<longleftrightarrow> xs ! i = None" for i using at S(6) by simp
  have to: "chained_to E ?ys i r \<longleftrightarrow> chained_to E xs i r" for i r by (simp add: chained_to_def none)
  show ?thesis
  proof (rule shiftingI)
    show "chained_to E ?ys i r" if i: "i < N" "i \<noteq> j" "?ys ! i = Some r" for i r
    proof (cases "i = hole")
      case True
      then have "r = q" using i(3) at by simp
      moreover have "off E (home q) \<le> off E hole" using C(2) c by simp
      moreover have "chained_to E xs j q" using S(8) [OF S(5) C(1) j] .
      ultimately have "chained_to E xs i r" using True S(7) by (simp add: chained_to_def)
      then show ?thesis by (simp only: to)
    next
      case False
      then show ?thesis using S(8) i at to by simp
    qed
    show "i = k"
      if i: "i < N" "k < N" "i \<noteq> j" "k \<noteq> j" "?ys ! i = Some r" "?ys ! k = Some r" for i k r
    proof -
      have *: "xs ! l \<noteq> Some q" if "l < N" "l \<noteq> j" "l \<noteq> hole" for l
        using S(10) [of l j q] that S(5) C(1) j by blast
      show ?thesis
        using i S(10) [of i k r] * [of i] * [of k]
        by (cases "i = hole"; cases "k = hole") (simp_all add: at)
    qed
    show "R = {q. \<exists>i<N. i \<noteq> j \<and> ?ys ! i = Some q}"
    proof (intro equalityI subsetI)
      fix r assume "r \<in> R"
      then obtain i where i: "i < N" "i \<noteq> hole" "xs ! i = Some r" unfolding S(11) by blast
      show "r \<in> {q. \<exists>i<N. i \<noteq> j \<and> ?ys ! i = Some q}"
      proof (cases "i = j")
        case True
        then show ?thesis using i(3) j S(4) C(1) at by (intro CollectI exI [of _ hole]) auto
      next
        case False
        then show ?thesis using i at by (intro CollectI exI [of _ i]) simp
      qed
    next
      fix r assume "r \<in> {q. \<exists>i<N. i \<noteq> j \<and> ?ys ! i = Some q}"
      then obtain i where i: "i < N" "i \<noteq> j" "?ys ! i = Some r" by blast
      show "r \<in> R"
      proof (cases "i = hole")
        case True
        then have "xs ! j = Some r" using i(3) j at by simp
        then show ?thesis unfolding S(11) using S(5) C(1) by blast
      next
        case False
        then show ?thesis unfolding S(11) using i at by auto
      qed
    qed
    show "off E j < off E (Suc j mod N)" using C(3) by simp
    show "off E j < off E (home r)" if "off E j < off E i" "off E i < off E (Suc j mod N)" for i r
      using that C(3) by simp
    show "?ys ! E = None" using S(3) none by simp
    show "?ys ! j \<noteq> None" using j none by simp
    show "Suc j mod N < N" using N_pos by simp
    show "length ?ys = N" using S(1) by simp
  qed (fact S)+
qed

lemma shifting_done:
  assumes s: "shifting E xs hole j R" and j: "xs ! j = None"
  shows "well_probed (xs[hole := None])" and "elems (xs[hole := None]) = R"
proof -
  note S = shiftingD [OF s]
  let ?ys = "xs[hole := None]"
  have at: "?ys ! i = (if i = hole then None else xs ! i)" for i using S(1,4) by simp
  have "chained ?ys"
  proof (rule chained_toI [of _ E])
    fix i q assume i: "i < N" "?ys ! i = Some q"
    then have i': "i \<noteq> hole" "xs ! i = Some q" by (auto simp: at split: if_splits)
    note to = S(8) [OF i(1) i', unfolded chained_to_def]
    have "off E hole < off E (home q)" if "off E hole < off E i"
    proof (cases "off E i < off E j")
      case True
      then show ?thesis using S(9) i(1) i'(2) that by blast
    next
      case False
      have "i \<noteq> j" using i'(2) j by auto
      then have "off E j < off E i" using False off_inj [OF i(1) S(5), of E] by linarith
      then show ?thesis using to j S(5,7) by (meson leI le_trans less_imp_le)
    qed
    then have "xs ! k \<noteq> None \<and> k \<noteq> hole" if "k < N" "off E (home q) \<le> off E k" "off E k < off E i" for k
      using that to by auto
    then show "chained_to E ?ys i q" using to by (auto simp: chained_to_def at)
  qed
  moreover have "unique ?ys" unfolding unique_def at using S(10) by (auto split: if_splits)
  ultimately show "well_probed ?ys" using S(1,2,3) at by (intro well_probedI [of _ E]) simp_all
  show "elems ?ys = R" unfolding elems_def S(11) at by auto
qed

end

text \<open>Renaming the elements, with their homes, keeps a table well probed.\<close>

lemma well_probed_rename:
  assumes h: "probing N home" and h': "probing N home'"
    and xs: "probing.well_probed N home xs"
    and inj: "inj_on g (probing.elems N xs)" and home: "\<And>q. q \<in> probing.elems N xs \<Longrightarrow> home' (g q) = home q"
  shows "probing.well_probed N home' (map (map_option g) xs)"
    and "probing.elems N (map (map_option g) xs) = g ` probing.elems N xs"
proof -
  let ?ys = "map (map_option g) xs"
  note len = probing.well_probedD(1) [OF h xs]
  have el: "q \<in> probing.elems N xs" if "j < N" "xs ! j = Some q" for j q
    using that unfolding probing.elems_def [OF h] by blast
  have at: "?ys ! j = map_option g (xs ! j)" if "j < N" for j using that len by simp
  have mod: "i mod N < N" for i using probing.N_pos [OF h] by simp
  have "probing.chained N home' ?ys"
    unfolding probing.chained_def [OF h']
  proof (intro allI impI)
    fix j r d assume j: "j < N" "?ys ! j = Some r" and d: "d < probing.ahead N (home' r) j"
    obtain q where q: "xs ! j = Some q" "r = g q" using j at by auto
    have "home' r = home q" using home el j(1) q by simp
    then show "?ys ! ((home' r + d) mod N) \<noteq> None"
      using probing.chainedD [OF h probing.well_probedD(3) [OF h xs] j(1) q(1), of d] d at [OF mod] by simp
  qed
  moreover have "probing.unique N ?ys"
    unfolding probing.unique_def [OF h']
  proof (intro allI impI)
    fix i j r assume ij: "i < N" "j < N" "?ys ! i = Some r" "?ys ! j = Some r"
    obtain a b where ab: "xs ! i = Some a" "xs ! j = Some b" "g a = r" "g b = r" using ij at by auto
    then have "a = b" using inj el ij(1,2) by (auto dest: inj_onD)
    then show "i = j" using ab probing.uniqueD [OF h probing.well_probedD(2) [OF h xs] ij(1,2)] by simp
  qed
  moreover obtain e where "e < N" "xs ! e = None" using xs unfolding probing.well_probed_def [OF h] by blast
  ultimately show "probing.well_probed N home' ?ys"
    using len by (intro probing.well_probedI [OF h', of _ e]) simp_all
  show "probing.elems N ?ys = g ` probing.elems N xs"
    unfolding probing.elems_def [OF h] probing.elems_def [OF h'] using at by (force simp: image_iff)
qed

end
