(* ===== verification/Hpack_Table.thy ===== *)
theory Hpack_Table
  imports Hpack_Tables Probing "HOL-Library.Signed_Division" "HOL-Library.Monad_Syntax"
begin

text \<open>
  The dynamic table of \<^verbatim>\<open>hpack/hpack.go\<close> and the hash index an encoder keeps over it,
  \<^verbatim>\<open>hpack/index.go\<close>. \<open>hash\<close> stands for \<^verbatim>\<open>maphash.String\<close> under the process's seed, an arbitrary
  function. An operation that probes a hash table returns \<^const>\<open>None\<close> when the code would not
  return: it indexes a slice out of range or finds no free slot in a full round of the table.
\<close>

unbundle bit_operations_syntax

subsection \<open>Data\<close>

record fieldIndex =
  pairs :: "uint32 list"
  names :: "uint32 list"
  idx_mask :: uint64

record dynamicTable =
  entries :: "headerField list"
  tsize :: int
  maxSize :: int
  first :: uint16
  index :: "fieldIndex option"

definition fsize :: "headerField \<Rightarrow> int" where
  "fsize f = int (length (Name f)) + int (length (Value f)) + 32"

definition DefaultTableSize :: int where
  "DefaultTableSize = 4096"

definition MaxEncoderTableSize :: int where
  "MaxEncoderTableSize = 2 ^ 20"

subsection \<open>The hash index\<close>

definition slotUsed :: uint32 where
  "slotUsed = 0x80000000"

definition slotTag :: uint32 where
  "slotTag = 0xffff0000"

function slotCount :: "nat \<Rightarrow> int \<Rightarrow> nat" where
  "slotCount n need = (if 0 < n \<and> int n < need then slotCount (2 * n) need else n)"
  by pat_completeness auto
termination by (relation "measure (\<lambda>(n, need). nat (need - int n))") auto

declare slotCount.simps [simp del]

definition newFieldIndex :: "int \<Rightarrow> fieldIndex" where
  "newFieldIndex max_size =
     (let n = slotCount 32 (2 * (max_size sdiv 32))
      in \<lparr>pairs = replicate n 0, names = replicate n 0, idx_mask = of_nat (n - 1)\<rparr>)"

definition fits :: "fieldIndex \<Rightarrow> int \<Rightarrow> bool" where
  "fits x max_size \<longleftrightarrow> int (length (pairs x)) \<ge> 2 * (max_size sdiv 32)"

definition hashName :: "(bytes \<Rightarrow> uint64) \<Rightarrow> bytes \<Rightarrow> uint64" where
  "hashName hash name = hash name"

definition hashPair :: "(bytes \<Rightarrow> uint64) \<Rightarrow> uint64 \<Rightarrow> bytes \<Rightarrow> uint64" where
  "hashPair hash nameHash val = nameHash XOR (hash val * 0x9e3779b97f4a7c15)"

definition slotOf :: "uint64 \<Rightarrow> uint16 \<Rightarrow> uint32" where
  "slotOf h i = slotUsed OR push_bit 16 (ucast (drop_bit 49 h)) OR ucast i"

definition slotPos :: "dynamicTable \<Rightarrow> uint32 \<Rightarrow> nat" where
  "slotPos t s = unat (ucast s - first t :: uint16)"

text \<open>The loops over the slots take how many of them are left to visit in a full round.\<close>

primrec findLoop :: "nat \<Rightarrow> dynamicTable \<Rightarrow> uint32 list \<Rightarrow> uint32 \<Rightarrow> uint64 \<Rightarrow> bytes \<Rightarrow> bytes \<Rightarrow> bool \<Rightarrow>
    uint64 \<Rightarrow> int option" where
  "findLoop 0 t slots tag msk name val pair i = None"
| "findLoop (Suc k) t slots tag msk name val pair i = do {
     s \<leftarrow> slice_at slots (unat (i AND msk));
     if s = 0 then Some (- 1)
     else if s AND slotTag \<noteq> tag then findLoop k t slots tag msk name val pair (i + 1)
     else do {
       f \<leftarrow> slice_at (entries t) (slotPos t s);
       if Name f = name \<and> (\<not> pair \<or> Value f = val) then Some (int (slotPos t s))
       else findLoop k t slots tag msk name val pair (i + 1)
     }
   }"

definition findEntry :: "dynamicTable \<Rightarrow> uint32 list \<Rightarrow> uint64 \<Rightarrow> bytes \<Rightarrow> bytes \<Rightarrow> bool \<Rightarrow> int option" where
  "findEntry t slots h name val pair = do {
     x \<leftarrow> index t;
     findLoop (length slots) t slots (slotOf h 0) (idx_mask x) name val pair h
   }"

primrec linkLoop :: "nat \<Rightarrow> dynamicTable \<Rightarrow> uint32 list \<Rightarrow> uint32 \<Rightarrow> uint64 \<Rightarrow> uint64 \<Rightarrow> headerField \<Rightarrow> nat \<Rightarrow>
    bool \<Rightarrow> uint64 \<Rightarrow> uint32 list option" where
  "linkLoop 0 t slots tag msk h f p pair i = None"
| "linkLoop (Suc k) t slots tag msk h f p pair i = do {
     s \<leftarrow> slice_at slots (unat (i AND msk));
     if s = 0 then Some (slots[unat (i AND msk) := slotOf h (first t + of_nat p)])
     else if s AND slotTag \<noteq> tag then linkLoop k t slots tag msk h f p pair (i + 1)
     else do {
       g \<leftarrow> slice_at (entries t) (slotPos t s);
       if Name g \<noteq> Name f \<or> (pair \<and> Value g \<noteq> Value f) then linkLoop k t slots tag msk h f p pair (i + 1)
       else Some (slots[unat (i AND msk) := slotOf h (first t + of_nat p)])
     }
   }"

definition link :: "dynamicTable \<Rightarrow> uint32 list \<Rightarrow> uint64 \<Rightarrow> nat \<Rightarrow> bool \<Rightarrow> uint32 list option" where
  "link t slots h p pair = do {
     x \<leftarrow> index t;
     f \<leftarrow> slice_at (entries t) p;
     linkLoop (length slots) t slots (slotOf h 0) (idx_mask x) h f p pair h
   }"

text \<open>\<open>Some None\<close>: no slot refers to \<open>p\<close>, and \<^verbatim>\<open>unlink\<close> returns.\<close>

primrec holeLoop :: "nat \<Rightarrow> dynamicTable \<Rightarrow> uint32 list \<Rightarrow> uint64 \<Rightarrow> nat \<Rightarrow> uint64 \<Rightarrow> uint64 option option" where
  "holeLoop 0 t slots msk p hole = None"
| "holeLoop (Suc k) t slots msk p hole = do {
     s \<leftarrow> slice_at slots (unat hole);
     if s = 0 then Some None
     else if slotPos t s = p then Some (Some hole)
     else holeLoop k t slots msk p ((hole + 1) AND msk)
   }"

primrec shiftLoop :: "nat \<Rightarrow> (bytes \<Rightarrow> uint64) \<Rightarrow> dynamicTable \<Rightarrow> uint32 list \<Rightarrow> uint64 \<Rightarrow> bool \<Rightarrow> uint64 \<Rightarrow> uint64 \<Rightarrow>
    uint32 list option" where
  "shiftLoop 0 hash t slots msk pair hole j = None"
| "shiftLoop (Suc k) hash t slots msk pair hole j = do {
     s \<leftarrow> slice_at slots (unat j);
     if s = 0 then Some (slots[unat hole := 0])
     else do {
       f \<leftarrow> slice_at (entries t) (slotPos t s);
       let home = hashName hash (Name f);
       let home = (if pair then hashPair hash home (Value f) else home);
       if (j - home) AND msk \<ge> (j - hole) AND msk
       then shiftLoop k hash t (slots[unat hole := s]) msk pair j ((j + 1) AND msk)
       else shiftLoop k hash t slots msk pair hole ((j + 1) AND msk)
     }
   }"

definition unlink :: "(bytes \<Rightarrow> uint64) \<Rightarrow> dynamicTable \<Rightarrow> uint32 list \<Rightarrow> uint64 \<Rightarrow> nat \<Rightarrow> bool \<Rightarrow> uint32 list option" where
  "unlink hash t slots h p pair = do {
     x \<leftarrow> index t;
     found \<leftarrow> holeLoop (length slots) t slots (idx_mask x) p (h AND idx_mask x);
     case found of
       None \<Rightarrow> Some slots
     | Some hole \<Rightarrow> shiftLoop (length slots) hash t slots (idx_mask x) pair hole ((hole + 1) AND idx_mask x)
   }"

definition indexFrom :: nat where
  "indexFrom = 16"

subsection \<open>The dynamic table\<close>

text \<open>One entry's part of \<^verbatim>\<open>addIndexed\<close>, and of \<^verbatim>\<open>unindex\<close>: both hash tables are updated.\<close>

definition linkEntry :: "dynamicTable \<Rightarrow> uint64 \<Rightarrow> uint64 \<Rightarrow> nat \<Rightarrow> dynamicTable option" where
  "linkEntry t nameHash pairHash p = do {
     x \<leftarrow> index t;
     ns \<leftarrow> link t (names x) nameHash p False;
     ps \<leftarrow> link t (pairs x) pairHash p True;
     Some (t\<lparr>index := Some (x\<lparr>names := ns, pairs := ps\<rparr>)\<rparr>)
   }"

definition unlinkEntry :: "(bytes \<Rightarrow> uint64) \<Rightarrow> dynamicTable \<Rightarrow> nat \<Rightarrow> dynamicTable option" where
  "unlinkEntry hash t p = do {
     x \<leftarrow> index t;
     f \<leftarrow> slice_at (entries t) p;
     let h = hashName hash (Name f);
     ns \<leftarrow> unlink hash t (names x) h p False;
     ps \<leftarrow> unlink hash t (pairs x) (hashPair hash h (Value f)) p True;
     Some (t\<lparr>index := Some (x\<lparr>names := ns, pairs := ps\<rparr>)\<rparr>)
   }"

fun linkAll :: "(bytes \<Rightarrow> uint64) \<Rightarrow> dynamicTable \<Rightarrow> nat \<Rightarrow> headerField list \<Rightarrow> dynamicTable option" where
  "linkAll hash t p [] = Some t"
| "linkAll hash t p (g # gs) = do {
     let h = hashName hash (Name g);
     t \<leftarrow> linkEntry t h (hashPair hash h (Value g)) p;
     linkAll hash t (Suc p) gs
   }"

fun unindexFrom :: "(bytes \<Rightarrow> uint64) \<Rightarrow> dynamicTable \<Rightarrow> nat list \<Rightarrow> dynamicTable option" where
  "unindexFrom hash t [] = Some t"
| "unindexFrom hash t (p # ps) = do {
     t \<leftarrow> unlinkEntry hash t p;
     unindexFrom hash t ps
   }"

definition unindex :: "(bytes \<Rightarrow> uint64) \<Rightarrow> dynamicTable \<Rightarrow> nat \<Rightarrow> dynamicTable option" where
  "unindex hash t n = unindexFrom hash t [0..<n]"

fun evictLoop :: "int \<Rightarrow> int \<Rightarrow> headerField list \<Rightarrow> nat \<times> int" where
  "evictLoop sz max_size [] = (0, sz)"
| "evictLoop sz max_size (f # fs) =
     (if sz > max_size then (let (n, sz) = evictLoop (sz - fsize f) max_size fs in (Suc n, sz)) else (0, sz))"

definition evict :: "(bytes \<Rightarrow> uint64) \<Rightarrow> dynamicTable \<Rightarrow> dynamicTable option" where
  "evict hash t =
     (let (n, sz) = evictLoop (tsize t) (maxSize t) (entries t);
          t = t\<lparr>tsize := sz\<rparr>
      in if n = 0 then Some t
         else do {
           t \<leftarrow> (if index t \<noteq> None then unindex hash t n else Some t);
           Some (t\<lparr>first := first t + of_nat n, entries := drop n (entries t)\<rparr>)
         })"

definition add :: "(bytes \<Rightarrow> uint64) \<Rightarrow> dynamicTable \<Rightarrow> headerField \<Rightarrow> dynamicTable option" where
  "add hash t f = evict hash (t\<lparr>tsize := tsize t + fsize f, entries := entries t @ [f]\<rparr>)"

definition setMaxSize :: "(bytes \<Rightarrow> uint64) \<Rightarrow> dynamicTable \<Rightarrow> int \<Rightarrow> dynamicTable option" where
  "setMaxSize hash t n = do {
     t \<leftarrow> evict hash (t\<lparr>maxSize := n\<rparr>);
     Some (case index t of Some x \<Rightarrow> if fits x n then t else t\<lparr>index := None\<rparr> | None \<Rightarrow> t)
   }"

definition addIndexed :: "(bytes \<Rightarrow> uint64) \<Rightarrow> dynamicTable \<Rightarrow> headerField \<Rightarrow> uint64 \<Rightarrow> uint64 \<Rightarrow> bool \<Rightarrow> dynamicTable option" where
  "addIndexed hash t f nameHash pairHash hashed = do {
     let t = t\<lparr>tsize := tsize t + fsize f, entries := entries t @ [f]\<rparr>;
     t \<leftarrow> (if index t \<noteq> None then
            (let nameHash = (if hashed then nameHash else hashName hash (Name f));
                 pairHash = (if hashed then pairHash else hashPair hash nameHash (Value f))
             in linkEntry t nameHash pairHash (length (entries t) - 1))
          else if length (entries t) > indexFrom then
            linkAll hash (t\<lparr>index := Some (newFieldIndex (maxSize t))\<rparr>) 0 (entries t)
          else Some t);
     evict hash t
   }"

definition get :: "dynamicTable \<Rightarrow> int \<Rightarrow> headerField option" where
  "get t i = (if i < 1 \<or> i > int (length (entries t)) then None else Some (entries t ! (length (entries t) - nat i)))"

definition field :: "dynamicTable \<Rightarrow> uint64 \<Rightarrow> headerField option" where
  "field t i =
     (if i = 0 then None
      else if i \<le> of_nat (length staticTable) then Some (staticTable ! (unat i - 1))
      else
        (let rest = i - of_nat (length staticTable) in
         if rest > of_nat (length (entries t)) then None else get t (sint rest)))"

end
