(* ===== verification/Hpack_Index.thy ===== *)
theory Hpack_Index
  imports Hpack_Table
begin

text \<open>
  Correctness of the encoder's hash index (\<^verbatim>\<open>hpack/index.go\<close>): a slot array indexes a table when it
  is well probed, its slots refer to the newest entry of each key, and each slot carries the tag of
  the key's hash and the entry's number. \<^verbatim>\<open>find\<close> then gives what a search from the newest entry
  gives, \<^verbatim>\<open>link\<close> and \<^verbatim>\<open>unlink\<close> keep the index, and no probe goes round for ever.
\<close>

subsection \<open>What an index holds\<close>

definition keyHash :: "(bytes \<Rightarrow> uint64) \<Rightarrow> bool \<Rightarrow> headerField \<Rightarrow> uint64" where
  "keyHash hash pair f =
     (if pair then hashPair hash (hashName hash (Name f)) (Value f) else hashName hash (Name f))"

definition sameKey :: "bool \<Rightarrow> headerField \<Rightarrow> headerField \<Rightarrow> bool" where
  "sameKey pair f g \<longleftrightarrow> Name f = Name g \<and> (\<not> pair \<or> Value f = Value g)"

definition newest :: "bool \<Rightarrow> headerField list \<Rightarrow> nat \<Rightarrow> bool" where
  "newest pair es q \<longleftrightarrow> q < length es \<and> (\<forall>k<length es. q < k \<longrightarrow> \<not> sameKey pair (es ! k) (es ! q))"

definition homeAt :: "(bytes \<Rightarrow> uint64) \<Rightarrow> bool \<Rightarrow> headerField list \<Rightarrow> nat \<Rightarrow> nat \<Rightarrow> nat" where
  "homeAt hash pair es e q = unat (keyHash hash pair (es ! q)) mod 2 ^ e"

definition slotRef :: "uint16 \<Rightarrow> uint32 \<Rightarrow> nat option" where
  "slotRef base s = (if s = 0 then None else Some (unat (ucast s - base :: uint16)))"

interpretation ix: probing "2 ^ e" "homeAt hash pair es e"
  by unfold_locales (simp_all add: homeAt_def)

definition slot_ok :: "(bytes \<Rightarrow> uint64) \<Rightarrow> bool \<Rightarrow> headerField list \<Rightarrow> uint16 \<Rightarrow> uint32 \<Rightarrow> bool" where
  "slot_ok hash pair es base s \<longleftrightarrow> s = 0 \<or>
     (\<exists>q. s = slotOf (keyHash hash pair (es ! q)) (base + of_nat q) \<and> q < length es)"

definition indexes :: "(bytes \<Rightarrow> uint64) \<Rightarrow> bool \<Rightarrow> headerField list \<Rightarrow> uint16 \<Rightarrow> nat \<Rightarrow> nat \<Rightarrow> uint32 list \<Rightarrow> bool" where
  "indexes hash pair es base e r slots \<longleftrightarrow>
     length slots = 2 ^ e \<and> length es < 2 ^ 16 \<and>
     probing.well_probed (2 ^ e) (homeAt hash pair es e) (map (slotRef base) slots) \<and>
     probing.elems (2 ^ e) (map (slotRef base) slots) = {q. r \<le> q \<and> newest pair es q} \<and>
     (\<forall>s\<in>set slots. slot_ok hash pair es base s)"

subsection \<open>Keys and slots\<close>

lemma sameKey_refl [simp]: "sameKey pair f f"
  by (simp add: sameKey_def)

lemma sameKey_sym: "sameKey pair f g \<Longrightarrow> sameKey pair g f"
  by (auto simp: sameKey_def)

lemma sameKey_trans: "sameKey pair f g \<Longrightarrow> sameKey pair g h \<Longrightarrow> sameKey pair f h"
  by (auto simp: sameKey_def)

lemma sameKey_hash: "sameKey pair f g \<Longrightarrow> keyHash hash pair f = keyHash hash pair g"
  by (auto simp: sameKey_def keyHash_def)

lemma newest_exists:
  assumes "k < length es" and "sameKey pair (es ! k) f"
  obtains q where "k \<le> q" "newest pair es q" "sameKey pair (es ! q) f"
proof -
  let ?P = "\<lambda>q. q < length es \<and> sameKey pair (es ! q) f"
  obtain q where q: "?P q" "\<And>i. ?P i \<Longrightarrow> i \<le> q"
    using ex_has_greatest_nat [of ?P k "\<lambda>i. i" "length es"] assms by auto
  have "newest pair es q"
    unfolding newest_def using q sameKey_trans by (metis leD)
  with that q assms show thesis by blast
qed

lemma newest_unique:
  "newest pair es q \<Longrightarrow> newest pair es k \<Longrightarrow> sameKey pair (es ! q) (es ! k) \<Longrightarrow> q = k"
  unfolding newest_def by (metis linorder_neqE_nat sameKey_sym)

lemma bit_slotOf:
  "bit (slotOf h i) k \<longleftrightarrow> k = 31 \<or> (16 \<le> k \<and> k < 31 \<and> bit h (k + 33)) \<or> (k < 16 \<and> bit i k)"
proof -
  have used: "bit slotUsed k \<longleftrightarrow> k = 31"
  proof -
    have eq: "slotUsed = push_bit 31 1" by (simp add: slotUsed_def push_bit_eq_mult)
    show ?thesis unfolding eq bit_push_bit_iff by (auto simp: bit_1_iff)
  qed
  have "bit h (49 + (k - 16)) \<Longrightarrow> k - 16 < 15" using bit_imp_le_length [of h] by fastforce
  moreover have "16 \<le> k \<Longrightarrow> 49 + (k - 16) = k + 33" "k + 33 = 33 + k" by simp_all
  moreover have "bit i k \<Longrightarrow> k < 16" using bit_imp_le_length [of i] by fastforce
  ultimately show ?thesis
    unfolding slotOf_def
    by (auto simp: bit_or_iff used bit_push_bit_iff bit_unsigned_iff bit_drop_bit_eq add.commute [of k])
qed

lemma slotOf_nonzero: "slotOf h i \<noteq> 0"
proof
  assume "slotOf h i = 0"
  then have "\<not> bit (slotOf h i) 31" by simp
  then show False by (simp add: bit_slotOf)
qed

lemma slotOf_id: "ucast (slotOf h i) = i"
  by (rule bit_word_eqI) (auto simp: bit_unsigned_iff bit_slotOf)

lemma bit_slotTag: "bit slotTag k \<longleftrightarrow> 16 \<le> k \<and> k < 32"
proof -
  have eq: "slotTag = push_bit 16 (mask 16)" by (simp add: slotTag_def mask_eq_exp_minus_1 push_bit_eq_mult)
  show ?thesis unfolding eq bit_push_bit_iff bit_mask_iff by auto
qed

lemma slotOf_tag: "slotOf h i AND slotTag = slotOf h 0"
  by (rule bit_word_eqI) (auto simp: bit_and_iff bit_slotOf bit_slotTag)

lemma slotRef_zero [simp]: "slotRef base 0 = None"
  by (simp add: slotRef_def)

lemma slotRef_None: "slotRef base s = None \<longleftrightarrow> s = 0"
  by (simp add: slotRef_def)

lemma slotRef_slotOf:
  assumes "q < 2 ^ 16"
  shows "slotRef base (slotOf h (base + of_nat q)) = Some q"
  using assms by (simp add: slotRef_def slotOf_nonzero slotOf_id unat_of_nat)

lemma slotRef_slotPos: "slotRef (first t) s = Some q \<longleftrightarrow> s \<noteq> 0 \<and> slotPos t s = q"
  by (simp add: slotRef_def slotPos_def)

subsection \<open>Probing\<close>

lemma indexesD:
  assumes "indexes hash pair es base e r slots"
  shows "length slots = 2 ^ e" "length es < 2 ^ 16"
    "probing.well_probed (2 ^ e) (homeAt hash pair es e) (map (slotRef base) slots)"
    "probing.elems (2 ^ e) (map (slotRef base) slots) = {q. r \<le> q \<and> newest pair es q}"
    "\<And>s. s \<in> set slots \<Longrightarrow> slot_ok hash pair es base s"
  using assms by (auto simp: indexes_def)

lemma indexed_slot:
  assumes ix: "indexes hash pair es base e r slots" and j: "j < 2 ^ e" "slots ! j \<noteq> 0"
  obtains q where "slotRef base (slots ! j) = Some q" "q < length es" "r \<le> q" "newest pair es q"
    "slots ! j = slotOf (keyHash hash pair (es ! q)) (base + of_nat q)"
proof -
  note D = indexesD [OF ix]
  from D(5) [of "slots ! j"] j D(1)
  obtain q where q: "q < length es" "slots ! j = slotOf (keyHash hash pair (es ! q)) (base + of_nat q)"
    by (auto simp: slot_ok_def)
  then have ref: "slotRef base (slots ! j) = Some q" using slotRef_slotOf D(2) by simp
  then have "q \<in> probing.elems (2 ^ e) (map (slotRef base) slots)"
    using j(1) D(1) by (auto simp: ix.elems_def)
  with that q ref show thesis unfolding D(4) by blast
qed

lemma ring_pos:
  fixes h :: uint64
  assumes "e \<le> 64"
  shows "unat ((h + of_nat d) AND of_nat (2 ^ e - 1)) = (unat h mod 2 ^ e + d) mod 2 ^ e"
  using unat_and_ring [of e "h + of_nat d"] unat_add_ring [of e h d] assms by (simp add: mod_add_left_eq)

lemma findLoop_step:
  assumes ix: "indexes hash pair (entries t) (first t) e r slots" and j: "j < 2 ^ e" "unat (i AND msk) = j"
  shows "findLoop (Suc k) t slots (slotOf (keyHash hash pair f) 0) msk (Name f) (Value f) pair i =
    (case slotRef (first t) (slots ! j) of
       None \<Rightarrow> Some (- 1)
     | Some q \<Rightarrow> if sameKey pair (entries t ! q) f then Some (int q)
               else findLoop k t slots (slotOf (keyHash hash pair f) 0) msk (Name f) (Value f) pair (i + 1))"
proof (cases "slots ! j = 0")
  case True
  then show ?thesis using j indexesD(1) [OF ix] by simp
next
  case False
  from indexed_slot [OF ix j(1) False] obtain q where
    q: "slotRef (first t) (slots ! j) = Some q" "q < length (entries t)"
       "slots ! j = slotOf (keyHash hash pair (entries t ! q)) (first t + of_nat q)" .
  have "slotPos t (slots ! j) = q" using q(1) slotRef_slotPos by blast
  moreover have "sameKey pair (entries t ! q) f \<Longrightarrow> slots ! j AND slotTag = slotOf (keyHash hash pair f) 0"
    using sameKey_hash q(3) slotOf_tag by metis
  ultimately show ?thesis
    using j indexesD(1) [OF ix] False q(1,2) by (auto simp: sameKey_def)
qed

declare findLoop.simps(2) [simp del]

lemma findLoop_skip:
  assumes ix: "indexes hash pair (entries t) (first t) e r slots" and e: "e \<le> 64"
    and msk: "msk = of_nat (2 ^ e - 1)"
    and skip: "\<And>i. i < d \<Longrightarrow> \<exists>q. slotRef (first t) (slots ! ((unat h mod 2 ^ e + i) mod 2 ^ e)) = Some q \<and>
      \<not> sameKey pair (entries t ! q) f"
  shows "findLoop (k + d) t slots (slotOf (keyHash hash pair f) 0) msk (Name f) (Value f) pair h =
    findLoop k t slots (slotOf (keyHash hash pair f) 0) msk (Name f) (Value f) pair (h + of_nat d)"
  using skip
proof (induction d arbitrary: k)
  case 0
  then show ?case by simp
next
  case (Suc d)
  obtain q where "slotRef (first t) (slots ! ((unat h mod 2 ^ e + d) mod 2 ^ e)) = Some q"
      "\<not> sameKey pair (entries t ! q) f"
    using Suc.prems [of d] by auto
  then have "findLoop (Suc k) t slots (slotOf (keyHash hash pair f) 0) msk (Name f) (Value f) pair (h + of_nat d) =
      findLoop k t slots (slotOf (keyHash hash pair f) 0) msk (Name f) (Value f) pair (h + of_nat d + 1)"
    using findLoop_step [OF ix _ ring_pos [OF e, of h d, folded msk]] by simp
  moreover have "k + Suc d = Suc k + d" "h + of_nat (Suc d) = h + of_nat d + 1" by simp_all
  ultimately show ?case using Suc.IH [of "Suc k"] Suc.prems by (simp only:)
qed

definition lookup :: "bool \<Rightarrow> headerField list \<Rightarrow> headerField \<Rightarrow> int \<Rightarrow> bool" where
  "lookup pair es f p \<longleftrightarrow>
     (\<exists>q. p = int q \<and> newest pair es q \<and> sameKey pair (es ! q) f) \<or>
     (p = - 1 \<and> (\<forall>g\<in>set es. \<not> sameKey pair g f))"

lemma findEntry_lookup:
  assumes x: "index t = Some x" "idx_mask x = of_nat (2 ^ e - 1)" and e: "e \<le> 64"
    and ix: "indexes hash pair (entries t) (first t) e 0 slots"
  shows "\<exists>p. findEntry t slots (keyHash hash pair f) (Name f) (Value f) pair = Some p \<and> lookup pair (entries t) f p"
proof -
  note D = indexesD [OF ix]
  let ?xs = "map (slotRef (first t)) slots" and ?c = "unat (keyHash hash pair f) mod 2 ^ e"
  have nth: "?xs ! ((?c + i) mod 2 ^ e) = slotRef (first t) (slots ! ((?c + i) mod 2 ^ e))" for i
    using D(1) by simp
  have home: "homeAt hash pair (entries t) e q = ?c" if "sameKey pair (entries t ! q) f" for q
    using sameKey_hash [OF that, of hash] by (simp add: homeAt_def)
  obtain d where d: "d < 2 ^ e"
    "\<And>i. i < d \<Longrightarrow> \<exists>q. ?xs ! ((?c + i) mod 2 ^ e) = Some q \<and> \<not> sameKey pair (entries t ! q) f"
    "case ?xs ! ((?c + d) mod 2 ^ e) of
       None \<Rightarrow> \<forall>q\<in>probing.elems (2 ^ e) ?xs. \<not> sameKey pair (entries t ! q) f
     | Some q \<Rightarrow> sameKey pair (entries t ! q) f"
    by (rule ix.probe_ends [OF D(3), of ?c "\<lambda>q. sameKey pair (entries t ! q) f"]) (simp_all add: home)
  have "findEntry t slots (keyHash hash pair f) (Name f) (Value f) pair =
      findLoop (Suc (2 ^ e - Suc d) + d) t slots (slotOf (keyHash hash pair f) 0) (idx_mask x) (Name f) (Value f) pair
        (keyHash hash pair f)"
    using d(1) D(1) x(1) by (simp add: findEntry_def)
  also have "\<dots> = findLoop (Suc (2 ^ e - Suc d)) t slots (slotOf (keyHash hash pair f) 0) (idx_mask x) (Name f) (Value f)
        pair (keyHash hash pair f + of_nat d)"
    using d(2) unfolding nth by (intro findLoop_skip [OF ix e x(2)]) simp
  also have "\<dots> = (case slotRef (first t) (slots ! ((?c + d) mod 2 ^ e)) of None \<Rightarrow> Some (- 1) | Some q \<Rightarrow> Some (int q))"
    using d(3) findLoop_step [OF ix _ ring_pos [OF e, of "keyHash hash pair f" d, folded x(2)], of "2 ^ e - Suc d" f]
    unfolding nth by (simp split: option.splits)
  finally have found: "findEntry t slots (keyHash hash pair f) (Name f) (Value f) pair = \<dots>" .
  show ?thesis
  proof (cases "slotRef (first t) (slots ! ((?c + d) mod 2 ^ e))")
    case None
    then have "\<not> sameKey pair (entries t ! q) f" if "newest pair (entries t) q" for q
      using d(3) that unfolding nth D(4) by simp
    then have "\<not> sameKey pair g f" if "g \<in> set (entries t)" for g
      using that newest_exists by (metis in_set_conv_nth)
    with None found show ?thesis by (auto simp: lookup_def)
  next
    case (Some q)
    then have "q \<in> probing.elems (2 ^ e) ?xs"
      using nth [of d] unfolding ix.elems_def by (intro CollectI exI [of _ "(?c + d) mod 2 ^ e"]) simp
    then have "newest pair (entries t) q" unfolding D(4) by simp
    with Some found d(3) show ?thesis unfolding nth by (simp add: lookup_def)
  qed
qed

subsection \<open>Linking\<close>

lemma linkLoop_step:
  assumes ix: "indexes hash pair (take p (entries t)) (first t) e r slots"
    and j: "j < 2 ^ e" "unat (i AND msk) = j" and h: "h = keyHash hash pair f"
  shows "linkLoop (Suc k) t slots (slotOf h 0) msk h f p pair i =
    (case slotRef (first t) (slots ! j) of
       None \<Rightarrow> Some (slots[j := slotOf h (first t + of_nat p)])
     | Some q \<Rightarrow> if sameKey pair (entries t ! q) f then Some (slots[j := slotOf h (first t + of_nat p)])
               else linkLoop k t slots (slotOf h 0) msk h f p pair (i + 1))"
proof (cases "slots ! j = 0")
  case True
  then show ?thesis using j indexesD(1) [OF ix] by simp
next
  case False
  from indexed_slot [OF ix j(1) False] obtain q where
    q: "slotRef (first t) (slots ! j) = Some q" "q < length (take p (entries t))"
       "slots ! j = slotOf (keyHash hash pair (take p (entries t) ! q)) (first t + of_nat q)" .
  have "slotPos t (slots ! j) = q" using q(1) slotRef_slotPos by blast
  moreover have "sameKey pair (entries t ! q) f \<Longrightarrow> slots ! j AND slotTag = slotOf h 0"
    using sameKey_hash [of pair "entries t ! q" f hash] q(2,3) slotOf_tag h by simp
  ultimately show ?thesis
    using j indexesD(1) [OF ix] False q(1,2) by (auto simp: sameKey_def)
qed

declare linkLoop.simps(2) [simp del]

lemma linkLoop_skip:
  assumes ix: "indexes hash pair (take p (entries t)) (first t) e r slots" and e: "e \<le> 64"
    and msk: "msk = of_nat (2 ^ e - 1)" and h: "h = keyHash hash pair f"
    and skip: "\<And>i. i < d \<Longrightarrow> \<exists>q. slotRef (first t) (slots ! ((unat h mod 2 ^ e + i) mod 2 ^ e)) = Some q \<and>
      \<not> sameKey pair (entries t ! q) f"
  shows "linkLoop (k + d) t slots (slotOf h 0) msk h f p pair h =
    linkLoop k t slots (slotOf h 0) msk h f p pair (h + of_nat d)"
  using skip
proof (induction d arbitrary: k)
  case 0
  then show ?case by simp
next
  case (Suc d)
  obtain q where "slotRef (first t) (slots ! ((unat h mod 2 ^ e + d) mod 2 ^ e)) = Some q"
      "\<not> sameKey pair (entries t ! q) f"
    using Suc.prems [of d] by auto
  then have "linkLoop (Suc k) t slots (slotOf h 0) msk h f p pair (h + of_nat d) =
      linkLoop k t slots (slotOf h 0) msk h f p pair (h + of_nat d + 1)"
    using linkLoop_step [OF ix _ ring_pos [OF e, of h d, folded msk] h] by simp
  moreover have "k + Suc d = Suc k + d" "h + of_nat (Suc d) = h + of_nat d + 1" by simp_all
  ultimately show ?case using Suc.IH [of "Suc k"] Suc.prems by (simp only:)
qed

text \<open>Where \<^verbatim>\<open>link\<close> stops: a free slot if no indexed entry has the key, its slot if one has.\<close>

lemma link_stops:
  assumes x: "index t = Some x" "idx_mask x = of_nat (2 ^ e - 1)" and e: "e \<le> 64" and p: "p < length (entries t)"
    and ix: "indexes hash pair (take p (entries t)) (first t) e 0 slots"
    and h: "h = keyHash hash pair (entries t ! p)"
  obtains d where "d < 2 ^ e"
    and "link t slots h p pair = Some (slots[(unat h mod 2 ^ e + d) mod 2 ^ e := slotOf h (first t + of_nat p)])"
    and "\<And>i. i < d \<Longrightarrow> slotRef (first t) (slots ! ((unat h mod 2 ^ e + i) mod 2 ^ e)) \<noteq> None"
    and "case slotRef (first t) (slots ! ((unat h mod 2 ^ e + d) mod 2 ^ e)) of
       None \<Rightarrow> \<forall>q. newest pair (take p (entries t)) q \<longrightarrow> \<not> sameKey pair (entries t ! q) (entries t ! p)
     | Some q \<Rightarrow> newest pair (take p (entries t)) q \<and> sameKey pair (entries t ! q) (entries t ! p)"
proof -
  note D = indexesD [OF ix]
  let ?es = "take p (entries t)" and ?f = "entries t ! p"
  let ?xs = "map (slotRef (first t)) slots" and ?c = "unat h mod 2 ^ e"
  have nth: "?xs ! ((?c + i) mod 2 ^ e) = slotRef (first t) (slots ! ((?c + i) mod 2 ^ e))" for i
    using D(1) by simp
  have es: "?es ! q = entries t ! q" "q < length (entries t)" if "q \<in> probing.elems (2 ^ e) ?xs" for q
    using that p unfolding D(4) by (auto simp: newest_def)
  obtain d where d: "d < 2 ^ e"
    "\<And>i. i < d \<Longrightarrow> \<exists>q. ?xs ! ((?c + i) mod 2 ^ e) = Some q \<and> \<not> sameKey pair (entries t ! q) ?f"
    "case ?xs ! ((?c + d) mod 2 ^ e) of
       None \<Rightarrow> \<forall>q\<in>probing.elems (2 ^ e) ?xs. \<not> sameKey pair (entries t ! q) ?f
     | Some q \<Rightarrow> sameKey pair (entries t ! q) ?f"
  proof (rule ix.probe_ends [OF D(3), of ?c "\<lambda>q. sameKey pair (entries t ! q) ?f"])
    show "homeAt hash pair ?es e q = ?c"
      if "q \<in> probing.elems (2 ^ e) ?xs" "sameKey pair (entries t ! q) ?f" for q
      using sameKey_hash [OF that(2), of hash] es(1) [OF that(1)] h by (simp add: homeAt_def)
  qed simp_all
  have "link t slots h p pair = linkLoop (Suc (2 ^ e - Suc d) + d) t slots (slotOf h 0) (idx_mask x) h ?f p pair h"
    using d(1) D(1) x(1) p by (simp add: link_def)
  also have "\<dots> = linkLoop (Suc (2 ^ e - Suc d)) t slots (slotOf h 0) (idx_mask x) h ?f p pair (h + of_nat d)"
    using d(2) unfolding nth by (intro linkLoop_skip [OF ix e x(2) h]) simp
  also have "\<dots> = Some (slots[(?c + d) mod 2 ^ e := slotOf h (first t + of_nat p)])"
    using d(3) linkLoop_step [OF ix _ ring_pos [OF e, of h d, folded x(2)] h, of "2 ^ e - Suc d"]
    unfolding nth by (simp split: option.splits)
  finally have link: "link t slots h p pair = \<dots>" .
  have "case slotRef (first t) (slots ! ((?c + d) mod 2 ^ e)) of
       None \<Rightarrow> \<forall>q. newest pair ?es q \<longrightarrow> \<not> sameKey pair (entries t ! q) ?f
     | Some q \<Rightarrow> newest pair ?es q \<and> sameKey pair (entries t ! q) ?f"
  proof (cases "slotRef (first t) (slots ! ((?c + d) mod 2 ^ e))")
    case None
    then show ?thesis using d(3) unfolding nth D(4) by simp
  next
    case (Some q)
    then have "q \<in> probing.elems (2 ^ e) ?xs"
      using nth [of d] unfolding ix.elems_def by (intro CollectI exI [of _ "(?c + d) mod 2 ^ e"]) simp
    then show ?thesis using Some d(3) unfolding nth D(4) by simp
  qed
  with that d(1,2) link show thesis unfolding nth by blast
qed

lemma newest_take_Suc:
  assumes "p < length es"
  shows "newest pair (take (Suc p) es) q \<longleftrightarrow>
    q = p \<or> (newest pair (take p es) q \<and> \<not> sameKey pair (es ! q) (es ! p))"
proof -
  have "length (take (Suc p) es) = Suc p" "length (take p es) = p" using assms by simp_all
  moreover have "q < Suc p \<Longrightarrow> take (Suc p) es ! q = es ! q" "q < p \<Longrightarrow> take p es ! q = es ! q" for q by simp_all
  ultimately show ?thesis unfolding newest_def by (auto simp: less_Suc_eq dest: sameKey_sym)
qed

lemma newest_less: "newest pair es q \<Longrightarrow> q < length es"
  by (simp add: newest_def)

lemma indexes_extend_home:
  assumes ix: "indexes hash pair (take p es) base e 0 slots"
  shows "probing.well_probed (2 ^ e) (homeAt hash pair (take (Suc p) es) e) (map (slotRef base) slots)"
proof -
  note D = indexesD [OF ix]
  have "homeAt hash pair (take (Suc p) es) e (id q) = homeAt hash pair (take p es) e q"
    if "q \<in> probing.elems (2 ^ e) (map (slotRef base) slots)" for q
    using that newest_less [of pair "take p es" q] unfolding D(4) by (simp add: homeAt_def)
  from well_probed_rename(1) [OF ix.probing_axioms ix.probing_axioms D(3) _ this]
  show ?thesis by (simp add: option.map_ident comp_def)
qed

lemma slot_ok_take:
  assumes "slot_ok hash pair (take p es) base s" and "p < length es"
  shows "slot_ok hash pair (take (Suc p) es) base s"
proof (cases "s = 0")
  case False
  then obtain q where "q < p" "s = slotOf (keyHash hash pair (es ! q)) (base + of_nat q)"
    using assms by (auto simp: slot_ok_def)
  then show ?thesis using assms(2) unfolding slot_ok_def by (intro disjI2 exI [of _ q]) simp
qed (simp add: slot_ok_def)

lemma link_indexes:
  assumes x: "index t = Some x" "idx_mask x = of_nat (2 ^ e - 1)" and e: "e \<le> 64"
    and p: "p < length (entries t)" and len: "length (entries t) < 2 ^ 16" and room: "Suc p < 2 ^ e"
    and ix: "indexes hash pair (take p (entries t)) (first t) e 0 slots"
  shows "\<exists>slots'. link t slots (keyHash hash pair (entries t ! p)) p pair = Some slots' \<and>
    indexes hash pair (take (Suc p) (entries t)) (first t) e 0 slots'"
proof -
  note D = indexesD [OF ix]
  let ?h = "keyHash hash pair (entries t ! p)" and ?xs = "map (slotRef (first t)) slots"
  let ?s = "slotOf ?h (first t + of_nat p)" and ?c = "unat ?h mod 2 ^ e"
  from link_stops [OF x e p ix refl] obtain d where d: "d < 2 ^ e"
    "link t slots ?h p pair = Some (slots[(?c + d) mod 2 ^ e := ?s])"
    "\<And>i. i < d \<Longrightarrow> slotRef (first t) (slots ! ((?c + i) mod 2 ^ e)) \<noteq> None"
    "case slotRef (first t) (slots ! ((?c + d) mod 2 ^ e)) of
       None \<Rightarrow> \<forall>q. newest pair (take p (entries t)) q \<longrightarrow> \<not> sameKey pair (entries t ! q) (entries t ! p)
     | Some q \<Rightarrow> newest pair (take p (entries t)) q \<and> sameKey pair (entries t ! q) (entries t ! p)" by blast
  let ?pos = "(?c + d) mod 2 ^ e"
  let ?new = "slots[?pos := ?s]"
  have nth: "?xs ! ((?c + i) mod 2 ^ e) = slotRef (first t) (slots ! ((?c + i) mod 2 ^ e))" for i
    using D(1) by simp
  have pos: "?pos < 2 ^ e" by simp
  have ys: "map (slotRef (first t)) ?new = ?xs[?pos := Some p]"
    using slotRef_slotOf [of p "first t" ?h] p len by (simp add: map_update)
  have wp: "probing.well_probed (2 ^ e) (homeAt hash pair (take (Suc p) (entries t)) e) ?xs"
    by (rule indexes_extend_home [OF ix])
  have home: "homeAt hash pair (take (Suc p) (entries t)) e p = ?c" using p by (simp add: homeAt_def)
  have el: "probing.elems (2 ^ e) ?xs = {q. newest pair (take p (entries t)) q}" using D(4) by simp
  have less: "q < p" if "newest pair (take p (entries t)) q" for q using newest_less [OF that] by simp
  have new: "p \<notin> probing.elems (2 ^ e) ?xs" unfolding el using less by auto
  have "probing.well_probed (2 ^ e) (homeAt hash pair (take (Suc p) (entries t)) e) (?xs[?pos := Some p])"
  proof (cases "?xs ! ?pos")
    case None
    have sub: "probing.elems (2 ^ e) ?xs \<subseteq> {..<p}" unfolding el using less by auto
    then have "card (probing.elems (2 ^ e) ?xs) \<le> p" using card_mono [OF _ sub] by simp
    then obtain e' where "e' < 2 ^ e" "e' \<noteq> ?pos" "?xs ! e' = None"
      using ix.room_left [OF ix.well_probedD(2) [OF wp], of ?pos] finite_subset [OF sub] room by auto
    then show ?thesis using ix.well_probed_insert [OF wp home d(1) new] d(3) unfolding nth by blast
  next
    case (Some q)
    then have q: "q \<in> probing.elems (2 ^ e) ?xs" using pos unfolding ix.elems_def by blast
    have "homeAt hash pair (take (Suc p) (entries t)) e p = homeAt hash pair (take (Suc p) (entries t)) e q"
      using d(4) Some nth less [of q] sameKey_hash [of pair "entries t ! q" "entries t ! p" hash] p
      by (simp add: homeAt_def)
    then show ?thesis using ix.well_probed_replace [OF wp pos Some] new by blast
  qed
  moreover have "probing.elems (2 ^ e) (?xs[?pos := Some p]) = {q. newest pair (take (Suc p) (entries t)) q}"
  proof -
    have "q \<in> set_option (?xs ! ?pos) \<longleftrightarrow> sameKey pair (entries t ! q) (entries t ! p)"
      if q: "newest pair (take p (entries t)) q" for q
    proof (cases "?xs ! ?pos")
      case None
      then show ?thesis using d(4) q unfolding nth by auto
    next
      case (Some k)
      then have k: "newest pair (take p (entries t)) k" "sameKey pair (entries t ! k) (entries t ! p)"
        using d(4) unfolding nth by auto
      have "q = k" if "sameKey pair (entries t ! q) (entries t ! p)"
        using newest_unique [OF q k(1)] less [OF q] less [OF k(1)] sameKey_trans [OF that sameKey_sym [OF k(2)]] by simp
      then show ?thesis using Some k(2) by auto
    qed
    then show ?thesis
      unfolding ix.elems_update [OF ix.well_probedD(2) [OF wp] ix.well_probedD(1) [OF wp] pos] el
      using newest_take_Suc [OF p, of pair] by auto
  qed
  moreover have "slot_ok hash pair (take (Suc p) (entries t)) (first t) s" if "s \<in> set ?new" for s
  proof -
    have "s = ?s \<or> s \<in> set slots" using that set_update_subset_insert by fastforce
    then show ?thesis
    proof
      assume "s = ?s"
      then show ?thesis using p unfolding slot_ok_def by (intro disjI2 exI [of _ p]) simp
    next
      assume "s \<in> set slots"
      from D(5) [OF this] show ?thesis using p by (rule slot_ok_take)
    qed
  qed
  ultimately have "indexes hash pair (take (Suc p) (entries t)) (first t) e 0 ?new"
    using D(1) len unfolding indexes_def ys by simp
  with d(2) show ?thesis by blast
qed

subsection \<open>Unlinking\<close>

lemma unat_ring: "e \<le> 64 \<Longrightarrow> a < 2 ^ e \<Longrightarrow> unat (of_nat a :: uint64) = a"
  using power_increasing [of e 64 "2 :: nat"] by (simp add: unat_of_nat)

lemma ring_next:
  assumes "e \<le> 64" and "a < 2 ^ e"
  shows "((of_nat a :: uint64) + 1) AND of_nat (2 ^ e - 1) = of_nat (Suc a mod 2 ^ e)"
proof (rule word_unat_eqI)
  show "unat (((of_nat a :: uint64) + 1) AND of_nat (2 ^ e - 1)) = unat (of_nat (Suc a mod 2 ^ e) :: uint64)"
    using ring_pos [OF assms(1), of "of_nat a" 1] unat_ring [OF assms] unat_ring [OF assms(1), of "Suc a mod 2 ^ e"]
      assms(2) by simp
qed

lemma ring_start:
  assumes "e \<le> 64"
  shows "(h :: uint64) AND of_nat (2 ^ e - 1) = of_nat (unat h mod 2 ^ e)"
  using unat_and_ring [of e h] unat_ring [OF assms, of "unat h mod 2 ^ e"] assms by (intro word_unat_eqI) simp

lemma holeLoop_skip:
  assumes slots: "length slots = 2 ^ e" and e: "e \<le> 64" and msk: "msk = of_nat (2 ^ e - 1)" and a: "a < 2 ^ e"
    and skip: "\<And>i. i < d \<Longrightarrow> \<exists>q. slotRef (first t) (slots ! ((a + i) mod 2 ^ e)) = Some q \<and> q \<noteq> p"
  shows "holeLoop (k + d) t slots msk p (of_nat a) = holeLoop k t slots msk p (of_nat ((a + d) mod 2 ^ e))"
  using skip
proof (induction d arbitrary: k)
  case 0
  then show ?case using a by simp
next
  case (Suc d)
  let ?b = "(a + d) mod 2 ^ e"
  obtain q where "slotRef (first t) (slots ! ?b) = Some q" "q \<noteq> p" using Suc.prems [of d] by auto
  then have "slots ! ?b \<noteq> 0" "slotPos t (slots ! ?b) \<noteq> p" using slotRef_slotPos by auto
  then have "holeLoop (Suc k) t slots msk p (of_nat ?b) = holeLoop k t slots msk p ((of_nat ?b + 1) AND msk)"
    using unat_ring [OF e, of ?b] slots by simp
  also have "(of_nat ?b + 1) AND msk = of_nat ((a + Suc d) mod 2 ^ e)"
    using ring_next [OF e, of ?b] msk by (simp add: mod_Suc_eq)
  finally show ?case using Suc.IH [of "Suc k"] Suc.prems by simp
qed

lemma slot_ok_ref:
  assumes "slot_ok hash pair es base s" "length es < 2 ^ 16" and "s \<noteq> 0"
  obtains q where "slotRef base s = Some q" "q < length es"
  using assms slotRef_slotOf unfolding slot_ok_def by fastforce

lemma shift_cond:
  assumes "e \<le> 64" and "j < 2 ^ e" and "a < 2 ^ e"
  shows "(of_nat j - (of_nat a :: uint64)) AND of_nat (2 ^ e - 1) \<le> (of_nat j - h) AND of_nat (2 ^ e - 1) \<longleftrightarrow>
    (j + (2 ^ e - a)) mod 2 ^ e \<le> (j + (2 ^ e - unat h mod 2 ^ e)) mod 2 ^ e"
proof -
  have "unat ((of_nat j - b :: uint64) AND of_nat (2 ^ e - 1)) = (j + (2 ^ e - unat b mod 2 ^ e)) mod 2 ^ e" for b
    using unat_diff_ring [of e "of_nat j" b] unat_and_ring [of e "of_nat j - b"] unat_ring [OF assms(1,2)] assms(1)
    by simp
  then show ?thesis using unat_ring [OF assms(1,3)] assms(3) by (simp only: word_le_nat_alt) simp
qed

lemma shiftLoop_indexes:
  assumes e: "e \<le> 64" and msk: "msk = of_nat (2 ^ e - 1)" and len: "length (entries t) < 2 ^ 16"
    and ok: "\<forall>s\<in>set slots. slot_ok hash pair (entries t) (first t) s"
    and sh: "probing.shifting (2 ^ e) (homeAt hash pair (entries t) e) E (map (slotRef (first t)) slots) hole j R"
    and fuel: "2 ^ e - 1 - probing.off (2 ^ e) E j < k"
  shows "\<exists>slots'. shiftLoop k hash t slots msk pair (of_nat hole) (of_nat j) = Some slots' \<and>
    probing.well_probed (2 ^ e) (homeAt hash pair (entries t) e) (map (slotRef (first t)) slots') \<and>
    probing.elems (2 ^ e) (map (slotRef (first t)) slots') = R \<and>
    (\<forall>s\<in>set slots'. slot_ok hash pair (entries t) (first t) s)"
  using ok sh fuel
proof (induction k arbitrary: slots hole j)
  case 0
  then show ?case by simp
next
  case (Suc k)
  let ?xs = "map (slotRef (first t)) slots"
  note S = ix.shiftingD [OF Suc.prems(2)]
  have l: "length slots = 2 ^ e" using S(1) by simp
  have nth: "?xs ! i = slotRef (first t) (slots ! i)" if "i < 2 ^ e" for i using l that by simp
  note u = unat_ring [OF e S(5)] unat_ring [OF e S(4)]
  show ?case
  proof (cases "slots ! j = 0")
    case True
    then have "?xs ! j = None" using S(5) nth by simp
    note ix.shifting_done [OF Suc.prems(2) this]
    moreover have "map (slotRef (first t)) (slots[hole := 0]) = ?xs[hole := None]" by (simp add: map_update)
    moreover have "\<forall>s\<in>set (slots[hole := 0]). slot_ok hash pair (entries t) (first t) s"
      using Suc.prems(1) set_update_subset_insert [of slots hole 0] by (auto simp: slot_ok_def)
    moreover have "shiftLoop (Suc k) hash t slots msk pair (of_nat hole) (of_nat j) = Some (slots[hole := 0])"
      using True u l S(5) by simp
    ultimately show ?thesis by auto
  next
    case False
    have okj: "slot_ok hash pair (entries t) (first t) (slots ! j)" using Suc.prems(1) l S(5) by simp
    then obtain q where q: "slotRef (first t) (slots ! j) = Some q" "q < length (entries t)"
      using slot_ok_ref len False by blast
    then have pos: "slotPos t (slots ! j) = q" using slotRef_slotPos by blast
    have xj: "?xs ! j = Some q" using nth S(5) q(1) by simp
    let ?home = "keyHash hash pair (entries t ! q)"
    have cond: "((of_nat j - of_nat hole) AND msk \<le> (of_nat j - ?home) AND msk) \<longleftrightarrow>
        probing.ahead (2 ^ e) hole j \<le> probing.ahead (2 ^ e) (homeAt hash pair (entries t) e q) j"
      unfolding msk using shift_cond [OF e S(5,4), of ?home] by (simp add: ix.ahead_def homeAt_def)
    have loop: "shiftLoop (Suc k) hash t slots msk pair (of_nat hole) (of_nat j) =
        (if probing.ahead (2 ^ e) hole j \<le> probing.ahead (2 ^ e) (homeAt hash pair (entries t) e q) j
         then shiftLoop k hash t (slots[hole := slots ! j]) msk pair (of_nat j) (of_nat (Suc j mod 2 ^ e))
         else shiftLoop k hash t slots msk pair (of_nat hole) (of_nat (Suc j mod 2 ^ e)))"
      unfolding cond [symmetric]
      using False u l S(4,5) pos q(2) ring_next [OF e S(5), folded msk] by (simp add: keyHash_def Let_def)
    have fuel: "2 ^ e - 1 - probing.off (2 ^ e) E (Suc j mod 2 ^ e) < k"
      using ix.shifting_cond(3) [OF Suc.prems(2) xj] ix.off_less [of e E "Suc j mod 2 ^ e"] Suc.prems(3) by simp
    show ?thesis
    proof (cases "probing.ahead (2 ^ e) hole j \<le> probing.ahead (2 ^ e) (homeAt hash pair (entries t) e q) j")
      case True
      have "\<forall>s\<in>set (slots[hole := slots ! j]). slot_ok hash pair (entries t) (first t) s"
        using Suc.prems(1) okj set_update_subset_insert [of slots hole "slots ! j"] by blast
      moreover have "map (slotRef (first t)) (slots[hole := slots ! j]) = ?xs[hole := Some q]"
        using q(1) by (simp add: map_update)
      ultimately show ?thesis
        using Suc.IH [of "slots[hole := slots ! j]" j "Suc j mod 2 ^ e"] ix.shifting_move [OF Suc.prems(2) xj True]
          fuel loop True by simp
    next
      case False
      then show ?thesis
        using Suc.IH [OF Suc.prems(1) ix.shifting_keep [OF Suc.prems(2) xj False] fuel] loop by simp
    qed
  qed
qed

lemma holeLoop_stops:
  assumes ix: "indexes hash pair (entries t) (first t) e r slots" and e: "e \<le> 64"
    and msk: "msk = of_nat (2 ^ e - 1)" and h: "h = keyHash hash pair (entries t ! p)"
  shows "(holeLoop (2 ^ e) t slots msk p (h AND msk) = Some None \<and>
      p \<notin> probing.elems (2 ^ e) (map (slotRef (first t)) slots)) \<or>
    (\<exists>hole<2 ^ e. holeLoop (2 ^ e) t slots msk p (h AND msk) = Some (Some (of_nat hole)) \<and>
      map (slotRef (first t)) slots ! hole = Some p)"
proof -
  note D = indexesD [OF ix]
  let ?xs = "map (slotRef (first t)) slots" and ?c = "unat h mod 2 ^ e"
  have nth: "?xs ! ((?c + i) mod 2 ^ e) = slotRef (first t) (slots ! ((?c + i) mod 2 ^ e))" for i
    using D(1) by simp
  obtain d where d: "d < 2 ^ e"
    "\<And>i. i < d \<Longrightarrow> \<exists>q. ?xs ! ((?c + i) mod 2 ^ e) = Some q \<and> q \<noteq> p"
    "case ?xs ! ((?c + d) mod 2 ^ e) of None \<Rightarrow> \<forall>q\<in>probing.elems (2 ^ e) ?xs. q \<noteq> p | Some q \<Rightarrow> q = p"
    by (rule ix.probe_ends [OF D(3), of ?c "\<lambda>q. q = p"]) (simp_all add: homeAt_def h)
  let ?a = "(?c + d) mod 2 ^ e"
  have "holeLoop (2 ^ e) t slots msk p (h AND msk) = holeLoop (Suc (2 ^ e - Suc d) + d) t slots msk p (of_nat ?c)"
    using d(1) ring_start [OF e, of h] msk by simp
  also have "\<dots> = holeLoop (Suc (2 ^ e - Suc d)) t slots msk p (of_nat ?a)"
    using d(2) unfolding nth by (intro holeLoop_skip [OF D(1) e msk]) simp_all
  also have "\<dots> = (case slotRef (first t) (slots ! ?a) of None \<Rightarrow> Some None | Some q \<Rightarrow> Some (Some (of_nat ?a)))"
    using d(3) D(1) unat_ring [OF e, of ?a] slotRef_slotPos [of t "slots ! ?a"] unfolding nth
    by (cases "slots ! ?a = 0") (simp_all split: option.splits add: slotRef_def slotPos_def)
  finally show ?thesis
    using d(3) unfolding nth [symmetric] by (cases "?xs ! ?a") (auto intro!: exI [of _ ?a])
qed

lemma unlink_indexes:
  assumes x: "index t = Some x" "idx_mask x = of_nat (2 ^ e - 1)" and e: "e \<le> 64" and p: "p < length (entries t)"
    and ix: "indexes hash pair (entries t) (first t) e p slots"
  shows "\<exists>slots'. unlink hash t slots (keyHash hash pair (entries t ! p)) p pair = Some slots' \<and>
    indexes hash pair (entries t) (first t) e (Suc p) slots'"
  using holeLoop_stops [OF ix e x(2) refl, of p]
proof (elim disjE exE conjE)
  note D = indexesD [OF ix]
  assume h: "holeLoop (2 ^ e) t slots (idx_mask x) p (keyHash hash pair (entries t ! p) AND idx_mask x) = Some None"
    and absent: "p \<notin> probing.elems (2 ^ e) (map (slotRef (first t)) slots)"
  have "{q. p \<le> q \<and> newest pair (entries t) q} = {q. Suc p \<le> q \<and> newest pair (entries t) q}"
    using absent unfolding D(4) by (auto simp: Suc_le_eq order_less_le)
  then have "indexes hash pair (entries t) (first t) e (Suc p) slots" using ix by (simp add: indexes_def)
  with h x(1) D(1) show ?thesis by (simp add: unlink_def)
next
  note D = indexesD [OF ix]
  fix hole assume hole: "hole < 2 ^ e" "map (slotRef (first t)) slots ! hole = Some p"
    and h: "holeLoop (2 ^ e) t slots (idx_mask x) p (keyHash hash pair (entries t ! p) AND idx_mask x) =
      Some (Some (of_nat hole))"
  obtain E where E: "E < 2 ^ e" "map (slotRef (first t)) slots ! E = None"
    using D(3) unfolding ix.well_probed_def by blast
  have ok: "\<forall>s\<in>set slots. slot_ok hash pair (entries t) (first t) s" using D(5) by blast
  have "2 ^ e - 1 - probing.off (2 ^ e) E (Suc hole mod 2 ^ e) < 2 ^ e" by (simp add: less_imp_diff_less)
  from shiftLoop_indexes [OF e x(2) D(2) ok ix.shifting_start [OF D(3) E hole] this]
  obtain slots' where s: "shiftLoop (2 ^ e) hash t slots (idx_mask x) pair (of_nat hole) (of_nat (Suc hole mod 2 ^ e)) =
        Some slots'"
      "probing.well_probed (2 ^ e) (homeAt hash pair (entries t) e) (map (slotRef (first t)) slots')"
      "probing.elems (2 ^ e) (map (slotRef (first t)) slots') = {q. p \<le> q \<and> newest pair (entries t) q} - {p}"
      "\<forall>s\<in>set slots'. slot_ok hash pair (entries t) (first t) s"
    unfolding D(4) by blast
  have "{q. p \<le> q \<and> newest pair (entries t) q} - {p} = {q. Suc p \<le> q \<and> newest pair (entries t) q}"
    by auto
  then have "indexes hash pair (entries t) (first t) e (Suc p) slots'"
    using s D(2) ix.well_probedD(1) [OF s(2)] by (simp add: indexes_def)
  moreover have "unlink hash t slots (keyHash hash pair (entries t ! p)) p pair = Some slots'"
    using h s(1) x D(1) ring_next [OF e hole(1)] by (simp add: unlink_def)
  ultimately show ?thesis by blast
qed

subsection \<open>Dropping the oldest entries\<close>

lemma newest_drop: "newest pair (drop n es) q \<longleftrightarrow> newest pair es (q + n)"
proof -
  have "(\<forall>k<length es - n. q < k \<longrightarrow> \<not> sameKey pair (es ! (n + k)) (es ! (n + q))) \<longleftrightarrow>
    (\<forall>k<length es. q + n < k \<longrightarrow> \<not> sameKey pair (es ! k) (es ! (q + n)))" (is "?L \<longleftrightarrow> ?R")
  proof
    assume ?L
    show ?R
    proof (intro allI impI)
      fix k assume "k < length es" "q + n < k"
      then show "\<not> sameKey pair (es ! k) (es ! (q + n))"
        using \<open>?L\<close> [rule_format, of "k - n"] by (simp add: add.commute)
    qed
  next
    assume ?R
    then show ?L by (simp add: add.commute)
  qed
  moreover have "q < length es - n \<longleftrightarrow> q + n < length es" by auto
  ultimately show ?thesis
    unfolding newest_def by (cases "n \<le> length es") (auto simp: add.commute)
qed

lemma slotRef_shift:
  assumes "slotRef base s = Some q" and "n \<le> q" and "q < 2 ^ 16"
  shows "slotRef (base + of_nat n) s = Some (q - n)"
proof -
  have s: "s \<noteq> 0" "unat (ucast s - base :: uint16) = q" using assms(1) by (auto simp: slotRef_def split: if_splits)
  have "ucast s - base = (of_nat q :: uint16)" using s(2) assms(3) by (intro word_unat_eqI) (simp add: unat_of_nat)
  then have "(ucast s - (base + of_nat n) :: uint16) = of_nat q - of_nat n" by (simp add: diff_diff_eq [symmetric])
  also have "\<dots> = of_nat (q - n)" using assms(2) by (simp add: of_nat_diff)
  finally show ?thesis using s(1) assms(3) by (simp add: slotRef_def unat_of_nat)
qed

lemma indexes_drop:
  assumes ix: "indexes hash pair es base e n slots"
  shows "indexes hash pair (drop n es) (base + of_nat n) e 0 slots"
proof -
  note D = indexesD [OF ix]
  let ?xs = "map (slotRef base) slots" and ?g = "\<lambda>q. q - n"
  have el: "n \<le> q" "q < length es" if "q \<in> probing.elems (2 ^ e) ?xs" for q
    using that newest_less unfolding D(4) by auto
  have slot: "s = 0 \<or> (\<exists>q. slotRef base s = Some q \<and> n \<le> q \<and> q < length es \<and>
      s = slotOf (keyHash hash pair (es ! q)) (base + of_nat q))" if s: "s \<in> set slots" for s
  proof -
    obtain j where j: "j < 2 ^ e" "slots ! j = s" using s D(1) by (metis in_set_conv_nth)
    with indexed_slot [OF ix j(1)] show ?thesis by metis
  qed
  have ref: "slotRef (base + of_nat n) s = map_option ?g (slotRef base s)" if "s \<in> set slots" for s
    using slot [OF that] slotRef_shift [of base s _ n] D(2) by fastforce
  have xs: "map (slotRef (base + of_nat n)) slots = map (map_option ?g) ?xs" using ref by simp
  have inj: "inj_on ?g (probing.elems (2 ^ e) ?xs)" using el(1) by (intro inj_onI) (metis le_add_diff_inverse2)
  have home: "homeAt hash pair (drop n es) e (?g q) = homeAt hash pair es e q"
    if "q \<in> probing.elems (2 ^ e) ?xs" for q
    using el [OF that] by (simp add: homeAt_def)
  note rename = well_probed_rename [OF ix.probing_axioms ix.probing_axioms D(3) inj home]
  have "?g ` {q. n \<le> q \<and> newest pair es q} = {q. newest pair (drop n es) q}"
    unfolding newest_drop by (auto simp: image_iff intro!: exI [of _ "_ + n"])
  moreover have "slot_ok hash pair (drop n es) (base + of_nat n) s" if "s \<in> set slots" for s
    using slot [OF that]
  proof (elim disjE exE conjE)
    fix q assume q: "n \<le> q" "q < length es" "s = slotOf (keyHash hash pair (es ! q)) (base + of_nat q)"
    then have "(of_nat q :: uint16) = of_nat n + of_nat (q - n)" by (simp flip: of_nat_add)
    then show ?thesis using q unfolding slot_ok_def by (intro disjI2 exI [of _ "q - n"]) (simp add: add.assoc)
  qed (simp add: slot_ok_def)
  ultimately show ?thesis
    unfolding indexes_def xs using rename D(1,2,4) by simp
qed

end
