(* ===== verification/Hpack_Dynamic.thy ===== *)
theory Hpack_Dynamic
  imports Hpack_Index
begin

text \<open>
  What the dynamic table promises: its entries are those RFC 7541 section 4 keeps, its size is
  theirs and within the limit, and the encoder's index, when there is one, indexes them. The
  contract \<open>header_table\<close> is what a decoder's and an encoder's table share; it is all the two need
  to stay in step.
\<close>

subsection \<open>The contract\<close>

definition table_size :: "headerField list \<Rightarrow> int" where
  "table_size es = sum_list (map fsize es)"

text \<open>The entries, oldest first, that are left when the oldest are dropped until \<open>m\<close> bytes hold them.\<close>

fun fit :: "int \<Rightarrow> headerField list \<Rightarrow> headerField list" where
  "fit m [] = []"
| "fit m (f # fs) = (if table_size (f # fs) \<le> m then f # fs else fit m fs)"

locale header_table =
  fixes valid :: "'t \<Rightarrow> bool" and contents :: "'t \<Rightarrow> headerField list" and limit :: "'t \<Rightarrow> int"
    and resizable :: "int \<Rightarrow> bool"
    and insert :: "'t \<Rightarrow> headerField \<Rightarrow> 't option" and resize :: "'t \<Rightarrow> int \<Rightarrow> 't option"
  assumes valid_fits: "valid t \<Longrightarrow> table_size (contents t) \<le> max 0 (limit t)"
    and insert_valid: "valid t \<Longrightarrow> \<exists>t'. insert t f = Some t' \<and> valid t'"
    and insert_contents: "valid t \<Longrightarrow> insert t f = Some t' \<Longrightarrow>
      contents t' = fit (limit t) (contents t @ [f]) \<and> limit t' = limit t"
    and resize_valid: "valid t \<Longrightarrow> resizable n \<Longrightarrow> \<exists>t'. resize t n = Some t' \<and> valid t'"
    and resize_contents: "valid t \<Longrightarrow> resizable n \<Longrightarrow> resize t n = Some t' \<Longrightarrow>
      contents t' = fit n (contents t) \<and> limit t' = n"

subsection \<open>Fitting\<close>

lemma table_size_Nil [simp]: "table_size [] = 0"
  by (simp add: table_size_def)

lemma table_size_Cons [simp]: "table_size (f # fs) = fsize f + table_size fs"
  by (simp add: table_size_def)

lemma table_size_append [simp]: "table_size (xs @ ys) = table_size xs + table_size ys"
  by (simp add: table_size_def)

lemma fsize_ge: "32 \<le> fsize f"
  by (simp add: fsize_def)

lemma table_size_length: "32 * int (length es) \<le> table_size es"
  by (induction es) (auto simp: fsize_def)

lemma table_size_nonneg: "0 \<le> table_size es"
  using table_size_length [of es] by linarith

lemma fit_size: "table_size (fit m es) \<le> max 0 m"
  by (induction es) auto

lemma fit_suffix: "\<exists>n\<le>length es. fit m es = drop n es"
proof (induction es)
  case (Cons f fs)
  then obtain n where "n \<le> length fs" "fit m fs = drop n fs" by blast
  then show ?case by (cases "table_size (f # fs) \<le> m") (auto intro: exI [of _ 0] exI [of _ "Suc n"])
qed simp

lemma fit_id: "table_size es \<le> m \<Longrightarrow> fit m es = es"
  by (cases es) auto

lemma fit_fit:
  assumes "m' \<le> m"
  shows "fit m' (fit m es) = fit m' es"
proof (induction es)
  case (Cons f fs)
  then show ?case using assms by auto
qed simp

lemma evictLoop_fit:
  "evictLoop (table_size es) m es = (n, sz) \<Longrightarrow>
    n \<le> length es \<and> drop n es = fit m es \<and> sz = table_size (fit m es)"
proof (induction es arbitrary: n sz)
  case (Cons f fs)
  show ?case
  proof (cases "table_size (f # fs) \<le> m")
    case False
    obtain n' sz' where "evictLoop (table_size fs) m fs = (n', sz')" by fastforce
    with Cons.IH [OF this] Cons.prems False show ?thesis by auto
  qed (use Cons.prems in auto)
qed simp

subsection \<open>The index through the table's operations\<close>

definition index_holds :: "(bytes \<Rightarrow> uint64) \<Rightarrow> headerField list \<Rightarrow> uint16 \<Rightarrow> nat \<Rightarrow> nat \<Rightarrow> fieldIndex \<Rightarrow> bool" where
  "index_holds hash es base e r x \<longleftrightarrow>
     idx_mask x = of_nat (2 ^ e - 1) \<and> e \<le> 64 \<and>
     indexes hash False es base e r (names x) \<and> indexes hash True es base e r (pairs x)"

lemma keyHash_simps:
  "keyHash hash False f = hashName hash (Name f)"
  "keyHash hash True f = hashPair hash (hashName hash (Name f)) (Value f)"
  by (simp_all add: keyHash_def)

lemma linkEntry_holds:
  assumes x: "index t = Some x" and h: "index_holds hash (take p (entries t)) (first t) e 0 x"
    and p: "p < length (entries t)" "length (entries t) < 2 ^ 16" "Suc p < 2 ^ e"
  shows "\<exists>x'. linkEntry t (hashName hash (Name (entries t ! p)))
      (hashPair hash (hashName hash (Name (entries t ! p))) (Value (entries t ! p))) p = Some (t\<lparr>index := Some x'\<rparr>) \<and>
    index_holds hash (take (Suc p) (entries t)) (first t) e 0 x'"
proof -
  have h': "idx_mask x = of_nat (2 ^ e - 1)" "e \<le> 64"
    "indexes hash False (take p (entries t)) (first t) e 0 (names x)"
    "indexes hash True (take p (entries t)) (first t) e 0 (pairs x)"
    using h by (auto simp: index_holds_def)
  obtain ns where ns: "link t (names x) (hashName hash (Name (entries t ! p))) p False = Some ns"
    "indexes hash False (take (Suc p) (entries t)) (first t) e 0 ns"
    using link_indexes [OF x h'(1,2) p h'(3)] unfolding keyHash_simps by blast
  obtain ps where ps: "link t (pairs x) (hashPair hash (hashName hash (Name (entries t ! p))) (Value (entries t ! p))) p True = Some ps"
    "indexes hash True (take (Suc p) (entries t)) (first t) e 0 ps"
    using link_indexes [OF x h'(1,2) p h'(4)] unfolding keyHash_simps by blast
  show ?thesis
    using x ns ps h'(1,2)
    by (intro exI [of _ "x\<lparr>names := ns, pairs := ps\<rparr>"]) (simp add: linkEntry_def index_holds_def)
qed

lemma linkAll_holds:
  assumes "index t = Some x" and "index_holds hash (take p (entries t)) (first t) e 0 x"
    and "length (entries t) < 2 ^ 16" "length (entries t) < 2 ^ e" and "gs = drop p (entries t)"
  shows "\<exists>x'. linkAll hash t p gs = Some (t\<lparr>index := Some x'\<rparr>) \<and> index_holds hash (entries t) (first t) e 0 x'"
  using assms
proof (induction gs arbitrary: t x p)
  case Nil
  then have "index_holds hash (entries t) (first t) e 0 x" by simp
  moreover have "t\<lparr>index := Some x\<rparr> = t" using Nil.prems(1) by simp
  ultimately show ?case by (intro exI [of _ x]) simp
next
  case (Cons g gs)
  have p: "p < length (entries t)" using Cons.prems(5) by (metis drop_all leI list.simps(3))
  then have g: "g = entries t ! p" "gs = drop (Suc p) (entries t)"
    using Cons.prems(5) by (simp_all add: Cons_nth_drop_Suc [symmetric])
  obtain x' where x': "linkEntry t (hashName hash (Name g)) (hashPair hash (hashName hash (Name g)) (Value g)) p =
      Some (t\<lparr>index := Some x'\<rparr>)" "index_holds hash (take (Suc p) (entries t)) (first t) e 0 x'"
    using linkEntry_holds [OF Cons.prems(1,2) p Cons.prems(3)] Cons.prems(4) p g(1) by auto
  have "\<exists>x''. linkAll hash (t\<lparr>index := Some x'\<rparr>) (Suc p) gs = Some (t\<lparr>index := Some x''\<rparr>) \<and>
      index_holds hash (entries t) (first t) e 0 x''"
    using Cons.IH [of "t\<lparr>index := Some x'\<rparr>" x' "Suc p"] x'(2) Cons.prems(3,4) g(2) by simp
  then show ?case using x'(1) by (simp add: Let_def)
qed

lemma unlinkEntry_holds:
  assumes x: "index t = Some x" and h: "index_holds hash (entries t) (first t) e p x" and p: "p < length (entries t)"
  shows "\<exists>x'. unlinkEntry hash t p = Some (t\<lparr>index := Some x'\<rparr>) \<and> index_holds hash (entries t) (first t) e (Suc p) x'"
proof -
  have h': "idx_mask x = of_nat (2 ^ e - 1)" "e \<le> 64"
    "indexes hash False (entries t) (first t) e p (names x)" "indexes hash True (entries t) (first t) e p (pairs x)"
    using h by (auto simp: index_holds_def)
  obtain ns where ns: "unlink hash t (names x) (hashName hash (Name (entries t ! p))) p False = Some ns"
    "indexes hash False (entries t) (first t) e (Suc p) ns"
    using unlink_indexes [OF x h'(1,2) p h'(3)] unfolding keyHash_simps by blast
  obtain ps where ps: "unlink hash t (pairs x) (hashPair hash (hashName hash (Name (entries t ! p))) (Value (entries t ! p))) p True = Some ps"
    "indexes hash True (entries t) (first t) e (Suc p) ps"
    using unlink_indexes [OF x h'(1,2) p h'(4)] unfolding keyHash_simps by blast
  show ?thesis
    using x p ns ps h'(1,2)
    by (intro exI [of _ "x\<lparr>names := ns, pairs := ps\<rparr>"]) (simp add: unlinkEntry_def index_holds_def Let_def)
qed

lemma unindexFrom_holds:
  assumes "index t = Some x" and "index_holds hash (entries t) (first t) e k x" and "k \<le> n" "n \<le> length (entries t)"
  shows "\<exists>x'. unindexFrom hash t [k..<n] = Some (t\<lparr>index := Some x'\<rparr>) \<and> index_holds hash (entries t) (first t) e n x'"
  using assms
proof (induction "n - k" arbitrary: t x k)
  case 0
  then have "index_holds hash (entries t) (first t) e n x" "t\<lparr>index := Some x\<rparr> = t" by simp_all
  then show ?case using 0 by (intro exI [of _ x]) simp
next
  case (Suc d)
  then have k: "k < n" "[k..<n] = k # [Suc k..<n]" by (simp_all add: upt_conv_Cons)
  obtain x' where x': "unlinkEntry hash t k = Some (t\<lparr>index := Some x'\<rparr>)" "index_holds hash (entries t) (first t) e (Suc k) x'"
    using unlinkEntry_holds [OF Suc.prems(1,2)] k(1) Suc.prems(4) by auto
  have "\<exists>x''. unindexFrom hash (t\<lparr>index := Some x'\<rparr>) [Suc k..<n] = Some (t\<lparr>index := Some x''\<rparr>) \<and>
      index_holds hash (entries t) (first t) e n x''"
    using Suc.hyps(1) [of "Suc k" "t\<lparr>index := Some x'\<rparr>" x'] Suc.hyps(2) x'(2) k(1) Suc.prems(4) by simp
  then show ?case using x'(1) k(2) by simp
qed

subsection \<open>The table's operations\<close>

definition indexed :: "(bytes \<Rightarrow> uint64) \<Rightarrow> nat \<Rightarrow> dynamicTable \<Rightarrow> bool" where
  "indexed hash e t \<longleftrightarrow> (\<forall>x. index t = Some x \<longrightarrow> index_holds hash (entries t) (first t) e 0 x)"

lemma evict_ok:
  assumes sz: "tsize t = table_size (entries t)" and ix: "indexed hash e t"
  shows "\<exists>t'. evict hash t = Some t' \<and> entries t' = fit (maxSize t) (entries t) \<and>
    tsize t' = table_size (entries t') \<and> maxSize t' = maxSize t \<and> (index t' = None \<longleftrightarrow> index t = None) \<and>
    indexed hash e t'"
proof -
  obtain n s where ev: "evictLoop (tsize t) (maxSize t) (entries t) = (n, s)" by fastforce
  have n: "n \<le> length (entries t)" "drop n (entries t) = fit (maxSize t) (entries t)"
    "s = table_size (fit (maxSize t) (entries t))"
    using evictLoop_fit ev sz by auto
  show ?thesis
  proof (cases "n = 0 \<or> index t = None")
    case True
    with n ev ix show ?thesis by (auto simp: evict_def indexed_def Let_def)
  next
    case False
    then obtain x where x: "index t = Some x" by auto
    have "index_holds hash (entries t) (first t) e 0 x" using ix x by (simp add: indexed_def)
    then obtain x' where x': "unindexFrom hash (t\<lparr>tsize := s\<rparr>) [0..<n] = Some (t\<lparr>tsize := s, index := Some x'\<rparr>)"
      "index_holds hash (entries t) (first t) e n x'"
      using unindexFrom_holds [of "t\<lparr>tsize := s\<rparr>" x hash e 0 n] x n(1) by auto
    have "index_holds hash (drop n (entries t)) (first t + of_nat n) e 0 x'"
      using x'(2) indexes_drop by (auto simp: index_holds_def)
    with False x'(1) n ev x show ?thesis by (auto simp: evict_def unindex_def indexed_def Let_def)
  qed
qed

lemma slotCount_power:
  assumes "need \<le> 2 ^ m" "k \<le> m"
  shows "\<exists>e. k \<le> e \<and> e \<le> m \<and> slotCount (2 ^ k) need = 2 ^ e \<and> need \<le> 2 ^ e"
  using assms
proof (induction "m - k" arbitrary: k)
  case 0
  then have "slotCount (2 ^ k) need = 2 ^ k" by (simp add: slotCount.simps [of "2 ^ k"])
  then show ?case using 0 by auto
next
  case (Suc d)
  show ?case
  proof (cases "need \<le> 2 ^ k")
    case True
    then have "slotCount (2 ^ k) need = 2 ^ k" by (simp add: slotCount.simps [of "2 ^ k"])
    then show ?thesis using True Suc.prems(2) by auto
  next
    case False
    then have "slotCount (2 ^ k) need = slotCount (2 ^ Suc k) need" by (simp add: slotCount.simps [of "2 ^ k"])
    moreover from Suc.hyps(1) [of "Suc k"] Suc.hyps(2) Suc.prems(1)
    obtain e where "Suc k \<le> e" "e \<le> m" "slotCount (2 ^ Suc k) need = 2 ^ e" "need \<le> 2 ^ e" by fastforce
    ultimately show ?thesis by (intro exI [of _ e]) auto
  qed
qed

lemma newFieldIndex_holds:
  assumes "0 \<le> m" "m \<le> MaxEncoderTableSize"
  obtains e where "5 \<le> e" "e \<le> 16" "2 * (m sdiv 32) \<le> 2 ^ e"
    "index_holds hash [] base e 0 (newFieldIndex m)"
proof -
  have m: "m sdiv 32 = m div 32" using assms(1) by (simp add: signed_divide_int_def sgn_if)
  have "2 * (m sdiv 32) \<le> 2 ^ 16" using assms(2) unfolding m by (simp add: MaxEncoderTableSize_def)
  then obtain e where e: "5 \<le> e" "e \<le> 16" "slotCount (2 ^ 5) (2 * (m sdiv 32)) = 2 ^ e" "2 * (m sdiv 32) \<le> 2 ^ e"
    using slotCount_power [of "2 * (m sdiv 32)" 16 5] by auto
  have "indexes hash pair [] base e 0 (replicate (2 ^ e) 0)" for pair
  proof -
    have "ix.well_probed e hash pair [] (replicate (2 ^ e) None)"
      by (auto simp: ix.well_probed_def ix.chained_def ix.unique_def intro!: exI [of _ 0])
    moreover have "probing.elems (2 ^ e) (replicate (2 ^ e) (None :: nat option)) = {}" by (auto simp: ix.elems_def)
    ultimately show ?thesis by (simp add: indexes_def newest_def slot_ok_def)
  qed
  then have "index_holds hash [] base e 0 (newFieldIndex m)"
    using e by (simp add: index_holds_def newFieldIndex_def Let_def)
  with that e show thesis by blast
qed

subsection \<open>The decoder's table\<close>

definition dec_table_ok :: "dynamicTable \<Rightarrow> bool" where
  "dec_table_ok t \<longleftrightarrow> tsize t = table_size (entries t) \<and> tsize t \<le> max 0 (maxSize t) \<and> index t = None"

lemma no_index [simp]: "index t = None \<Longrightarrow> indexed hash e t"
  by (simp add: indexed_def)

lemma add_ok:
  assumes "dec_table_ok t"
  shows "\<exists>t'. add hash t f = Some t' \<and> dec_table_ok t' \<and>
    entries t' = fit (maxSize t) (entries t @ [f]) \<and> maxSize t' = maxSize t"
proof -
  let ?t = "t\<lparr>tsize := tsize t + fsize f, entries := entries t @ [f]\<rparr>"
  have "tsize ?t = table_size (entries ?t)" "indexed hash 0 ?t"
    using assms by (simp_all add: dec_table_ok_def)
  from evict_ok [OF this] obtain t' where t': "evict hash ?t = Some t'" "entries t' = fit (maxSize ?t) (entries ?t)"
    "tsize t' = table_size (entries t')" "maxSize t' = maxSize ?t" "index t' = None \<longleftrightarrow> index ?t = None"
    by (elim exE conjE) (rule that)
  have "tsize t' \<le> max 0 (maxSize t)" unfolding t'(2,3) using fit_size [of "maxSize t"] by simp
  with t' have "dec_table_ok t'" using assms by (simp add: dec_table_ok_def)
  with t'(1,2,4) show ?thesis by (intro exI [of _ t']) (simp add: add_def)
qed

lemma setMaxSize_ok:
  assumes "dec_table_ok t"
  shows "\<exists>t'. setMaxSize hash t n = Some t' \<and> dec_table_ok t' \<and> entries t' = fit n (entries t) \<and> maxSize t' = n"
proof -
  let ?t = "t\<lparr>maxSize := n\<rparr>"
  have "tsize ?t = table_size (entries ?t)" "indexed hash 0 ?t"
    using assms by (simp_all add: dec_table_ok_def)
  from evict_ok [OF this] obtain t' where t': "evict hash ?t = Some t'" "entries t' = fit (maxSize ?t) (entries ?t)"
    "tsize t' = table_size (entries t')" "maxSize t' = maxSize ?t" "index t' = None \<longleftrightarrow> index ?t = None"
    by (elim exE conjE) (rule that)
  have "tsize t' \<le> max 0 n" unfolding t'(2,3) using fit_size [of n] by simp
  with t' have ok: "dec_table_ok t'" using assms by (simp add: dec_table_ok_def)
  then have "setMaxSize hash t n = Some t'" using t'(1) by (simp add: setMaxSize_def dec_table_ok_def)
  with ok t'(2,4) show ?thesis by (intro exI [of _ t']) simp
qed

interpretation dec: header_table dec_table_ok entries maxSize "\<lambda>_. True" "add hash" "setMaxSize hash"
proof unfold_locales
  fix t f t' n assume t: "dec_table_ok t"
  show "table_size (entries t) \<le> max 0 (maxSize t)" using t by (simp add: dec_table_ok_def)
  show "\<exists>t'. add hash t f = Some t' \<and> dec_table_ok t'" using add_ok [OF t, of hash f] by blast
  show "entries t' = fit (maxSize t) (entries t @ [f]) \<and> maxSize t' = maxSize t" if "add hash t f = Some t'"
    using add_ok [OF t, of hash f] that by (metis option.inject)
  show "\<exists>t'. setMaxSize hash t n = Some t' \<and> dec_table_ok t'" using setMaxSize_ok [OF t, of hash n] by blast
  show "entries t' = fit n (entries t) \<and> maxSize t' = n" if "setMaxSize hash t n = Some t'"
    using setMaxSize_ok [OF t, of hash n] that by (metis option.inject)
qed

subsection \<open>The encoder's table\<close>

definition index_sized :: "(bytes \<Rightarrow> uint64) \<Rightarrow> dynamicTable \<Rightarrow> bool" where
  "index_sized hash t \<longleftrightarrow>
     (index t \<noteq> None \<longrightarrow> (\<exists>e. 5 \<le> e \<and> e \<le> 16 \<and> 2 * (maxSize t sdiv 32) \<le> 2 ^ e \<and> indexed hash e t))"

definition enc_table_ok :: "(bytes \<Rightarrow> uint64) \<Rightarrow> dynamicTable \<Rightarrow> bool" where
  "enc_table_ok hash t \<longleftrightarrow>
     tsize t = table_size (entries t) \<and> tsize t \<le> maxSize t \<and> maxSize t \<le> MaxEncoderTableSize \<and> index_sized hash t"

lemma enc_table_room:
  assumes "enc_table_ok hash t"
  shows "length (entries t) < 2 ^ 16 - 1" and "0 \<le> maxSize t"
    and "5 \<le> e \<Longrightarrow> 2 * (maxSize t sdiv 32) \<le> 2 ^ e \<Longrightarrow> Suc (length (entries t)) < 2 ^ e"
proof -
  have l: "32 * int (length (entries t)) \<le> maxSize t" "maxSize t \<le> 2 ^ 20"
    using assms table_size_length [of "entries t"] by (auto simp: enc_table_ok_def MaxEncoderTableSize_def)
  then show "length (entries t) < 2 ^ 16 - 1" by simp
  show pos: "0 \<le> maxSize t" using l(1) by linarith
  show "Suc (length (entries t)) < 2 ^ e" if e: "5 \<le> e" "2 * (maxSize t sdiv 32) \<le> 2 ^ e"
  proof -
    have "maxSize t sdiv 32 = maxSize t div 32" using pos by (simp add: signed_divide_int_def sgn_if)
    moreover have "int (length (entries t)) \<le> maxSize t div 32" using l(1) by presburger
    ultimately have "2 * int (length (entries t)) \<le> 2 ^ e" using e(2) by linarith
    moreover have "(2 :: int) ^ 5 \<le> 2 ^ e" using e(1) by (intro power_increasing) simp_all
    ultimately have "int (Suc (length (entries t))) < int (2 ^ e)" by simp
    then show ?thesis by (simp only: of_nat_less_iff)
  qed
qed

text \<open>What \<^verbatim>\<open>addIndexed\<close> has made of the table \<open>t\<close>, \<open>f\<close> already appended, before it evicts.\<close>

definition relink :: "(bytes \<Rightarrow> uint64) \<Rightarrow> dynamicTable \<Rightarrow> headerField \<Rightarrow> dynamicTable option" where
  "relink hash t f =
     (if index t \<noteq> None then
        linkEntry t (hashName hash (Name f)) (hashPair hash (hashName hash (Name f)) (Value f)) (length (entries t) - 1)
      else if length (entries t) > indexFrom then
        linkAll hash (t\<lparr>index := Some (newFieldIndex (maxSize t))\<rparr>) 0 (entries t)
      else Some t)"

lemma addIndexed_relink:
  assumes "hashed \<Longrightarrow> nameHash = hashName hash (Name f) \<and> pairHash = hashPair hash nameHash (Value f)"
  shows "addIndexed hash t f nameHash pairHash hashed =
    relink hash (t\<lparr>tsize := tsize t + fsize f, entries := entries t @ [f]\<rparr>) f \<bind> evict hash"
  using assms by (cases hashed; cases "index t") (simp_all add: addIndexed_def relink_def Let_def)

lemma relink_holds:
  assumes ok: "enc_table_ok hash t" and u: "u = t\<lparr>tsize := tsize t + fsize f, entries := entries t @ [f]\<rparr>"
  obtains ix e where "relink hash u f = Some (u\<lparr>index := ix\<rparr>)" "indexed hash e (u\<lparr>index := ix\<rparr>)"
    "ix \<noteq> None \<longrightarrow> 5 \<le> e \<and> e \<le> 16 \<and> 2 * (maxSize t sdiv 32) \<le> 2 ^ e"
proof -
  let ?p = "length (entries t)"
  note room = enc_table_room [OF ok]
  have len: "length (entries u) < 2 ^ 16" using room(1) u by simp
  show thesis
  proof (cases "index t")
    case (Some x)
    then obtain e where e: "5 \<le> e" "e \<le> 16" "2 * (maxSize t sdiv 32) \<le> 2 ^ e" "indexed hash e t"
      using ok by (auto simp: enc_table_ok_def index_sized_def)
    have "index_holds hash (take ?p (entries u)) (first u) e 0 x" using e(4) Some u by (simp add: indexed_def)
    from linkEntry_holds [OF _ this _ len] room(3) [OF e(1,3)] Some u
    obtain x' where "relink hash u f = Some (u\<lparr>index := Some x'\<rparr>)" "index_holds hash (entries u) (first u) e 0 x'"
      by (auto simp: relink_def)
    with e show thesis by (intro that [of "Some x'" e]) (simp_all add: indexed_def)
  next
    case None
    show thesis
    proof (cases "length (entries u) > indexFrom")
      case True
      obtain e where e: "5 \<le> e" "e \<le> 16" "2 * (maxSize t sdiv 32) \<le> 2 ^ e"
        "index_holds hash [] (first t) e 0 (newFieldIndex (maxSize t))"
        using newFieldIndex_holds [of "maxSize t" hash "first t"] room(2) ok by (auto simp: enc_table_ok_def)
      let ?v = "u\<lparr>index := Some (newFieldIndex (maxSize u))\<rparr>"
      from linkAll_holds [of ?v "newFieldIndex (maxSize u)" hash 0 e "entries ?v"] e(4) len room(3) [OF e(1,3)] None True u
      obtain x' where "relink hash u f = Some (u\<lparr>index := Some x'\<rparr>)" "index_holds hash (entries u) (first u) e 0 x'"
        by (auto simp: relink_def)
      with e show thesis by (intro that [of "Some x'" e]) (simp_all add: indexed_def)
    next
      case False
      then have "relink hash u f = Some (u\<lparr>index := None\<rparr>)" using None u by (simp add: relink_def)
      then show thesis by (intro that [of None 0]) simp_all
    qed
  qed
qed

lemma addIndexed_ok:
  assumes ok: "enc_table_ok hash t"
    and hashed: "hashed \<Longrightarrow> nameHash = hashName hash (Name f) \<and> pairHash = hashPair hash nameHash (Value f)"
  shows "\<exists>t'. addIndexed hash t f nameHash pairHash hashed = Some t' \<and> enc_table_ok hash t' \<and>
    entries t' = fit (maxSize t) (entries t @ [f]) \<and> maxSize t' = maxSize t"
proof -
  define u where "u = t\<lparr>tsize := tsize t + fsize f, entries := entries t @ [f]\<rparr>"
  from relink_holds [OF ok u_def] obtain ix e where v: "relink hash u f = Some (u\<lparr>index := ix\<rparr>)"
    "indexed hash e (u\<lparr>index := ix\<rparr>)" "ix \<noteq> None \<longrightarrow> 5 \<le> e \<and> e \<le> 16 \<and> 2 * (maxSize t sdiv 32) \<le> 2 ^ e" .
  let ?v = "u\<lparr>index := ix\<rparr>"
  have "tsize ?v = table_size (entries ?v)" using ok by (simp add: enc_table_ok_def u_def)
  from evict_ok [OF this v(2)] obtain t' where t': "evict hash ?v = Some t'" "entries t' = fit (maxSize ?v) (entries ?v)"
    "tsize t' = table_size (entries t')" "maxSize t' = maxSize ?v" "index t' = None \<longleftrightarrow> index ?v = None" "indexed hash e t'"
    by (elim exE conjE) (rule that)
  have "tsize t' \<le> maxSize t"
    unfolding t'(2,3) using fit_size [of "maxSize t"] enc_table_room(2) [OF ok] by (simp add: u_def)
  then have "enc_table_ok hash t'" using t'(3-6) v(3) ok by (auto simp: enc_table_ok_def index_sized_def u_def)
  moreover have "addIndexed hash t f nameHash pairHash hashed = relink hash u f \<bind> evict hash"
    unfolding u_def using hashed by (rule addIndexed_relink)
  then have "addIndexed hash t f nameHash pairHash hashed = Some t'" using v(1) t'(1) by simp
  ultimately show ?thesis using t'(2,4) by (simp add: u_def)
qed

lemma enc_setMaxSize_ok:
  assumes ok: "enc_table_ok hash t" and n: "0 \<le> n" "n \<le> MaxEncoderTableSize"
  shows "\<exists>t'. setMaxSize hash t n = Some t' \<and> enc_table_ok hash t' \<and> entries t' = fit n (entries t) \<and> maxSize t' = n"
proof -
  let ?t = "t\<lparr>maxSize := n\<rparr>"
  obtain e where e: "indexed hash e t" "index t \<noteq> None \<Longrightarrow> 5 \<le> e \<and> e \<le> 16"
    using ok by (cases "index t") (auto simp: enc_table_ok_def index_sized_def)
  have "tsize ?t = table_size (entries ?t)" "indexed hash e ?t"
    using ok e(1) by (simp_all add: enc_table_ok_def indexed_def)
  from evict_ok [OF this] obtain t' where t': "evict hash ?t = Some t'" "entries t' = fit (maxSize ?t) (entries ?t)"
    "tsize t' = table_size (entries t')" "maxSize t' = maxSize ?t" "index t' = None \<longleftrightarrow> index ?t = None" "indexed hash e t'"
    by (elim exE conjE) (rule that)
  have le: "tsize t' \<le> n" unfolding t'(2,3) using fit_size [of n] n(1) by simp
  show ?thesis
  proof (cases "index t'")
    case None
    then have "setMaxSize hash t n = Some t'" using t'(1) by (simp add: setMaxSize_def)
    moreover have "enc_table_ok hash t'" using None le t'(3,4) n(2) by (simp add: enc_table_ok_def index_sized_def)
    ultimately show ?thesis using t'(2,4) by (intro exI [of _ t']) simp
  next
    case (Some x)
    let ?u = "if fits x n then t' else t'\<lparr>index := None\<rparr>"
    have "length (pairs x) = 2 ^ e" using Some t'(6) indexesD(1) by (auto simp: indexed_def index_holds_def)
    then have "fits x n \<longleftrightarrow> 2 * (n sdiv 32) \<le> 2 ^ e" by (simp add: fits_def)
    then have "enc_table_ok hash ?u"
      using Some le t'(3-6) n(2) e(2) by (auto simp: enc_table_ok_def index_sized_def)
    moreover have "setMaxSize hash t n = Some ?u" using t'(1) Some by (simp add: setMaxSize_def)
    ultimately show ?thesis using t'(2,4) by (intro exI [of _ ?u]) simp
  qed
qed

interpretation enc: header_table "enc_table_ok hash" entries maxSize "\<lambda>n. 0 \<le> n \<and> n \<le> MaxEncoderTableSize"
  "\<lambda>t f. addIndexed hash t f 0 0 False" "setMaxSize hash"
proof unfold_locales
  fix t f t' n assume t: "enc_table_ok hash t"
  show "table_size (entries t) \<le> max 0 (maxSize t)" using t by (auto simp: enc_table_ok_def)
  note add = addIndexed_ok [OF t, of False 0 f 0]
  show "\<exists>t'. addIndexed hash t f 0 0 False = Some t' \<and> enc_table_ok hash t'" using add by auto
  show "entries t' = fit (maxSize t) (entries t @ [f]) \<and> maxSize t' = maxSize t"
    if "addIndexed hash t f 0 0 False = Some t'"
    using add that by auto
  assume n: "0 \<le> n \<and> n \<le> MaxEncoderTableSize"
  note set = enc_setMaxSize_ok [OF t, of n]
  show "\<exists>t'. setMaxSize hash t n = Some t' \<and> enc_table_ok hash t'" using set n by metis
  show "entries t' = fit n (entries t) \<and> maxSize t' = n" if "setMaxSize hash t n = Some t'"
    using set n that by (metis option.inject)
qed

end
