(* ===== verification/Hpack_Decoder.thy ===== *)
theory Hpack_Decoder
  imports Hpack_Huffman Hpack_Dynamic
begin

text \<open>
  The HPACK decoder of \<^verbatim>\<open>hpack/hpack.go\<close>: a header block is decoded field by field against the
  dynamic table, and the strings decoded lately are kept in three caches. Each function returns the
  decoder it leaves with its result. \<open>emit\<close> is the caller's function: it takes a state of the
  caller's to the next and may fail. The scratch buffer \<^verbatim>\<open>huffman\<close> is not part of the state, since
  it is emptied before each use.
\<close>

record codedString =
  coded :: bytes
  plain :: bytes

record Decoder =
  dtable :: dynamicTable
  allowedMaxSize :: int
  mustShrink :: bool
  MaxStringLength :: int
  recent :: "bytes list"
  nextRecent :: nat
  codedCache :: "codedString list"
  nextCoded :: nat
  longString :: codedString
  longHuffman :: bool

definition recentStrings :: nat where
  "recentStrings = 8"

definition maxRecentString :: nat where
  "maxRecentString = 64"

definition maxLongString :: nat where
  "maxLongString = 1024"

definition NewDecoder :: "int \<Rightarrow> Decoder" where
  "NewDecoder maxTableSize =
     \<lparr>dtable = \<lparr>entries = [], tsize = 0, maxSize = maxTableSize, first = 0, index = None\<rparr>,
      allowedMaxSize = maxTableSize, mustShrink = False, MaxStringLength = 0,
      recent = replicate recentStrings [], nextRecent = 0,
      codedCache = replicate recentStrings \<lparr>coded = [], plain = []\<rparr>, nextCoded = 0,
      longString = \<lparr>coded = [], plain = []\<rparr>, longHuffman = False\<rparr>"

definition SetAllowedMaxSize :: "Decoder \<Rightarrow> int \<Rightarrow> Decoder" where
  "SetAllowedMaxSize d n =
     (let d = d\<lparr>allowedMaxSize := n\<rparr>
      in if maxSize (dtable d) > n then d\<lparr>mustShrink := True\<rparr> else d)"

subsection \<open>Strings\<close>

definition isLong :: "Decoder \<Rightarrow> bytes \<Rightarrow> bool \<Rightarrow> bool" where
  "isLong d raw huffman \<longleftrightarrow>
     longHuffman d = huffman \<and> length (coded (longString d)) = length raw \<and> coded (longString d) = raw \<and>
     (MaxStringLength d \<le> 0 \<or> int (length (plain (longString d))) \<le> MaxStringLength d)"

definition intern :: "Decoder \<Rightarrow> bytes \<Rightarrow> Decoder \<times> bytes" where
  "intern d raw =
     (if length raw = 0 then (d, [])
      else if length raw > maxRecentString then (d, raw)
      else
        case find (\<lambda>s. length s = length raw \<and> s = raw) (recent d) of
          Some s \<Rightarrow> (d, s)
        | None \<Rightarrow> (d\<lparr>recent := (recent d)[nextRecent d := raw],
                   nextRecent := (nextRecent d + 1) mod recentStrings\<rparr>, raw))"

definition readString :: "Decoder \<Rightarrow> bytes \<Rightarrow> Decoder \<times> ('e hpack_error + bytes \<times> bytes)" where
  "readString d block =
     (case block of
        [] \<Rightarrow> (d, Inl ErrTruncated)
      | b # _ \<Rightarrow>
          (case readInt block 7 of
             Inl e \<Rightarrow> (d, Inl e)
           | Inr (len, rest) \<Rightarrow>
               if len > of_nat (length rest) then (d, Inl ErrTruncated)
               else
                 (let raw = take (unat len) rest; rest = drop (unat len) rest in
                  if b AND 0x80 \<noteq> 0 then
                    (let short = length raw \<le> maxRecentString in
                     case (if short then find (\<lambda>c. length (coded c) = length raw \<and> coded c = raw) (codedCache d)
                           else if isLong d raw True then Some (longString d) else None) of
                       Some c \<Rightarrow> (d, Inr (plain c, rest))
                     | None \<Rightarrow>
                         (case huffmanDecodeAppend [] raw (MaxStringLength d) of
                            Inl e \<Rightarrow> (d, Inl e)
                          | Inr out \<Rightarrow>
                              (let (d, pl) = intern d out in
                               if short \<and> pl \<noteq> [] then
                                 (d\<lparr>codedCache := (codedCache d)[nextCoded d := \<lparr>coded = raw, plain = pl\<rparr>],
                                    nextCoded := (nextCoded d + 1) mod recentStrings\<rparr>, Inr (pl, rest))
                               else if length raw \<le> maxLongString then
                                 (d\<lparr>longString := \<lparr>coded = raw, plain = pl\<rparr>, longHuffman := True\<rparr>, Inr (pl, rest))
                               else (d, Inr (pl, rest)))))
                  else if MaxStringLength d > 0 \<and> int (length raw) > MaxStringLength d then (d, Inl ErrStringTooLong)
                  else if length raw \<le> maxRecentString \<or> length raw > maxLongString then
                    (let (d, pl) = intern d raw in (d, Inr (pl, rest)))
                  else if isLong d raw False then (d, Inr (plain (longString d), rest))
                  else (d\<lparr>longString := \<lparr>coded = raw, plain = raw\<rparr>, longHuffman := False\<rparr>, Inr (raw, rest)))))"

subsection \<open>Fields and blocks\<close>

definition readName :: "Decoder \<Rightarrow> uint64 \<Rightarrow> bytes \<Rightarrow> Decoder \<times> ('e hpack_error + bytes \<times> bytes)" where
  "readName d i rest =
     (if i > 0 then
        (case field (dtable d) i of
           None \<Rightarrow> (d, Inl ErrInvalidIndex)
         | Some named \<Rightarrow> (d, Inr (Name named, rest)))
      else readString d rest)"

definition readLiteral :: "Decoder \<Rightarrow> bytes \<Rightarrow> nat \<Rightarrow> Decoder \<times> ('e hpack_error + headerField \<times> bytes)" where
  "readLiteral d block n =
     (case readInt block n of
        Inl e \<Rightarrow> (d, Inl e)
      | Inr (i, rest) \<Rightarrow>
          (case readName d i rest of
             (d, Inl e) \<Rightarrow> (d, Inl e)
           | (d, Inr (name, rest)) \<Rightarrow>
               (case readString d rest of
                  (d, Inl e) \<Rightarrow> (d, Inl e)
                | (d, Inr (val, rest)) \<Rightarrow> (d, Inr (\<lparr>Name = name, Value = val\<rparr>, rest)))))"

lemma readString_consumes [consumes]:
  "readString d block = (d', Inr (s, rest)) \<Longrightarrow> length rest < length block"
  unfolding readString_def
  by (auto split: list.splits sum.splits prod.splits if_splits option.splits simp: Let_def dest!: readInt_consumes)

lemma readLiteral_consumes [consumes]:
  "readLiteral d block n = (d', Inr (f, rest)) \<Longrightarrow> length rest < length block"
  unfolding readLiteral_def readName_def
  by (auto split: sum.splits prod.splits if_splits option.splits dest!: readInt_consumes readString_consumes)

text \<open>
  The loop of \<^verbatim>\<open>Decode\<close>. \<open>start\<close> says that no field has been read yet. The result is the decoder, the
  caller's state and the error, if any; \<^const>\<open>None\<close> stands for not returning, as in the table's
  operations.
\<close>

function decodeLoop :: "(bytes \<Rightarrow> uint64) \<Rightarrow> ('s \<Rightarrow> headerField \<Rightarrow> 's \<times> 'e option) \<Rightarrow> Decoder \<Rightarrow> 's \<Rightarrow> bool \<Rightarrow> bytes \<Rightarrow>
    (Decoder \<times> 's \<times> 'e hpack_error option) option" where
  "decodeLoop hash emit d st start block =
     (case block of
        [] \<Rightarrow> Some (d, st, None)
      | b # _ \<Rightarrow>
          if b AND 0x80 \<noteq> 0 then
            (case readInt block 7 of
               Inl e \<Rightarrow> Some (d, st, Some e)
             | Inr (i, rest) \<Rightarrow>
                 (case field (dtable d) i of
                    None \<Rightarrow> Some (d, st, Some ErrInvalidIndex)
                  | Some f \<Rightarrow>
                      (case emit st f of
                         (st, Some e) \<Rightarrow> Some (d, st, Some (ErrEmit e))
                       | (st, None) \<Rightarrow> decodeLoop hash emit d st False rest)))
          else if b AND 0xc0 = 0x40 then
            (case readLiteral d block 6 of
               (d, Inl e) \<Rightarrow> Some (d, st, Some e)
             | (d, Inr (f, rest)) \<Rightarrow>
                 (case add hash (dtable d) f of
                    None \<Rightarrow> None
                  | Some t \<Rightarrow>
                      (case emit st f of
                         (st, Some e) \<Rightarrow> Some (d\<lparr>dtable := t\<rparr>, st, Some (ErrEmit e))
                       | (st, None) \<Rightarrow> decodeLoop hash emit (d\<lparr>dtable := t\<rparr>) st False rest)))
          else if b AND 0xe0 = 0x20 then
            (if \<not> start then Some (d, st, Some ErrInvalidSizeUpdate)
             else
               (case readInt block 5 of
                  Inl e \<Rightarrow> Some (d, st, Some e)
                | Inr (sz, rest) \<Rightarrow>
                    if sz > word_of_int (allowedMaxSize d) then Some (d, st, Some ErrInvalidSizeUpdate)
                    else
                      (case setMaxSize hash (dtable d) (sint sz) of
                         None \<Rightarrow> None
                       | Some t \<Rightarrow> decodeLoop hash emit (d\<lparr>dtable := t, mustShrink := False\<rparr>) st start rest)))
          else
            (case readLiteral d block 4 of
               (d, Inl e) \<Rightarrow> Some (d, st, Some e)
             | (d, Inr (f, rest)) \<Rightarrow>
                 (case emit st f of
                    (st, Some e) \<Rightarrow> Some (d, st, Some (ErrEmit e))
                  | (st, None) \<Rightarrow> decodeLoop hash emit d st False rest)))"
  by pat_completeness auto

termination
proof (relation "measure (\<lambda>(hash, emit, d, st, start, block). length block)", goal_cases)
  case 1
  show ?case by simp
qed (auto dest!: consumes sym [of _ "readLiteral _ _ _"] simp: less_Suc_eq_le)

declare decodeLoop.simps [simp del]

definition Decode :: "(bytes \<Rightarrow> uint64) \<Rightarrow> ('s \<Rightarrow> headerField \<Rightarrow> 's \<times> 'e option) \<Rightarrow> Decoder \<Rightarrow> 's \<Rightarrow> bytes \<Rightarrow>
    (Decoder \<times> 's \<times> 'e hpack_error option) option" where
  "Decode hash emit d st block =
     (if mustShrink d \<and> (length block = 0 \<or> hd block AND 0xe0 \<noteq> 0x20) then Some (d, st, Some ErrInvalidSizeUpdate)
      else decodeLoop hash emit d st True block)"

end
