(* ===== verification/Hpack_Spec.thy ===== *)
theory Hpack_Spec
  imports Hpack_Decoder
begin

text \<open>
  What decoding means, without hash index, caches or slots: the dynamic table is the list of its
  entries, the index space is the static table followed by the entries from the newest, and every
  string is decoded afresh. The decoder of \<^verbatim>\<open>hpack/hpack.go\<close> refines it: every call of \<^verbatim>\<open>Decode\<close>
  returns, and its emitted fields, its error and its table are those of the specification.
\<close>

subsection \<open>The specification\<close>

record hpackState =
  contents :: "headerField list"
  limit :: int
  allowance :: int
  shrink :: bool

definition tableLookup :: "headerField list \<Rightarrow> uint64 \<Rightarrow> headerField option" where
  "tableLookup es i =
     (if i = 0 then None else slice_at (staticTable @ rev es) (unat i - 1))"

definition specString :: "int \<Rightarrow> bytes \<Rightarrow> 'e hpack_error + bytes \<times> bytes" where
  "specString maxLen block =
     (case block of
        [] \<Rightarrow> Inl ErrTruncated
      | b # _ \<Rightarrow>
          (case readInt block 7 of
             Inl e \<Rightarrow> Inl e
           | Inr (len, rest) \<Rightarrow>
               if len > of_nat (length rest) then Inl ErrTruncated
               else
                 (let raw = take (unat len) rest; rest = drop (unat len) rest in
                  if b AND 0x80 \<noteq> 0 then
                    (case huffmanDecode raw maxLen of Inl e \<Rightarrow> Inl e | Inr out \<Rightarrow> Inr (out, rest))
                  else if maxLen > 0 \<and> int (length raw) > maxLen then Inl ErrStringTooLong
                  else Inr (raw, rest))))"

definition specName :: "int \<Rightarrow> headerField list \<Rightarrow> uint64 \<Rightarrow> bytes \<Rightarrow> 'e hpack_error + bytes \<times> bytes" where
  "specName maxLen es i rest =
     (if i > 0 then
        (case tableLookup es i of
           None \<Rightarrow> Inl ErrInvalidIndex
         | Some named \<Rightarrow> Inr (Name named, rest))
      else specString maxLen rest)"

definition specLiteral :: "int \<Rightarrow> headerField list \<Rightarrow> bytes \<Rightarrow> nat \<Rightarrow> 'e hpack_error + headerField \<times> bytes" where
  "specLiteral maxLen es block n =
     (case readInt block n of
        Inl e \<Rightarrow> Inl e
      | Inr (i, rest) \<Rightarrow>
          (case specName maxLen es i rest of
             Inl e \<Rightarrow> Inl e
           | Inr (name, rest) \<Rightarrow>
               (case specString maxLen rest of
                  Inl e \<Rightarrow> Inl e
                | Inr (val, rest) \<Rightarrow> Inr (\<lparr>Name = name, Value = val\<rparr>, rest))))"

lemma specString_consumes [consumes]:
  "specString maxLen block = Inr (s, rest) \<Longrightarrow> length rest < length block"
  unfolding specString_def
  by (auto split: list.splits sum.splits prod.splits if_splits simp: Let_def dest!: readInt_consumes)

lemma specLiteral_consumes [consumes]:
  "specLiteral maxLen es block n = Inr (f, rest) \<Longrightarrow> length rest < length block"
  unfolding specLiteral_def specName_def
  by (auto split: sum.splits prod.splits if_splits option.splits dest!: readInt_consumes specString_consumes)

function specLoop :: "int \<Rightarrow> ('s \<Rightarrow> headerField \<Rightarrow> 's \<times> 'e option) \<Rightarrow> hpackState \<Rightarrow> 's \<Rightarrow> bool \<Rightarrow> bytes \<Rightarrow>
    hpackState \<times> 's \<times> 'e hpack_error option" where
  "specLoop maxLen emit h st start block =
     (case block of
        [] \<Rightarrow> (h, st, None)
      | b # _ \<Rightarrow>
          if b AND 0x80 \<noteq> 0 then
            (case readInt block 7 of
               Inl e \<Rightarrow> (h, st, Some e)
             | Inr (i, rest) \<Rightarrow>
                 (case tableLookup (contents h) i of
                    None \<Rightarrow> (h, st, Some ErrInvalidIndex)
                  | Some f \<Rightarrow>
                      (case emit st f of
                         (st, Some e) \<Rightarrow> (h, st, Some (ErrEmit e))
                       | (st, None) \<Rightarrow> specLoop maxLen emit h st False rest)))
          else if b AND 0xc0 = 0x40 then
            (case specLiteral maxLen (contents h) block 6 of
               Inl e \<Rightarrow> (h, st, Some e)
             | Inr (f, rest) \<Rightarrow>
                 (let h = h\<lparr>contents := fit (limit h) (contents h @ [f])\<rparr> in
                  case emit st f of
                    (st, Some e) \<Rightarrow> (h, st, Some (ErrEmit e))
                  | (st, None) \<Rightarrow> specLoop maxLen emit h st False rest))
          else if b AND 0xe0 = 0x20 then
            (if \<not> start then (h, st, Some ErrInvalidSizeUpdate)
             else
               (case readInt block 5 of
                  Inl e \<Rightarrow> (h, st, Some e)
                | Inr (sz, rest) \<Rightarrow>
                    if int (unat sz) > allowance h then (h, st, Some ErrInvalidSizeUpdate)
                    else specLoop maxLen emit
                      (h\<lparr>contents := fit (int (unat sz)) (contents h), limit := int (unat sz), shrink := False\<rparr>)
                      st start rest))
          else
            (case specLiteral maxLen (contents h) block 4 of
               Inl e \<Rightarrow> (h, st, Some e)
             | Inr (f, rest) \<Rightarrow>
                 (case emit st f of
                    (st, Some e) \<Rightarrow> (h, st, Some (ErrEmit e))
                  | (st, None) \<Rightarrow> specLoop maxLen emit h st False rest)))"
  by pat_completeness auto

termination
  by (relation "measure (\<lambda>(maxLen, emit, h, st, start, block). length block)")
     (auto dest!: consumes simp: less_Suc_eq_le)

declare specLoop.simps [simp del]

definition specDecode :: "int \<Rightarrow> ('s \<Rightarrow> headerField \<Rightarrow> 's \<times> 'e option) \<Rightarrow> hpackState \<Rightarrow> 's \<Rightarrow> bytes \<Rightarrow>
    hpackState \<times> 's \<times> 'e hpack_error option" where
  "specDecode maxLen emit h st block =
     (if shrink h \<and> (length block = 0 \<or> hd block AND 0xe0 \<noteq> 0x20) then (h, st, Some ErrInvalidSizeUpdate)
      else specLoop maxLen emit h st True block)"

subsection \<open>The invariant and the abstraction\<close>

definition caches_ok :: "Decoder \<Rightarrow> bool" where
  "caches_ok d \<longleftrightarrow>
     length (recent d) = recentStrings \<and> nextRecent d < recentStrings \<and>
     length (codedCache d) = recentStrings \<and> nextCoded d < recentStrings \<and>
     (\<forall>c\<in>set (codedCache d). coded c = huffmanAppend [] (plain c) \<and>
        (MaxStringLength d > 0 \<longrightarrow> int (length (plain c)) \<le> MaxStringLength d)) \<and>
     coded (longString d) = (if longHuffman d then huffmanAppend [] (plain (longString d)) else plain (longString d))"

definition decoder_ok :: "Decoder \<Rightarrow> bool" where
  "decoder_ok d \<longleftrightarrow>
     caches_ok d \<and> dec_table_ok (dtable d) \<and> 0 \<le> allowedMaxSize d \<and> allowedMaxSize d < 2 ^ 63 \<and>
     0 \<le> maxSize (dtable d) \<and> maxSize (dtable d) < 2 ^ 63 \<and>
     (maxSize (dtable d) \<le> allowedMaxSize d \<or> mustShrink d)"

definition absDecoder :: "Decoder \<Rightarrow> hpackState" where
  "absDecoder d = \<lparr>contents = entries (dtable d), limit = maxSize (dtable d),
     allowance = allowedMaxSize d, shrink = mustShrink d\<rparr>"

definition sameConfig :: "Decoder \<Rightarrow> Decoder \<Rightarrow> bool" where
  "sameConfig d d' \<longleftrightarrow> dtable d' = dtable d \<and> allowedMaxSize d' = allowedMaxSize d \<and>
     mustShrink d' = mustShrink d \<and> MaxStringLength d' = MaxStringLength d"

subsection \<open>Strings through the caches\<close>

lemma intern_ok:
  assumes "caches_ok d"
  shows "\<exists>d'. intern d raw = (d', raw) \<and> caches_ok d' \<and> sameConfig d d' \<and> codedCache d' = codedCache d"
proof (cases "length raw = 0 \<or> length raw > maxRecentString")
  case True
  then show ?thesis using assms by (auto simp: intern_def sameConfig_def)
next
  case False
  show ?thesis
  proof (cases "find (\<lambda>s. length s = length raw \<and> s = raw) (recent d)")
    case None
    then show ?thesis using assms False
      by (auto simp: intern_def sameConfig_def caches_ok_def recentStrings_def)
  next
    case (Some s)
    then have "s = raw" by (auto simp: find_Some_iff)
    then show ?thesis using assms False Some by (auto simp: intern_def sameConfig_def)
  qed
qed

lemma coded_hit:
  assumes "caches_ok d" and "find (\<lambda>c. length (coded c) = length raw \<and> coded c = raw) (codedCache d) = Some c"
  shows "huffmanDecode raw (MaxStringLength d) = Inr (plain c)"
  using assms by (auto simp: caches_ok_def huffmanDecode_iff find_Some_iff)

lemma long_hit:
  assumes "caches_ok d" and "isLong d raw True"
  shows "huffmanDecode raw (MaxStringLength d) = Inr (plain (longString d))"
  using assms by (auto simp: caches_ok_def isLong_def huffmanDecode_iff)

lemma caches_ok_coded:
  assumes "caches_ok d" and "huffmanDecode raw (MaxStringLength d) = (Inr pl :: 'e hpack_error + bytes)"
  shows "caches_ok (d\<lparr>codedCache := (codedCache d)[nextCoded d := \<lparr>coded = raw, plain = pl\<rparr>],
    nextCoded := (nextCoded d + 1) mod recentStrings\<rparr>)"
proof -
  have "raw = huffmanAppend [] pl" "MaxStringLength d > 0 \<longrightarrow> int (length pl) \<le> MaxStringLength d"
    using assms(2) by (auto simp: huffmanDecode_iff)
  moreover have "set ((codedCache d)[nextCoded d := \<lparr>coded = raw, plain = pl\<rparr>]) \<subseteq>
      insert \<lparr>coded = raw, plain = pl\<rparr> (set (codedCache d))" by (rule set_update_subset_insert)
  ultimately show ?thesis using assms(1) unfolding caches_ok_def by (auto simp: recentStrings_def)
qed

lemma caches_ok_long:
  "caches_ok d \<Longrightarrow> c = (if h then huffmanAppend [] p else p) \<Longrightarrow>
    caches_ok (d\<lparr>longString := \<lparr>coded = c, plain = p\<rparr>, longHuffman := h\<rparr>)"
  by (simp add: caches_ok_def)

lemma sameConfig_refl [simp]: "sameConfig d d"
  by (simp add: sameConfig_def)

lemma sameConfig_trans: "sameConfig d d' \<Longrightarrow> sameConfig d' d'' \<Longrightarrow> sameConfig d d''"
  by (simp add: sameConfig_def)

lemma sameConfig_caches [simp]:
  "sameConfig d (d'\<lparr>codedCache := a, nextCoded := b\<rparr>) = sameConfig d d'"
  "sameConfig d (d'\<lparr>longString := l, longHuffman := h\<rparr>) = sameConfig d d'"
  by (simp_all add: sameConfig_def)

lemma readString_spec:
  assumes ok: "caches_ok d"
  shows "\<exists>d'. readString d block = (d', specString (MaxStringLength d) block :: 'e hpack_error + bytes \<times> bytes) \<and>
    caches_ok d' \<and> sameConfig d d'"
proof (cases block)
  case Nil
  then show ?thesis using ok by (simp add: readString_def specString_def)
next
  case (Cons b bs)
  show ?thesis
  proof (cases "readInt block 7 :: 'e hpack_error + _")
    case (Inl e)
    then show ?thesis using ok Cons by (simp add: readString_def specString_def)
  next
    case (Inr r)
    obtain len rest where r: "r = (len, rest)" by fastforce
    let ?raw = "take (unat len) rest" and ?rest = "drop (unat len) rest" and ?max = "MaxStringLength d"
    show ?thesis
    proof (cases "len > of_nat (length rest)")
      case True
      then show ?thesis using ok Cons Inr r by (simp add: readString_def specString_def)
    next
      case len: False
      show ?thesis
      proof (cases "b AND 0x80 \<noteq> 0")
        case True
        let ?hit = "if length ?raw \<le> maxRecentString
          then find (\<lambda>c. length (coded c) = length ?raw \<and> coded c = ?raw) (codedCache d)
          else if isLong d ?raw True then Some (longString d) else None"
        show ?thesis
        proof (cases ?hit)
          case (Some c)
          then have "huffmanDecode ?raw ?max = (Inr (plain c) :: 'e hpack_error + bytes)"
            using coded_hit [OF ok] long_hit [OF ok] by (auto split: if_splits)
          then show ?thesis using ok Cons Inr r len True Some
            by (simp add: readString_def specString_def Let_def del: length_take)
        next
          case None
          show ?thesis
          proof (cases "huffmanDecode ?raw ?max :: 'e hpack_error + bytes")
            case (Inl e)
            then show ?thesis using ok Cons Inr r len True None
              by (simp add: readString_def specString_def Let_def huffmanDecode_def del: length_take)
          next
            case out: (Inr out)
            obtain d1 where d1: "intern d out = (d1, out)" "caches_ok d1" "sameConfig d d1"
              using intern_ok [OF ok, of out] by (elim exE conjE) (rule that)
            have "?max = MaxStringLength d1" using d1(3) by (simp add: sameConfig_def)
            then have "caches_ok (d1\<lparr>codedCache := (codedCache d1)[nextCoded d1 := \<lparr>coded = ?raw, plain = out\<rparr>],
                nextCoded := (nextCoded d1 + 1) mod recentStrings\<rparr>)"
              using caches_ok_coded [OF d1(2)] out by metis
            moreover have "caches_ok (d1\<lparr>longString := \<lparr>coded = ?raw, plain = out\<rparr>, longHuffman := True\<rparr>)"
              using caches_ok_long [OF d1(2), of ?raw True out] out by (simp add: huffmanDecode_iff)
            ultimately show ?thesis using Cons Inr r len True None out d1
              by (auto simp: readString_def specString_def Let_def huffmanDecode_def simp del: length_take)
          qed
        qed
      next
        case plain: False
        obtain d1 where d1: "intern d ?raw = (d1, ?raw)" "caches_ok d1" "sameConfig d d1"
          using intern_ok [OF ok, of ?raw] by (elim exE conjE) (rule that)
        have "caches_ok (d\<lparr>longString := \<lparr>coded = ?raw, plain = ?raw\<rparr>, longHuffman := False\<rparr>)"
          using caches_ok_long [OF ok, of ?raw False ?raw] by simp
        moreover have "isLong d ?raw False \<Longrightarrow> plain (longString d) = ?raw"
          using ok by (auto simp: isLong_def caches_ok_def)
        ultimately show ?thesis using ok Cons Inr r len plain d1
          by (auto simp: readString_def specString_def Let_def simp del: length_take)
      qed
    qed
  qed
qed

subsection \<open>The decoder refines the specification\<close>

lemma field_tableLookup:
  assumes "length (entries t) < 2 ^ 63"
  shows "field t i = tableLookup (entries t) i"
proof -
  let ?n = "length (entries t)" and ?s = "of_nat (length staticTable) :: uint64"
  have us: "unat ?s = 61" by simp
  have un: "unat (of_nat ?n :: uint64) = ?n" using assms by (simp add: unat_of_nat)
  consider "i = 0" | "i \<noteq> 0" "unat i \<le> 61" | "61 < unat i" by linarith
  then show ?thesis
  proof cases
    case 1
    then show ?thesis by (simp add: field_def tableLookup_def)
  next
    case 2
    then have "i \<le> ?s" "unat i - 1 < 61" using us by (simp_all add: word_le_nat_alt del: length_staticTable)
    then show ?thesis using 2 by (simp add: field_def tableLookup_def slice_at_def nth_append)
  next
    case 3
    have i: "\<not> i \<le> ?s" "i \<noteq> 0" using 3 us by (auto simp: word_le_nat_alt simp del: length_staticTable)
    have r: "unat (i - ?s) = unat i - 61" using 3 us by (simp add: unat_sub_if' del: length_staticTable)
    show ?thesis
    proof (cases "unat i - 61 \<le> ?n")
      case True
      define m where "m = unat i - 61"
      have m: "1 \<le> m" "m \<le> ?n" "unat i - 1 = 61 + (m - 1)" using 3 True by (simp_all add: m_def)
      have "\<not> i - ?s > of_nat ?n" using r un True by (simp add: word_less_nat_alt del: length_staticTable)
      moreover have "sint (i - ?s) = int m"
        unfolding m_def r [symmetric] using sint_small [of "i - ?s"] r True assms by (simp del: length_staticTable)
      ultimately have "field t i = get t (int m)" using i unfolding field_def by (simp only: Let_def if_False)
      also have "\<dots> = Some (entries t ! (?n - m))" using m by (simp add: get_def)
      also have "\<dots> = tableLookup (entries t) i"
        unfolding tableLookup_def slice_at_def m(3) using i(2) m(1,2) by (simp add: nth_append rev_nth)
      finally show ?thesis .
    next
      case False
      then have "i - ?s > of_nat ?n" using r un by (simp add: word_less_nat_alt del: length_staticTable)
      then show ?thesis using i False by (simp add: field_def tableLookup_def slice_at_def Let_def)
    qed
  qed
qed

lemma decoder_okD:
  assumes "decoder_ok d"
  shows "caches_ok d" "dec_table_ok (dtable d)" "0 \<le> allowedMaxSize d" "allowedMaxSize d < 2 ^ 63"
    "0 \<le> maxSize (dtable d)" "maxSize (dtable d) < 2 ^ 63" "maxSize (dtable d) \<le> allowedMaxSize d \<or> mustShrink d"
  using assms by (simp_all add: decoder_ok_def)

lemma decoder_entries:
  assumes "decoder_ok d"
  shows "length (entries (dtable d)) < 2 ^ 63"
proof -
  have "32 * int (length (entries (dtable d))) \<le> tsize (dtable d)"
    using decoder_okD(2) [OF assms] table_size_length by (simp add: dec_table_ok_def)
  also have "\<dots> < 2 ^ 63" using decoder_okD(2,5,6) [OF assms] by (simp add: dec_table_ok_def)
  finally show ?thesis by simp
qed

lemma sameConfig_abs: "sameConfig d d' \<Longrightarrow> absDecoder d' = absDecoder d"
  by (simp add: sameConfig_def absDecoder_def)

lemma sameConfig_ok: "sameConfig d d' \<Longrightarrow> decoder_ok d \<Longrightarrow> caches_ok d' \<Longrightarrow> decoder_ok d'"
  by (simp add: sameConfig_def decoder_ok_def)

lemma readName_spec:
  assumes ok: "decoder_ok d"
  shows "\<exists>d'. readName d i rest =
      (d', specName (MaxStringLength d) (entries (dtable d)) i rest :: 'e hpack_error + bytes \<times> bytes) \<and>
    caches_ok d' \<and> sameConfig d d'"
  using readString_spec [OF decoder_okD(1) [OF ok], of rest] field_tableLookup [OF decoder_entries [OF ok], of i]
    decoder_okD(1) [OF ok]
  by (cases "i > 0") (auto simp: readName_def specName_def split: option.splits)

lemma readLiteral_spec:
  assumes ok: "decoder_ok d"
  shows "\<exists>d'. readLiteral d block n =
      (d', specLiteral (MaxStringLength d) (entries (dtable d)) block n :: 'e hpack_error + headerField \<times> bytes) \<and>
    decoder_ok d' \<and> sameConfig d d'"
proof (cases "readInt block n :: 'e hpack_error + _")
  case (Inl e)
  then show ?thesis using ok by (simp add: readLiteral_def specLiteral_def)
next
  case (Inr r)
  obtain i rest where r: "r = (i, rest)" by fastforce
  obtain d1 s where d1: "readName d i rest = (d1, s)"
      "specName (MaxStringLength d) (entries (dtable d)) i rest = (s :: 'e hpack_error + _)"
      "caches_ok d1" "sameConfig d d1"
    using readName_spec [OF ok] by blast
  note ok1 = sameConfig_ok [OF d1(4) ok d1(3)]
  show ?thesis
  proof (cases s)
    case (Inl e)
    then show ?thesis using Inr r d1 ok1 by (simp add: readLiteral_def specLiteral_def)
  next
    case s: (Inr s1)
    obtain name rest1 where s1: "s1 = (name, rest1)" by fastforce
    obtain d2 where d2: "readString d1 rest1 = (d2, specString (MaxStringLength d) rest1 :: 'e hpack_error + _)"
      "caches_ok d2" "sameConfig d1 d2"
      using readString_spec [OF d1(3), of rest1] d1(4) by (auto simp: sameConfig_def)
    have "decoder_ok d2" "sameConfig d d2"
      using sameConfig_ok [OF d2(3) ok1 d2(2)] sameConfig_trans [OF d1(4) d2(3)] by auto
    then show ?thesis using Inr r d1(1,2) s s1 d2(1)
      by (auto simp: readLiteral_def specLiteral_def split: sum.splits)
  qed
qed

lemma update_size_cond:
  fixes sz :: uint64
  assumes "decoder_ok d"
  shows "sz > word_of_int (allowedMaxSize d) \<longleftrightarrow> int (unat sz) > allowedMaxSize d"
    and "\<not> int (unat sz) > allowedMaxSize d \<Longrightarrow> sint sz = int (unat sz)"
proof -
  note D = decoder_okD [OF assms]
  have "uint (word_of_int (allowedMaxSize d) :: uint64) = allowedMaxSize d"
    using D(3,4) by (simp add: uint_word_of_int)
  then show "sz > word_of_int (allowedMaxSize d) \<longleftrightarrow> int (unat sz) > allowedMaxSize d"
    by (simp add: word_less_def)
  show "sint sz = int (unat sz)" if "\<not> int (unat sz) > allowedMaxSize d"
  proof (rule sint_small)
    have "int (unat sz) < 2 ^ 63" using that D(4) by linarith
    then have "int (unat sz) < int (2 ^ 63)" by (simp only: of_nat_power of_nat_numeral)
    then show "unat sz < 2 ^ 63" by (simp only: of_nat_less_iff)
  qed
qed

lemma decoder_ok_table:
  assumes "decoder_ok d" and "dec_table_ok t" and "maxSize t = maxSize (dtable d)"
  shows "decoder_ok (d\<lparr>dtable := t\<rparr>)"
  using assms by (simp add: decoder_ok_def caches_ok_def)

lemma decoder_ok_resize:
  assumes "decoder_ok d" and "dec_table_ok t" and "0 \<le> maxSize t" and "maxSize t \<le> allowedMaxSize d"
  shows "decoder_ok (d\<lparr>dtable := t, mustShrink := False\<rparr>)"
  using assms by (simp add: decoder_ok_def caches_ok_def)

definition refinesResult :: "Decoder \<Rightarrow> (Decoder \<times> 's \<times> 'e hpack_error option) option \<Rightarrow>
    hpackState \<times> 's \<times> 'e hpack_error option \<Rightarrow> bool" where
  "refinesResult d r sr \<longleftrightarrow>
     (\<exists>d' st' err. r = Some (d', st', err) \<and> sr = (absDecoder d', st', err) \<and> decoder_ok d' \<and>
        MaxStringLength d' = MaxStringLength d \<and> allowedMaxSize d' = allowedMaxSize d)"

lemma refinesResultI:
  "decoder_ok d' \<Longrightarrow> MaxStringLength d' = MaxStringLength d \<Longrightarrow> allowedMaxSize d' = allowedMaxSize d \<Longrightarrow> h = absDecoder d' \<Longrightarrow>
    refinesResult d (Some (d', st', err)) (h, st', err)"
  by (auto simp: refinesResult_def)

lemma refinesResult_from:
  "refinesResult d' r sr \<Longrightarrow> MaxStringLength d' = MaxStringLength d \<Longrightarrow> allowedMaxSize d' = allowedMaxSize d \<Longrightarrow>
    refinesResult d r sr"
  by (simp add: refinesResult_def)

text \<open>
  One turn of the loop, given that the turns after it refine: \<open>rec d' st' start' rest h\<close> is what the
  induction gives of the rest of the block.
\<close>

lemma literal_refines:
  fixes emit :: "'s \<Rightarrow> headerField \<Rightarrow> 's \<times> 'e option"
  assumes ok: "decoder_ok d"
    and rec: "\<And>d' st' rest h. length rest < length block \<Longrightarrow> decoder_ok d' \<Longrightarrow>
      MaxStringLength d' = MaxStringLength d \<Longrightarrow> allowedMaxSize d' = allowedMaxSize d \<Longrightarrow> h = absDecoder d' \<Longrightarrow>
      refinesResult d (decodeLoop hash emit d' st' False rest) (specLoop (MaxStringLength d) emit h st' False rest)"
  shows "refinesResult d
     (case readLiteral d block n of
        (d, Inl e) \<Rightarrow> Some (d, st, Some e)
      | (d, Inr (f, rest)) \<Rightarrow>
          (case emit st f of
             (st, Some e) \<Rightarrow> Some (d, st, Some (ErrEmit e))
           | (st, None) \<Rightarrow> decodeLoop hash emit d st False rest))
     (case specLiteral (MaxStringLength d) (entries (dtable d)) block n of
        Inl e \<Rightarrow> (absDecoder d, st, Some e)
      | Inr (f, rest) \<Rightarrow>
          (case emit st f of
             (st, Some e) \<Rightarrow> (absDecoder d, st, Some (ErrEmit e))
           | (st, None) \<Rightarrow> specLoop (MaxStringLength d) emit (absDecoder d) st False rest))"
proof -
  obtain d1 s where d1: "readLiteral d block n = (d1, s)"
    "specLiteral (MaxStringLength d) (entries (dtable d)) block n = (s :: 'e hpack_error + _)"
    "decoder_ok d1" "sameConfig d d1"
    using readLiteral_spec [OF ok] by blast
  have "absDecoder d = absDecoder d1" "MaxStringLength d1 = MaxStringLength d" "allowedMaxSize d1 = allowedMaxSize d"
    using sameConfig_abs [OF d1(4)] d1(4) by (simp_all add: sameConfig_def)
  moreover have "length rest < length block" if "s = Inr (f, rest)" for f rest
    using readLiteral_consumes d1(1) that by blast
  ultimately show ?thesis
    using d1(1,2,3) rec [where d' = d1 and h = "absDecoder d1"]
    by (auto split: sum.splits option.splits prod.splits intro!: refinesResultI)
qed

lemma indexing_refines:
  fixes emit :: "'s \<Rightarrow> headerField \<Rightarrow> 's \<times> 'e option"
  assumes ok: "decoder_ok d"
    and rec: "\<And>d' st' rest h. length rest < length block \<Longrightarrow> decoder_ok d' \<Longrightarrow>
      MaxStringLength d' = MaxStringLength d \<Longrightarrow> allowedMaxSize d' = allowedMaxSize d \<Longrightarrow> h = absDecoder d' \<Longrightarrow>
      refinesResult d (decodeLoop hash emit d' st' False rest) (specLoop (MaxStringLength d) emit h st' False rest)"
  shows "refinesResult d
     (case readLiteral d block 6 of
        (d, Inl e) \<Rightarrow> Some (d, st, Some e)
      | (d, Inr (f, rest)) \<Rightarrow>
          (case add hash (dtable d) f of
             None \<Rightarrow> None
           | Some t \<Rightarrow>
               (case emit st f of
                  (st, Some e) \<Rightarrow> Some (d\<lparr>dtable := t\<rparr>, st, Some (ErrEmit e))
                | (st, None) \<Rightarrow> decodeLoop hash emit (d\<lparr>dtable := t\<rparr>) st False rest)))
     (case specLiteral (MaxStringLength d) (entries (dtable d)) block 6 of
        Inl e \<Rightarrow> (absDecoder d, st, Some e)
      | Inr (f, rest) \<Rightarrow>
          (let h = (absDecoder d)\<lparr>contents := fit (maxSize (dtable d)) (entries (dtable d) @ [f])\<rparr> in
           case emit st f of
             (st, Some e) \<Rightarrow> (h, st, Some (ErrEmit e))
           | (st, None) \<Rightarrow> specLoop (MaxStringLength d) emit h st False rest))"
proof -
  obtain d1 s where d1: "readLiteral d block 6 = (d1, s)"
    "specLiteral (MaxStringLength d) (entries (dtable d)) block 6 = (s :: 'e hpack_error + _)"
    "decoder_ok d1" "sameConfig d d1"
    using readLiteral_spec [OF ok] by blast
  have same: "absDecoder d1 = absDecoder d" "MaxStringLength d1 = MaxStringLength d" "allowedMaxSize d1 = allowedMaxSize d"
    "dtable d1 = dtable d"
    using sameConfig_abs [OF d1(4)] d1(4) by (auto simp: sameConfig_def)
  show ?thesis
  proof (cases s)
    case (Inl e)
    then show ?thesis using d1 same by (auto intro!: refinesResultI)
  next
    case (Inr r)
    obtain f rest where r: "r = (f, rest)" by fastforce
    have len: "length rest < length block" using readLiteral_consumes d1(1) Inr r by blast
    obtain t where t: "add hash (dtable d) f = Some t" "dec_table_ok t"
      "entries t = fit (maxSize (dtable d)) (entries (dtable d) @ [f])" "maxSize t = maxSize (dtable d)"
      using add_ok [OF decoder_okD(2) [OF ok], of hash f] by (elim exE conjE) (rule that)
    let ?d = "d1\<lparr>dtable := t\<rparr>"
    have ok': "decoder_ok ?d" using decoder_ok_table [OF d1(3) t(2)] t(4) same(4) by simp
    have abs: "(absDecoder d)\<lparr>contents := fit (maxSize (dtable d)) (entries (dtable d) @ [f])\<rparr> = absDecoder ?d"
      using t(3,4) same(1) by (simp add: absDecoder_def)
    note rec = rec [OF len ok' _ _ abs]
    show ?thesis
      using d1(1,2) Inr r t(1) rec same refinesResultI [where d = d, OF ok' _ _ abs]
      by (auto simp: Let_def split: option.splits prod.splits)
  qed
qed

lemma indexed_refines:
  fixes emit :: "'s \<Rightarrow> headerField \<Rightarrow> 's \<times> 'e option"
  assumes ok: "decoder_ok d"
    and rec: "\<And>d' st' rest h. length rest < length block \<Longrightarrow> decoder_ok d' \<Longrightarrow>
      MaxStringLength d' = MaxStringLength d \<Longrightarrow> allowedMaxSize d' = allowedMaxSize d \<Longrightarrow> h = absDecoder d' \<Longrightarrow>
      refinesResult d (decodeLoop hash emit d' st' False rest) (specLoop (MaxStringLength d) emit h st' False rest)"
  shows "refinesResult d
     (case readInt block 7 of
        Inl e \<Rightarrow> Some (d, st, Some e)
      | Inr (i, rest) \<Rightarrow>
          (case field (dtable d) i of
             None \<Rightarrow> Some (d, st, Some ErrInvalidIndex)
           | Some f \<Rightarrow>
               (case emit st f of
                  (st, Some e) \<Rightarrow> Some (d, st, Some (ErrEmit e))
                | (st, None) \<Rightarrow> decodeLoop hash emit d st False rest)))
     (case readInt block 7 of
        Inl e \<Rightarrow> (absDecoder d, st, Some e)
      | Inr (i, rest) \<Rightarrow>
          (case tableLookup (entries (dtable d)) i of
             None \<Rightarrow> (absDecoder d, st, Some ErrInvalidIndex)
           | Some f \<Rightarrow>
               (case emit st f of
                  (st, Some e) \<Rightarrow> (absDecoder d, st, Some (ErrEmit e))
                | (st, None) \<Rightarrow> specLoop (MaxStringLength d) emit (absDecoder d) st False rest)))"
proof -
  have stop: "refinesResult d (Some (d, st', err)) (absDecoder d, st', err)" for st' :: 's and err :: "'e hpack_error option"
    using ok by (simp add: refinesResultI)
  show ?thesis
  proof (cases "readInt block 7 :: 'e hpack_error + _")
    case (Inr r)
    obtain i rest where r: "r = (i, rest)" by fastforce
    have "length rest < length block" using readInt_consumes Inr r by blast
    from rec [OF this ok refl refl refl] show ?thesis
      using Inr r stop field_tableLookup [OF decoder_entries [OF ok], of i]
      by (simp split: option.split prod.split)
  qed (simp add: stop)
qed

lemma update_refines:
  fixes emit :: "'s \<Rightarrow> headerField \<Rightarrow> 's \<times> 'e option"
  assumes ok: "decoder_ok d"
    and rec: "\<And>d' st' rest h. length rest < length block \<Longrightarrow> decoder_ok d' \<Longrightarrow>
      MaxStringLength d' = MaxStringLength d \<Longrightarrow> allowedMaxSize d' = allowedMaxSize d \<Longrightarrow> h = absDecoder d' \<Longrightarrow>
      refinesResult d (decodeLoop hash emit d' st' start rest) (specLoop (MaxStringLength d) emit h st' start rest)"
  shows "refinesResult d
     (case readInt block 5 of
        Inl e \<Rightarrow> Some (d, st, Some e)
      | Inr (sz, rest) \<Rightarrow>
          if sz > word_of_int (allowedMaxSize d) then Some (d, st, Some ErrInvalidSizeUpdate)
          else
            (case setMaxSize hash (dtable d) (sint sz) of
               None \<Rightarrow> None
             | Some t \<Rightarrow> decodeLoop hash emit (d\<lparr>dtable := t, mustShrink := False\<rparr>) st start rest))
     (case readInt block 5 of
        Inl e \<Rightarrow> (absDecoder d, st, Some e)
      | Inr (sz, rest) \<Rightarrow>
          if int (unat sz) > allowedMaxSize d then (absDecoder d, st, Some ErrInvalidSizeUpdate)
          else specLoop (MaxStringLength d) emit ((absDecoder d)\<lparr>contents := fit (int (unat sz)) (entries (dtable d)),
            limit := int (unat sz), shrink := False\<rparr>) st start rest)"
proof (cases "readInt block 5 :: 'e hpack_error + _")
  case (Inl e)
  then show ?thesis using ok by (simp add: refinesResultI)
next
  case (Inr r)
  obtain sz rest where r: "r = (sz, rest)" by fastforce
  have len: "length rest < length block" using readInt_consumes Inr r by blast
  note cond = update_size_cond [OF ok, of sz]
  obtain t where t: "setMaxSize hash (dtable d) (int (unat sz)) = Some t" "dec_table_ok t"
    "entries t = fit (int (unat sz)) (entries (dtable d))" "maxSize t = int (unat sz)"
    using setMaxSize_ok [OF decoder_okD(2) [OF ok], of hash "int (unat sz)"] by (elim exE conjE) (rule that)
  let ?d = "d\<lparr>dtable := t, mustShrink := False\<rparr>"
  have abs: "(absDecoder d)\<lparr>contents := fit (int (unat sz)) (entries (dtable d)), limit := int (unat sz), shrink := False\<rparr> =
      absDecoder ?d"
    using t(3,4) by (simp add: absDecoder_def)
  show ?thesis
  proof (cases "int (unat sz) > allowedMaxSize d")
    case True
    then have "word_of_int (allowedMaxSize d) < sz" using cond(1) by blast
    then show ?thesis using Inr r True ok by (simp add: refinesResultI)
  next
    case False
    then have "\<not> word_of_int (allowedMaxSize d) < sz" "sint sz = int (unat sz)" using cond by blast+
    moreover have "decoder_ok ?d" using decoder_ok_resize [OF ok t(2)] t(4) False by simp
    from rec [OF len this _ _ abs]
    have "refinesResult d (decodeLoop hash emit ?d st start rest) (specLoop (MaxStringLength d) emit
        ((absDecoder d)\<lparr>contents := fit (int (unat sz)) (entries (dtable d)), limit := int (unat sz), shrink := False\<rparr>)
        st start rest)" by simp
    ultimately show ?thesis using Inr r False t(1) by (simp only: sum.case prod.case if_False option.case)
  qed
qed

lemma decodeLoop_refines:
  fixes emit :: "'s \<Rightarrow> headerField \<Rightarrow> 's \<times> 'e option"
  assumes "decoder_ok d"
  shows "refinesResult d (decodeLoop hash emit d st start block)
    (specLoop (MaxStringLength d) emit (absDecoder d) st start block)"
  using assms
proof (induction block arbitrary: d st start rule: measure_induct_rule [where f = length])
  case (less block)
  note ok = less.prems
  have rec: "refinesResult d (decodeLoop hash emit d' st' start' rest) (specLoop (MaxStringLength d) emit h st' start' rest)"
    if "length rest < length block" "decoder_ok d'" "MaxStringLength d' = MaxStringLength d"
      "allowedMaxSize d' = allowedMaxSize d" "h = absDecoder d'"
    for d' st' start' rest h
    using less.IH [OF that(1,2), of st' start'] refinesResult_from that by metis
  have abs: "contents (absDecoder d) = entries (dtable d)" "limit (absDecoder d) = maxSize (dtable d)"
    "allowance (absDecoder d) = allowedMaxSize d"
    by (simp_all add: absDecoder_def)
  note turn = decodeLoop.simps [of hash emit d st start block]
    specLoop.simps [of "MaxStringLength d" emit "absDecoder d" st start block] abs
  show ?case
  proof (cases block)
    case Nil
    then show ?thesis unfolding turn using ok by (simp add: refinesResultI)
  next
    case (Cons b bs)
    consider (indexed) "b AND 0x80 \<noteq> 0" | (literal) "b AND 0x80 = 0" "b AND 0xc0 = 0x40"
      | (update) "b AND 0x80 = 0" "b AND 0xc0 \<noteq> 0x40" "b AND 0xe0 = 0x20"
      | (other) "b AND 0x80 = 0" "b AND 0xc0 \<noteq> 0x40" "b AND 0xe0 \<noteq> 0x20" by blast
    then show ?thesis
    proof cases
      case indexed
      show ?thesis unfolding turn unfolding Cons list.case
        by (simp only: indexed if_True not_False_eq_True) (rule indexed_refines [OF ok rec [unfolded Cons]])
    next
      case literal
      show ?thesis unfolding turn unfolding Cons list.case
        by (simp only: literal if_True if_False simp_thms) (rule indexing_refines [OF ok rec [unfolded Cons]])
    next
      case update
      show ?thesis
      proof (cases start)
        case True
        show ?thesis unfolding turn unfolding Cons list.case
          by (simp only: update True if_True if_False simp_thms) (rule update_refines [OF ok rec [unfolded Cons]])
      next
        case False
        then show ?thesis unfolding turn unfolding Cons using update ok by (simp add: refinesResultI)
      qed
    next
      case other
      show ?thesis unfolding turn unfolding Cons list.case
        by (simp only: other if_True if_False simp_thms) (rule literal_refines [OF ok rec [unfolded Cons]])
    qed
  qed
qed

lemma Decode_refines:
  fixes emit :: "'s \<Rightarrow> headerField \<Rightarrow> 's \<times> 'e option"
  assumes "decoder_ok d"
  shows "refinesResult d (Decode hash emit d st block) (specDecode (MaxStringLength d) emit (absDecoder d) st block)"
proof -
  have shr: "shrink (absDecoder d) = mustShrink d" by (simp add: absDecoder_def)
  show ?thesis
  proof (cases "mustShrink d \<and> (length block = 0 \<or> hd block AND 0xe0 \<noteq> 0x20)")
    case True
    show ?thesis unfolding Decode_def specDecode_def shr if_P [OF True] using assms by (simp add: refinesResultI)
  next
    case False
    show ?thesis unfolding Decode_def specDecode_def shr if_not_P [OF False] by (rule decodeLoop_refines [OF assms])
  qed
qed

lemma NewDecoder_ok:
  assumes "0 \<le> n" "n < 2 ^ 63"
  shows "decoder_ok (NewDecoder n)"
proof -
  have "huffmanAppend [] [] = []" by (simp add: huffmanAppend_def)
  then show ?thesis
    using assms by (simp add: decoder_ok_def caches_ok_def NewDecoder_def dec_table_ok_def recentStrings_def)
qed

lemma SetAllowedMaxSize_ok:
  "decoder_ok d \<Longrightarrow> 0 \<le> n \<Longrightarrow> n < 2 ^ 63 \<Longrightarrow> decoder_ok (SetAllowedMaxSize d n)"
  by (auto simp: decoder_ok_def SetAllowedMaxSize_def caches_ok_def Let_def)

text \<open>
  C4. \<^verbatim>\<open>Decode\<close> refines the specification: on a decoder in order it always returns, and the fields
  it hands to \<open>emit\<close>, the error it returns and the table it leaves are those of a decoder that keeps
  the table as a plain list and remembers no strings. So none of the three string caches, whatever
  blocks came before, ever changes what a block decodes to.
\<close>

theorem decode_refines_spec:
  assumes "decoder_ok d"
  shows "\<exists>d' st' err. Decode hash emit d st block = Some (d', st', err) \<and>
    specDecode (MaxStringLength d) emit (absDecoder d) st block = (absDecoder d', st', err)"
  using Decode_refines [OF assms, of hash emit st block] unfolding refinesResult_def by blast

theorem decode_refines_spec_witness:
  "decoder_ok (NewDecoder 4096) \<and>
   (\<exists>d' st' err. Decode (\<lambda>_. 7) (\<lambda>st f. (st @ [f], None :: unit option)) (NewDecoder 4096) [] [0x82, 0x40, 1, 97, 1, 98] =
      Some (d', st', err) \<and>
    specDecode 0 (\<lambda>st f. (st @ [f], None)) (absDecoder (NewDecoder 4096)) [] [0x82, 0x40, 1, 97, 1, 98] =
      (absDecoder d', st', err))"
  using decode_refines_spec [OF NewDecoder_ok [of 4096], of "\<lambda>_. 7" "\<lambda>st f. (st @ [f], None :: unit option)" "[]"]
    NewDecoder_ok [of 4096]
  by (simp add: NewDecoder_def)

text \<open>
  C5. The decoder's state stays in order: a new decoder is, and every \<^verbatim>\<open>Decode\<close>, also one that
  fails, and every change of the allowance keeps it. In order means that the table's recorded size is
  that of its entries and no more than its limit, that the limit is within what the peer is allowed
  unless a shrinking update is due, and that the caches hold what decoding gives.
\<close>

theorem decoder_invariant:
  assumes "decoder_ok d" and "0 \<le> n" and "n < 2 ^ 63"
  shows "decoder_ok (NewDecoder n) \<and> decoder_ok (SetAllowedMaxSize d n) \<and>
    (\<forall>d' st' err. Decode hash emit d st block = Some (d', st', err) \<longrightarrow> decoder_ok d')"
  using NewDecoder_ok SetAllowedMaxSize_ok assms Decode_refines [OF assms(1), of hash emit st block]
  unfolding refinesResult_def by auto

theorem decoder_invariant_witness:
  "decoder_ok (NewDecoder 4096) \<and> decoder_ok (SetAllowedMaxSize (NewDecoder 4096) 100) \<and>
   (\<exists>d' st' err. Decode (\<lambda>_. 7) (\<lambda>st f. (st, None :: unit option)) (NewDecoder 4096) () [0x40, 1, 97, 1] =
      Some (d', st', err) \<and> decoder_ok d')"
  using decoder_invariant [OF NewDecoder_ok [of 4096], of 100 "\<lambda>_. 7" "\<lambda>st f. (st, None :: unit option)" "()"
      "[0x40, 1, 97, 1]"] NewDecoder_ok [of 4096]
    Decode_refines [OF NewDecoder_ok [of 4096], of "\<lambda>_. 7" "\<lambda>st f. (st, None :: unit option)" "()" "[0x40, 1, 97, 1]"]
  by (auto simp: refinesResult_def)

end
