(* ===== verification/Hpack_Encoder.thy ===== *)
theory Hpack_Encoder
  imports Hpack_Spec
begin

text \<open>
  The HPACK encoder of \<^verbatim>\<open>hpack/hpack.go\<close>: the table size it agrees with the peer, and each field
  written as an index, as a literal that both tables then keep, or as a literal that neither keeps.
  With an index over its table the encoder looks a field up by hash, without one it searches; the
  two give the same bytes.
\<close>

record Encoder =
  etable :: dynamicTable
  pendingSize :: bool
  minPending :: int
  tableLimit :: int
  allowedSize :: int

definition NewEncoder :: Encoder where
  "NewEncoder =
     \<lparr>etable = \<lparr>entries = [], tsize = 0, maxSize = DefaultTableSize, first = 0, index = None\<rparr>,
      pendingSize = False, minPending = 0, tableLimit = DefaultTableSize, allowedSize = DefaultTableSize\<rparr>"

definition SetMaxTableSize :: "(bytes \<Rightarrow> uint64) \<Rightarrow> Encoder \<Rightarrow> int \<Rightarrow> Encoder option" where
  "SetMaxTableSize hash e n =
     (let e = e\<lparr>allowedSize := n\<rparr>;
          n = (if n > tableLimit e then tableLimit e else n)
      in if n = maxSize (etable e) then Some e
         else
           (let e = (if \<not> pendingSize e \<or> n < minPending e then e\<lparr>minPending := n\<rparr> else e);
                e = e\<lparr>pendingSize := True\<rparr>
            in map_option (\<lambda>t. e\<lparr>etable := t\<rparr>) (setMaxSize hash (etable e) n)))"

definition SetTableSizeLimit :: "(bytes \<Rightarrow> uint64) \<Rightarrow> Encoder \<Rightarrow> int \<Rightarrow> Encoder option" where
  "SetTableSizeLimit hash e n =
     SetMaxTableSize hash (e\<lparr>tableLimit := min (max n 0) MaxEncoderTableSize\<rparr>) (allowedSize e)"

definition Begin :: "Encoder \<Rightarrow> bytes \<Rightarrow> Encoder \<times> bytes" where
  "Begin e dst =
     (if \<not> pendingSize e then (e, dst)
      else
        (let e = e\<lparr>pendingSize := False\<rparr>;
             dst = (if minPending e < maxSize (etable e) then appendInt dst 0x20 5 (word_of_int (minPending e)) else dst)
         in (e, appendInt dst 0x20 5 (word_of_int (maxSize (etable e))))))"

subsection \<open>Fields\<close>

text \<open>The maps \<^verbatim>\<open>init\<close> fills from the last entry of the static table to the first.\<close>

definition staticPairIndex :: "headerField \<rightharpoonup> nat" where
  "staticPairIndex = foldl (\<lambda>m i. m(staticTable ! i \<mapsto> i + 1)) Map.empty (rev [0..<length staticTable])"

definition staticNameIndex :: "bytes \<rightharpoonup> nat" where
  "staticNameIndex = foldl (\<lambda>m i. m(Name (staticTable ! i) \<mapsto> i + 1)) Map.empty (rev [0..<length staticTable])"

definition appendString :: "bytes \<Rightarrow> bytes \<Rightarrow> bytes" where
  "appendString dst s =
     (let n = huffmanLen s in
      if n < length s then huffmanAppend (appendInt dst 0x80 7 (of_nat n)) s
      else appendInt dst 0x00 7 (of_nat (length s)) @ s)"

text \<open>
  The search of the table from the newest entry: \<open>Inl\<close> the index of an entry with the name and the
  value, or \<open>Inr\<close> the index to name the field by, 0 if there is none.
\<close>

fun searchLoop :: "headerField list \<Rightarrow> bytes \<Rightarrow> bytes \<Rightarrow> nat \<Rightarrow> nat \<Rightarrow> nat + nat" where
  "searchLoop es name val 0 nameIndex = Inr nameIndex"
| "searchLoop es name val (Suc i) nameIndex =
     (let f = es ! i in
      if Name f \<noteq> name then searchLoop es name val i nameIndex
      else
        (let idx = length staticTable + length es - i in
         if Value f = val then Inl idx
         else searchLoop es name val i (if nameIndex = 0 then idx else nameIndex)))"

text \<open>The lookup by hash, with the hashes of the name and of the pair.\<close>

definition hashLookup :: "(bytes \<Rightarrow> uint64) \<Rightarrow> dynamicTable \<Rightarrow> bytes \<Rightarrow> bytes \<Rightarrow> nat \<Rightarrow> (nat + nat) option" where
  "hashLookup hash t name val nameIndex = do {
     x \<leftarrow> index t;
     let nameHash = hashName hash name;
     let pairHash = hashPair hash nameHash val;
     p \<leftarrow> findEntry t (pairs x) pairHash name val True;
     if p \<ge> 0 then Some (Inl (nat (int (length staticTable) + int (length (entries t)) - p)))
     else if nameIndex = 0 then do {
       p \<leftarrow> findEntry t (names x) nameHash name [] False;
       Some (Inr (if p \<ge> 0 then nat (int (length staticTable) + int (length (entries t)) - p) else nameIndex))
     }
     else Some (Inr nameIndex)
   }"

definition AppendField :: "(bytes \<Rightarrow> uint64) \<Rightarrow> Encoder \<Rightarrow> bytes \<Rightarrow> bytes \<Rightarrow> bytes \<Rightarrow> bool \<Rightarrow> (Encoder \<times> bytes) option" where
  "AppendField hash e dst name val sensitive =
     (case staticPairIndex \<lparr>Name = name, Value = val\<rparr> of
        Some i \<Rightarrow> Some (e, appendInt dst 0x80 7 (of_nat i))
      | None \<Rightarrow> do {
          let nameIndex = (case staticNameIndex name of Some i \<Rightarrow> i | None \<Rightarrow> 0);
          let t = etable e;
          let hashed = (index t \<noteq> None \<and> length (entries t) > indexFrom);
          found \<leftarrow> (if hashed then hashLookup hash t name val nameIndex
                   else Some (searchLoop (entries t) name val (length (entries t)) nameIndex));
          case found of
            Inl i \<Rightarrow> Some (e, appendInt dst 0x80 7 (of_nat i))
          | Inr nameIndex \<Rightarrow> do {
              let f = \<lparr>Name = name, Value = val\<rparr>;
              (t, dst) \<leftarrow>
                (if sensitive then Some (t, appendInt dst 0x10 4 (of_nat nameIndex))
                 else if fsize f > maxSize t sdiv 2 then Some (t, appendInt dst 0x00 4 (of_nat nameIndex))
                 else do {
                   let nameHash = (if hashed then hashName hash name else 0);
                   let pairHash = (if hashed then hashPair hash nameHash val else 0);
                   t \<leftarrow> addIndexed hash t f nameHash pairHash hashed;
                   Some (t, appendInt dst 0x40 6 (of_nat nameIndex))
                 });
              let dst = (if nameIndex = 0 then appendString dst name else dst);
              Some (e\<lparr>etable := t\<rparr>, appendString dst val)
            }
        })"

subsection \<open>The specification of an appended field\<close>

definition specAppend :: "headerField list \<Rightarrow> int \<Rightarrow> bytes \<Rightarrow> bytes \<Rightarrow> bool \<Rightarrow> headerField list \<times> bytes" where
  "specAppend es lim name val sensitive =
     (let f = \<lparr>Name = name, Value = val\<rparr> in
      case staticPairIndex f of
        Some i \<Rightarrow> (es, appendInt [] 0x80 7 (of_nat i))
      | None \<Rightarrow>
          (case searchLoop es name val (length es) (case staticNameIndex name of Some i \<Rightarrow> i | None \<Rightarrow> 0) of
             Inl i \<Rightarrow> (es, appendInt [] 0x80 7 (of_nat i))
           | Inr i \<Rightarrow>
               (let strings = (if i = 0 then appendString [] name else []) @ appendString [] val in
                if sensitive then (es, appendInt [] 0x10 4 (of_nat i) @ strings)
                else if fsize f > lim sdiv 2 then (es, appendInt [] 0x00 4 (of_nat i) @ strings)
                else (fit lim (es @ [f]), appendInt [] 0x40 6 (of_nat i) @ strings))))"

subsection \<open>Search and lookup agree\<close>

lemma searchLoop_pair:
  assumes "q < i" "i \<le> length es" "sameKey True (es ! q) \<lparr>Name = name, Value = val\<rparr>"
    and "\<And>k. q < k \<Longrightarrow> k < i \<Longrightarrow> \<not> sameKey True (es ! k) \<lparr>Name = name, Value = val\<rparr>"
  shows "searchLoop es name val i ni = Inl (length staticTable + length es - q)"
  using assms
proof (induction i arbitrary: ni)
  case (Suc i)
  then show ?case by (cases "q = i") (auto simp: sameKey_def Let_def)
qed simp

lemma searchLoop_keep:
  assumes "\<And>k. k < i \<Longrightarrow> \<not> sameKey True (es ! k) \<lparr>Name = name, Value = val\<rparr>" and "ni \<noteq> 0"
  shows "searchLoop es name val i ni = Inr ni"
  using assms by (induction i) (auto simp: sameKey_def Let_def)

lemma searchLoop_named:
  assumes "\<And>k. k < i \<Longrightarrow> \<not> sameKey True (es ! k) \<lparr>Name = name, Value = val\<rparr>" and "i \<le> length es"
    and "q < i" "Name (es ! q) = name" and "\<And>k. q < k \<Longrightarrow> k < i \<Longrightarrow> Name (es ! k) \<noteq> name"
  shows "searchLoop es name val i 0 = Inr (length staticTable + length es - q)"
  using assms
proof (induction i)
  case (Suc i)
  show ?case
  proof (cases "q = i")
    case True
    moreover have "Value (es ! i) \<noteq> val" using Suc.prems(1) [of i] Suc.prems(4) True by (auto simp: sameKey_def)
    ultimately show ?thesis using Suc.prems searchLoop_keep [of i es name val] by (simp add: Let_def)
  next
    case False
    then have "Name (es ! i) \<noteq> name" using Suc.prems(3,5) by simp
    then show ?thesis using Suc False by (simp add: Let_def)
  qed
qed simp

lemma searchLoop_none:
  assumes "\<And>k. k < i \<Longrightarrow> Name (es ! k) \<noteq> name"
  shows "searchLoop es name val i ni = Inr ni"
  using assms by (induction i) (auto simp: Let_def)

lemma hashLookup_search:
  assumes t: "enc_table_ok hash t" and x: "index t = Some x"
  shows "hashLookup hash t name val ni = Some (searchLoop (entries t) name val (length (entries t)) ni)"
proof -
  let ?es = "entries t" and ?f = "\<lparr>Name = name, Value = val\<rparr>" and ?n = "\<lparr>Name = name, Value = []\<rparr>"
  obtain e where h: "index_holds hash ?es (first t) e 0 x"
    using t x by (auto simp: enc_table_ok_def index_sized_def indexed_def)
  then have ix: "idx_mask x = of_nat (2 ^ e - 1)" "e \<le> 64" "indexes hash False ?es (first t) e 0 (names x)"
    "indexes hash True ?es (first t) e 0 (pairs x)"
    by (auto simp: index_holds_def)
  obtain p where p: "findEntry t (pairs x) (hashPair hash (hashName hash name) val) name val True = Some p"
    "lookup True ?es ?f p"
    using findEntry_lookup [OF x ix(1,2,4), of ?f] unfolding keyHash_simps headerField.simps by blast
  obtain k where k: "findEntry t (names x) (hashName hash name) name [] False = Some k" "lookup False ?es ?n k"
    using findEntry_lookup [OF x ix(1,2,3), of ?n] unfolding keyHash_simps headerField.simps by blast
  have len: "length ?es < 2 ^ 16" using enc_table_room(1) [OF t] by simp
  show ?thesis
  proof (cases "p \<ge> 0")
    case True
    then obtain q where q: "p = int q" "newest True ?es q" "sameKey True (?es ! q) ?f"
      using p(2) by (auto simp: lookup_def)
    have "\<not> sameKey True (?es ! i) ?f" if "q < i" "i < length ?es" for i
      using q(2) that sameKey_trans [OF _ sameKey_sym [OF q(3)], of "?es ! i"] by (auto simp: newest_def)
    then have "searchLoop ?es name val (length ?es) ni = Inl (length staticTable + length ?es - q)"
      using newest_less [OF q(2)] q(3) by (intro searchLoop_pair) auto
    then show ?thesis using q(1) p(1) x by (simp add: hashLookup_def Let_def nat_diff_distrib' nat_add_distrib)
  next
    case False
    then have none: "\<not> sameKey True (?es ! i) ?f" if "i < length ?es" for i
      using p(2) that by (auto simp: lookup_def)
    show ?thesis
    proof (cases "ni = 0")
      case ni: True
      show ?thesis
      proof (cases "k \<ge> 0")
        case True
        then obtain q where q: "k = int q" "newest False ?es q" "Name (?es ! q) = name"
          using k(2) by (auto simp: lookup_def sameKey_def)
        then have "searchLoop ?es name val (length ?es) 0 = Inr (length staticTable + length ?es - q)"
          using none by (intro searchLoop_named) (auto simp: newest_def sameKey_def)
        then show ?thesis using q(1) p(1) k(1) x False ni
          by (simp add: hashLookup_def Let_def nat_diff_distrib' nat_add_distrib)
      next
        case neg: False
        then have "Name (?es ! i) \<noteq> name" if "i < length ?es" for i
          using k(2) that by (auto simp: lookup_def sameKey_def)
        then have "searchLoop ?es name val (length ?es) 0 = Inr 0" by (intro searchLoop_none)
        then show ?thesis using p(1) k(1) x False ni neg by (simp add: hashLookup_def Let_def)
      qed
    next
      case ni: False
      then have "searchLoop ?es name val (length ?es) ni = Inr ni" using none by (intro searchLoop_keep) auto
      then show ?thesis using p(1) x False ni by (simp add: hashLookup_def Let_def)
    qed
  qed
qed

lemma appendString_append: "appendString dst s = dst @ appendString [] s"
proof -
  have "huffmanAppend (appendInt dst 0x80 7 n) s = dst @ huffmanAppend (appendInt [] 0x80 7 n) s" for n
    using appendInt_append [of dst "0x80" 7 n] huffmanAppend_append [of "dst @ appendInt [] 0x80 7 n" s]
      huffmanAppend_append [of "appendInt [] 0x80 7 n" s] by simp
  moreover have "appendInt dst 0 7 n @ s = dst @ appendInt [] 0 7 n @ s" for n
    using appendInt_append [of dst 0 7 n] by simp
  ultimately show ?thesis by (simp add: appendString_def Let_def)
qed

lemma AppendField_spec:
  assumes ok: "enc_table_ok hash (etable e)"
    and spec: "specAppend (entries (etable e)) (maxSize (etable e)) name val sensitive = (es', out)"
  shows "\<exists>t. AppendField hash e dst name val sensitive = Some (e\<lparr>etable := t\<rparr>, dst @ out) \<and>
    enc_table_ok hash t \<and> entries t = es' \<and> maxSize t = maxSize (etable e)"
proof -
  let ?t = "etable e" and ?f = "\<lparr>Name = name, Value = val\<rparr>"
  let ?ni = "case staticNameIndex name of Some i \<Rightarrow> i | None \<Rightarrow> 0"
  let ?hashed = "index ?t \<noteq> None \<and> length (entries ?t) > indexFrom"
  let ?found = "searchLoop (entries ?t) name val (length (entries ?t)) ?ni"
  have found: "(if ?hashed then hashLookup hash ?t name val ?ni else Some ?found) = Some ?found"
    using hashLookup_search [OF ok] by auto
  let ?nh = "if ?hashed then hashName hash name else 0"
  let ?ph = "if ?hashed then hashPair hash ?nh val else 0"
  obtain t' where t': "addIndexed hash ?t ?f ?nh ?ph ?hashed = Some t'" "enc_table_ok hash t'"
    "entries t' = fit (maxSize ?t) (entries ?t @ [?f])" "maxSize t' = maxSize ?t"
    using addIndexed_ok [OF ok, of ?hashed ?nh ?f ?ph] by auto
  show ?thesis
  proof (cases "staticPairIndex ?f")
    case (Some i)
    then have "AppendField hash e dst name val sensitive = Some (e\<lparr>etable := ?t\<rparr>, dst @ out)" "es' = entries ?t"
      using spec appendInt_append [of dst "0x80" 7 "of_nat i"] by (auto simp: AppendField_def specAppend_def)
    then show ?thesis using ok by (intro exI [of _ ?t]) simp
  next
    case None
    show ?thesis
    proof (cases ?found)
      case (Inl i)
      then have "AppendField hash e dst name val sensitive = Some (e\<lparr>etable := ?t\<rparr>, dst @ out)" "es' = entries ?t"
        using spec None found appendInt_append [of dst "0x80" 7 "of_nat i"]
        by (auto simp: AppendField_def specAppend_def Let_def)
      then show ?thesis using ok by (intro exI [of _ ?t]) simp
    next
      case (Inr i)
      let ?str = "(if i = 0 then appendString [] name else []) @ appendString [] val"
      have str: "appendString (if i = 0 then appendString d name else d) val = d @ ?str" for d
        using appendString_append [of d name] appendString_append [of "d @ appendString [] name" val]
          appendString_append [of d val] by simp
      have "AppendField hash e dst name val sensitive =
          (if sensitive then Some (e\<lparr>etable := ?t\<rparr>, appendInt dst 0x10 4 (of_nat i) @ ?str)
           else if fsize ?f > maxSize ?t sdiv 2 then Some (e\<lparr>etable := ?t\<rparr>, appendInt dst 0x00 4 (of_nat i) @ ?str)
           else Some (e\<lparr>etable := t'\<rparr>, appendInt dst 0x40 6 (of_nat i) @ ?str))"
        using None found Inr t'(1) str unfolding AppendField_def Let_def by simp
      moreover have "(es', out) =
          (if sensitive then (entries ?t, appendInt [] 0x10 4 (of_nat i) @ ?str)
           else if fsize ?f > maxSize ?t sdiv 2 then (entries ?t, appendInt [] 0x00 4 (of_nat i) @ ?str)
           else (fit (maxSize ?t) (entries ?t @ [?f]), appendInt [] 0x40 6 (of_nat i) @ ?str))"
        using spec None Inr by (simp add: specAppend_def Let_def)
      moreover note appendInt_append [of dst "0x10" 4 "of_nat i"] appendInt_append [of dst "0x00" 4 "of_nat i"]
          appendInt_append [of dst "0x40" 6 "of_nat i"]
      ultimately show ?thesis
        using ok t'(2-4)
        by (intro exI [of _ "if sensitive \<or> fsize ?f > maxSize ?t sdiv 2 then ?t else t'"]) (auto split: if_splits)
    qed
  qed
qed

subsection \<open>What an index names\<close>

lemma static_index:
  assumes "foldl (\<lambda>m i. m(g i \<mapsto> i + 1)) m (rev [0..<n]) k = Some i"
  shows "m k = Some i \<or> (0 < i \<and> i \<le> n \<and> g (i - 1) = k)"
  using assms
proof (induction n arbitrary: m)
  case (Suc n)
  then have "foldl (\<lambda>m i. m(g i \<mapsto> i + 1)) (m(g n \<mapsto> n + 1)) (rev [0..<n]) k = Some i"
    by (simp only: upt_Suc_append rev_append rev.simps append.simps foldl.simps le0)
  from Suc.IH [OF this] show ?case by (auto split: if_splits)
qed simp

lemma staticPairIndex_lookup:
  assumes "staticPairIndex f = Some i"
  shows "0 < i" "i \<le> 61" "staticTable ! (i - 1) = f"
  using static_index [of "\<lambda>i. staticTable ! i" Map.empty "length staticTable" f i] assms
  by (auto simp: staticPairIndex_def)

lemma staticNameIndex_lookup:
  assumes "staticNameIndex name = Some i"
  shows "0 < i" "i \<le> 61" "Name (staticTable ! (i - 1)) = name"
  using static_index [of "\<lambda>i. Name (staticTable ! i)" Map.empty "length staticTable" name i] assms
  by (auto simp: staticNameIndex_def)

lemma tableLookup_static:
  assumes "0 < i" "i \<le> 61"
  shows "tableLookup es (of_nat i) = Some (staticTable ! (i - 1))"
proof -
  have "unat (of_nat i :: uint64) = i" using assms by (simp add: unat_of_nat)
  moreover from this assms have "(of_nat i :: uint64) \<noteq> 0" by (metis less_numeral_extra(3) unat_0)
  ultimately show ?thesis using assms by (simp add: tableLookup_def nth_append)
qed

lemma tableLookup_dynamic:
  assumes "q < length es" "length es < 2 ^ 63"
  shows "tableLookup es (of_nat (length staticTable + length es - q)) = Some (es ! q)"
proof -
  define i where "i = length staticTable + length es - q"
  have i: "0 < i" "i < 2 ^ 64" "i - 1 = 61 + (length es - 1 - q)" using assms by (simp_all add: i_def)
  then have u: "unat (of_nat i :: uint64) = i" by (simp add: unat_of_nat)
  moreover from u i(1) have "(of_nat i :: uint64) \<noteq> 0" by (metis less_numeral_extra(3) unat_0)
  moreover have "slice_at (staticTable @ rev es) (i - 1) = Some (es ! q)"
    unfolding i(3) using assms by (simp add: nth_append rev_nth)
  ultimately show ?thesis unfolding i_def [symmetric] tableLookup_def by simp
qed

lemma searchLoop_index:
  assumes "searchLoop es name val i ni = r" "i \<le> length es"
  shows "(\<exists>q<length es. r = Inl (length staticTable + length es - q) \<and> es ! q = \<lparr>Name = name, Value = val\<rparr>) \<or>
    r = Inr ni \<or> (ni = 0 \<and> (\<exists>q<length es. r = Inr (length staticTable + length es - q) \<and> Name (es ! q) = name))"
  using assms
proof (induction i arbitrary: ni)
  case (Suc i)
  show ?case
  proof (cases "Name (es ! i) = name")
    case False
    then show ?thesis using Suc by (simp add: Let_def)
  next
    case name: True
    show ?thesis
    proof (cases "Value (es ! i) = val")
      case True
      then show ?thesis using Suc.prems name by (auto simp: Let_def intro!: exI [of _ i])
    next
      case False
      let ?idx = "length staticTable + length es - i"
      have "searchLoop es name val i (if ni = 0 then ?idx else ni) = r" using Suc.prems name False by (simp add: Let_def split: if_splits)
      moreover have "?idx \<noteq> 0" using Suc.prems(2) by simp
      ultimately show ?thesis using Suc.IH [of "if ni = 0 then ?idx else ni"] Suc.prems(2) name
        by (cases "ni = 0") (auto simp: Suc_le_eq)
    qed
  qed
qed simp

subsection \<open>Reading what is written\<close>

lemma byte_clear: "b AND NOT (mask n) = v \<Longrightarrow> m AND mask n = 0 \<Longrightarrow> b AND m = v AND m" for b v m :: byte
proof (rule bit_word_eqI)
  fix k assume "b AND NOT (mask n) = v" "m AND mask n = 0" "k < LENGTH(8)"
  moreover from this have "bit m k \<Longrightarrow> \<not> bit (mask n :: byte) k" using and_zero_bit by blast
  ultimately show "bit (b AND m) k = bit (v AND m) k" by (auto simp: bit_and_iff bit_not_iff bit_mask_iff)
qed

lemma appendInt_first:
  assumes "n \<le> 8" "lead AND mask n = 0"
  obtains b bs where "appendInt [] lead n v = b # bs" "b AND NOT (mask n) = lead"
proof -
  have low: "(lead OR ucast w) AND NOT (mask n) = lead" if "unat (w :: uint64) < 2 ^ n" for w
  proof (rule bit_word_eqI)
    fix k assume "k < LENGTH(8)"
    moreover have "bit lead k \<Longrightarrow> \<not> bit (mask n :: byte) k" using assms(2) and_zero_bit by blast
    moreover have "bit w k \<Longrightarrow> k < n" using that unat_less_bit by blast
    ultimately show "bit ((lead OR ucast w) AND NOT (mask n)) k = bit lead k"
      by (auto simp: bit_and_iff bit_or_iff bit_not_iff bit_mask_iff bit_unsigned_iff)
  qed
  show thesis
  proof (cases "v < push_bit n 1 - 1")
    case True
    then have "unat v < 2 ^ n"
      using assms(1) unat_mask [of n, where 'a = 64] unfolding prefix_mask word_less_nat_alt by simp
    then show thesis using True low that by (simp add: appendInt_def Let_def)
  next
    case False
    have "unat (mask n :: uint64) < 2 ^ n" using assms(1) unat_mask [of n, where 'a = 64] by simp
    moreover have "appendInt [] lead n v = [lead OR ucast (push_bit n 1 - 1 :: uint64)] @ appendIntLoop [] (v - (push_bit n 1 - 1))"
      using False appendIntLoop_Nil [of "[lead OR ucast (push_bit n 1 - 1 :: uint64)]"] by (simp add: appendInt_def Let_def)
    ultimately show thesis using low that prefix_mask by (metis append_Cons append_Nil)
  qed
qed

lemma readInt_written:
  assumes "1 \<le> n" "n \<le> 8" "lead AND mask n = 0" "i < 2 ^ 56"
  shows "readInt (appendInt [] lead n (of_nat i) @ rest) n = Inr (of_nat i, rest)"
proof -
  have "unat (of_nat i :: uint64) = i" using assms(4) by (simp add: unat_of_nat)
  then have "unat (of_nat i :: uint64) < 2 ^ n - 1 + 2 ^ 56" using assms(4) by linarith
  then show ?thesis using readInt_appendInt [OF assms(1-3), of "of_nat i" rest] by simp
qed

lemma specString_read:
  assumes "block = b # bs" and "readInt block 7 = (Inr (of_nat (length raw), raw @ rest) :: 'e hpack_error + _)"
    and "length (raw @ rest) < 2 ^ 63"
  shows "specString maxLen block =
     (if b AND 0x80 \<noteq> 0 then (case huffmanDecode raw maxLen of Inl e \<Rightarrow> Inl e | Inr out \<Rightarrow> Inr (out, rest))
      else if maxLen > 0 \<and> int (length raw) > maxLen then Inl ErrStringTooLong
      else (Inr (raw, rest) :: 'e hpack_error + _))"
proof -
  have u: "unat (of_nat (length raw) :: uint64) = length raw"
    by (rule unat_len) (use assms(3) in simp)
  have "unat (of_nat (length (raw @ rest)) :: uint64) = length (raw @ rest)" by (rule unat_len [OF assms(3)])
  then have "\<not> of_nat (length raw) > (of_nat (length (raw @ rest)) :: uint64)"
    unfolding word_less_nat_alt u by simp
  moreover have "take (length raw) (raw @ rest) = raw" "drop (length raw) (raw @ rest) = rest" by simp_all
  ultimately show ?thesis
    unfolding specString_def assms(2) unfolding assms(1) by (simp only: list.case sum.case prod.case if_False Let_def u)
qed

lemma string_lead: "(0x80 :: byte) AND mask 7 = 0" "(0 :: byte) AND mask 7 = 0"
  by (simp_all add: mask_eq_exp_minus_1)

lemma specString_written:
  assumes len: "length s < 2 ^ 56" and max: "maxLen > 0 \<Longrightarrow> int (length s) \<le> maxLen" and room: "length (appendString [] s @ rest) < 2 ^ 63"
  shows "specString maxLen (appendString [] s @ rest) = (Inr (s, rest) :: 'e hpack_error + _)"
proof (cases "huffmanLen s < length s")
  case True
  let ?n = "huffmanLen s" and ?h = "huffmanAppend [] s"
  have h: "length ?h = ?n" using length_huffmanAppend [of "[]" s] by simp
  have out: "appendString [] s @ rest = appendInt [] 0x80 7 (of_nat ?n) @ ?h @ rest"
    using True huffmanAppend_append [of "appendInt [] 0x80 7 (of_nat ?n)" s] by (simp add: appendString_def Let_def)
  obtain b bs where b: "appendInt [] 0x80 7 (of_nat ?n) = b # bs" "b AND NOT (mask 7) = 0x80"
    using appendInt_first [of 7 "0x80"] string_lead by auto
  have "b AND 0x80 = 0x80 AND 0x80" using byte_clear [OF b(2), of "0x80"] string_lead by simp
  then have high: "b AND 0x80 \<noteq> 0" by simp
  have "readInt (appendString [] s @ rest) 7 = (Inr (of_nat (length ?h), ?h @ rest) :: 'e hpack_error + _)"
    unfolding out h using readInt_written [of 7 "0x80" ?n "?h @ rest"] string_lead True len by simp
  moreover have "appendString [] s @ rest = b # bs @ ?h @ rest" unfolding out b(1) by simp
  from specString_read [OF this calculation] have "specString maxLen (appendString [] s @ rest) =
      (case huffmanDecode ?h maxLen of Inl e \<Rightarrow> Inl e | Inr out \<Rightarrow> (Inr (out, rest) :: 'e hpack_error + _))"
    using high room unfolding out by simp
  moreover have "huffmanDecode ?h maxLen = (Inr s :: 'e hpack_error + _)" using max by (simp add: huffmanDecode_iff)
  ultimately show ?thesis by simp
next
  case False
  have out: "appendString [] s @ rest = appendInt [] 0 7 (of_nat (length s)) @ s @ rest"
    using False by (simp add: appendString_def Let_def)
  obtain b bs where b: "appendInt [] 0 7 (of_nat (length s)) = b # bs" "b AND NOT (mask 7) = 0"
    using appendInt_first [of 7 0] string_lead by auto
  have "b AND 0x80 = 0 AND 0x80" using byte_clear [OF b(2), of "0x80"] string_lead by simp
  then have high: "b AND 0x80 = 0" by simp
  have "readInt (appendString [] s @ rest) 7 = (Inr (of_nat (length s), s @ rest) :: 'e hpack_error + _)"
    unfolding out using readInt_written [of 7 0 "length s" "s @ rest"] string_lead len by simp
  moreover have "appendString [] s @ rest = b # bs @ s @ rest" unfolding out b(1) by simp
  from specString_read [OF this calculation, of maxLen] show ?thesis using high max room unfolding out by auto
qed

text \<open>A field is in range when its strings, and what follows it in the block, are.\<close>

definition inRange :: "int \<Rightarrow> bytes \<Rightarrow> bytes \<Rightarrow> bool" where
  "inRange maxLen name val \<longleftrightarrow>
     length name < 2 ^ 56 \<and> length val < 2 ^ 56 \<and>
     (maxLen > 0 \<longrightarrow> int (length name) \<le> maxLen \<and> int (length val) \<le> maxLen)"

lemma specLiteral_written:
  assumes n: "1 \<le> n" "n \<le> 8" "lead AND mask n = 0" and i: "i < 2 ^ 56" and ok: "inRange maxLen name val"
    and named: "i \<noteq> 0 \<Longrightarrow> \<exists>g. tableLookup es (of_nat i) = Some g \<and> Name g = name"
    and room: "length (appendInt [] lead n (of_nat i) @ (if i = 0 then appendString [] name else []) @ appendString [] val @ rest) < 2 ^ 63"
  shows "specLiteral maxLen es
      (appendInt [] lead n (of_nat i) @ (if i = 0 then appendString [] name else []) @ appendString [] val @ rest) n =
    (Inr (\<lparr>Name = name, Value = val\<rparr>, rest) :: 'e hpack_error + _)"
proof -
  let ?str = "(if i = 0 then appendString [] name else []) @ appendString [] val @ rest"
  have val: "specString maxLen (appendString [] val @ rest) = (Inr (val, rest) :: 'e hpack_error + _)"
    using ok room by (intro specString_written) (auto simp: inRange_def)
  have "specName maxLen es (of_nat i) ?str = (Inr (name, appendString [] val @ rest) :: 'e hpack_error + _)"
  proof (cases "i = 0")
    case True
    have "specString maxLen (appendString [] name @ appendString [] val @ rest) =
        (Inr (name, appendString [] val @ rest) :: 'e hpack_error + _)"
      using ok room True by (intro specString_written) (auto simp: inRange_def)
    then show ?thesis using True by (simp add: specName_def)
  next
    case False
    have "unat (of_nat i :: uint64) = i" using i by (simp add: unat_of_nat)
    then have "(of_nat i :: uint64) > 0" using False by (simp add: word_less_nat_alt)
    then show ?thesis using named [OF False] False by (auto simp: specName_def)
  qed
  moreover have "readInt (appendInt [] lead n (of_nat i) @ ?str) n = (Inr (of_nat i, ?str) :: 'e hpack_error + _)"
    by (rule readInt_written [OF n i])
  ultimately show ?thesis using val unfolding specLiteral_def by simp
qed

lemma lead_bytes:
  fixes b :: byte
  shows "b AND NOT (mask 7) = 0x80 \<Longrightarrow> b AND 0x80 \<noteq> 0"
    and "b AND NOT (mask 6) = 0x40 \<Longrightarrow> b AND 0x80 = 0 \<and> b AND 0xc0 = 0x40"
    and "b AND NOT (mask 5) = 0x20 \<Longrightarrow> b AND 0x80 = 0 \<and> b AND 0xc0 \<noteq> 0x40 \<and> b AND 0xe0 = 0x20"
    and "b AND NOT (mask 4) = 0x10 \<Longrightarrow> b AND 0x80 = 0 \<and> b AND 0xc0 \<noteq> 0x40 \<and> b AND 0xe0 \<noteq> 0x20"
    and "b AND NOT (mask 4) = 0 \<Longrightarrow> b AND 0x80 = 0 \<and> b AND 0xc0 \<noteq> 0x40 \<and> b AND 0xe0 \<noteq> 0x20"
proof -
  have m: "(m :: byte) AND mask n = 0 \<Longrightarrow> b AND NOT (mask n) = v \<Longrightarrow> b AND m = v AND m" for m n v
    using byte_clear by blast
  show "b AND NOT (mask 7) = 0x80 \<Longrightarrow> b AND 0x80 \<noteq> 0"
    using m [of "0x80" 7] by (simp add: mask_eq_exp_minus_1)
  show "b AND NOT (mask 6) = 0x40 \<Longrightarrow> b AND 0x80 = 0 \<and> b AND 0xc0 = 0x40"
    using m [of "0x80" 6] m [of "0xc0" 6] by (simp add: mask_eq_exp_minus_1)
  show "b AND NOT (mask 5) = 0x20 \<Longrightarrow> b AND 0x80 = 0 \<and> b AND 0xc0 \<noteq> 0x40 \<and> b AND 0xe0 = 0x20"
    using m [of "0x80" 5] m [of "0xc0" 5] m [of "0xe0" 5] by (simp add: mask_eq_exp_minus_1)
  show "b AND NOT (mask 4) = 0x10 \<Longrightarrow> b AND 0x80 = 0 \<and> b AND 0xc0 \<noteq> 0x40 \<and> b AND 0xe0 \<noteq> 0x20"
    using m [of "0x80" 4] m [of "0xc0" 4] m [of "0xe0" 4] by (simp add: mask_eq_exp_minus_1)
  show "b AND NOT (mask 4) = 0 \<Longrightarrow> b AND 0x80 = 0 \<and> b AND 0xc0 \<noteq> 0x40 \<and> b AND 0xe0 \<noteq> 0x20"
    using m [of "0x80" 4] m [of "0xc0" 4] m [of "0xe0" 4] by (simp add: mask_eq_exp_minus_1)
qed

definition emitThen :: "int \<Rightarrow> ('s \<Rightarrow> headerField \<Rightarrow> 's \<times> 'e option) \<Rightarrow> hpackState \<Rightarrow> 's \<Rightarrow> headerField \<Rightarrow> bytes \<Rightarrow>
    hpackState \<times> 's \<times> 'e hpack_error option" where
  "emitThen maxLen emit h st f rest =
     (case emit st f of
        (st, Some e) \<Rightarrow> (h, st, Some (ErrEmit e))
      | (st, None) \<Rightarrow> specLoop maxLen emit h st False rest)"

lemma lead_masks:
  "(0x80 :: byte) AND mask 7 = 0" "(0x40 :: byte) AND mask 6 = 0" "(0x20 :: byte) AND mask 5 = 0"
  "(0x10 :: byte) AND mask 4 = 0" "(0 :: byte) AND mask 4 = 0"
  by (simp_all add: mask_eq_exp_minus_1)

lemma specLoop_indexed:
  fixes emit :: "'s \<Rightarrow> headerField \<Rightarrow> 's \<times> 'e option"
  assumes "i < 2 ^ 56" and "tableLookup (contents h) (of_nat i) = Some f"
  shows "specLoop maxLen emit h st start (appendInt [] 0x80 7 (of_nat i) @ rest) = emitThen maxLen emit h st f rest"
proof -
  obtain b bs where b: "appendInt [] 0x80 7 (of_nat i) = b # bs" "b AND NOT (mask 7) = 0x80"
    using appendInt_first [of 7 "0x80"] lead_masks by auto
  have "readInt (b # bs @ rest) 7 = (Inr (of_nat i, rest) :: 'e hpack_error + _)"
    using readInt_written [of 7 "0x80" i rest] lead_masks assms(1) b(1) by simp
  then show ?thesis
    using assms(2) lead_bytes(1) [OF b(2)]
    by (simp add: b(1) specLoop.simps [of _ _ _ _ _ "b # bs @ rest"] emitThen_def)
qed

lemma specLoop_indexing:
  fixes emit :: "'s \<Rightarrow> headerField \<Rightarrow> 's \<times> 'e option"
  assumes "specLiteral maxLen (contents h) (appendInt [] 0x40 6 v @ tail) 6 = (Inr (f, rest) :: 'e hpack_error + _)"
  shows "specLoop maxLen emit h st start (appendInt [] 0x40 6 v @ tail) =
    emitThen maxLen emit (h\<lparr>contents := fit (limit h) (contents h @ [f])\<rparr>) st f rest"
proof -
  obtain b bs where b: "appendInt [] 0x40 6 v = b # bs" "b AND NOT (mask 6) = 0x40"
    using appendInt_first [of 6 "0x40"] lead_masks by auto
  show ?thesis
    using assms lead_bytes(2) [OF b(2)]
    by (simp add: b(1) specLoop.simps [of _ _ _ _ _ "b # bs @ tail"] emitThen_def Let_def)
qed

lemma specLoop_literal:
  fixes emit :: "'s \<Rightarrow> headerField \<Rightarrow> 's \<times> 'e option"
  assumes "lead = 0x10 \<or> lead = 0" and "specLiteral maxLen (contents h) (appendInt [] lead 4 v @ tail) 4 = (Inr (f, rest) :: 'e hpack_error + _)"
  shows "specLoop maxLen emit h st start (appendInt [] lead 4 v @ tail) = emitThen maxLen emit h st f rest"
proof -
  have "lead AND mask 4 = 0" using lead_masks(4,5) assms(1) by blast
  then obtain b bs where b: "appendInt [] lead 4 v = b # bs" "b AND NOT (mask 4) = lead"
    by (rule appendInt_first [of 4 _ v, rotated]) simp_all
  have "b AND 0x80 = 0 \<and> b AND 0xc0 \<noteq> 0x40 \<and> b AND 0xe0 \<noteq> 0x20"
    using assms(1) lead_bytes(4,5) b(2) by blast
  then show ?thesis
    using assms(2) by (simp add: b(1) specLoop.simps [of _ _ _ _ _ "b # bs @ tail"] emitThen_def)
qed

lemma specLoop_field:
  fixes emit :: "'s \<Rightarrow> headerField \<Rightarrow> 's \<times> 'e option"
  assumes spec: "specAppend (contents h) (limit h) name val sensitive = (es', out)"
    and len: "length (contents h) < 2 ^ 55" and ok: "inRange maxLen name val" and room: "length (out @ rest) < 2 ^ 63"
  shows "specLoop maxLen emit h st start (out @ rest) =
    emitThen maxLen emit (h\<lparr>contents := es'\<rparr>) st \<lparr>Name = name, Value = val\<rparr> rest"
proof -
  let ?es = "contents h" and ?f = "\<lparr>Name = name, Value = val\<rparr>"
  let ?ni = "case staticNameIndex name of Some i \<Rightarrow> i | None \<Rightarrow> 0"
  have dyn: "tableLookup ?es (of_nat (length staticTable + length ?es - q)) = Some (?es ! q)"
    "length staticTable + length ?es - q < 2 ^ 56" if "q < length ?es" for q
    using tableLookup_dynamic [OF that] len by simp_all
  show ?thesis
  proof (cases "staticPairIndex ?f")
    case (Some i)
    then have "tableLookup ?es (of_nat i) = Some ?f" "i < 2 ^ 56"
      using staticPairIndex_lookup [OF Some] tableLookup_static by auto
    moreover have "es' = ?es" "out = appendInt [] 0x80 7 (of_nat i)" using spec Some by (auto simp: specAppend_def)
    ultimately show ?thesis using specLoop_indexed by simp
  next
    case None
    show ?thesis
    proof (cases "searchLoop ?es name val (length ?es) ?ni")
      case (Inl i)
      then obtain q where q: "q < length ?es" "i = length staticTable + length ?es - q" "?es ! q = ?f"
        using searchLoop_index [OF Inl] by auto
      moreover have "es' = ?es" "out = appendInt [] 0x80 7 (of_nat i)"
        using spec None Inl by (auto simp: specAppend_def)
      ultimately show ?thesis using specLoop_indexed [OF dyn(2) [OF q(1)]] dyn(1) [OF q(1)] by simp
    next
      case (Inr i)
      have i: "i < 2 ^ 56 \<and> (i \<noteq> 0 \<longrightarrow> (\<exists>g. tableLookup ?es (of_nat i) = Some g \<and> Name g = name))"
      proof -
        have "?ni = i \<or> (\<exists>q<length ?es. i = length staticTable + length ?es - q \<and> Name (?es ! q) = name)"
          using searchLoop_index [OF Inr] by auto
        then show ?thesis
        proof
          assume "?ni = i"
          then show ?thesis using staticNameIndex_lookup [of name i] tableLookup_static [of i ?es]
            by (auto split: option.splits)
        next
          assume "\<exists>q<length ?es. i = length staticTable + length ?es - q \<and> Name (?es ! q) = name"
          then show ?thesis using dyn by blast
        qed
      qed
      define str where "str = (if i = 0 then appendString [] name else []) @ appendString [] val @ rest"
      have lit: "specLiteral maxLen ?es (appendInt [] lead n (of_nat i) @ str) n = (Inr (?f, rest) :: 'e hpack_error + _)"
        if "1 \<le> n" "n \<le> 8" "lead AND mask n = 0" "length (appendInt [] lead n (of_nat i) @ str) < 2 ^ 63" for lead n
        using specLiteral_written [OF that(1-3) _ ok _ that(4) [unfolded str_def]] i unfolding str_def by blast
      have out: "(es', out @ rest) =
          (if sensitive then (?es, appendInt [] 0x10 4 (of_nat i) @ str)
           else if fsize ?f > limit h sdiv 2 then (?es, appendInt [] 0 4 (of_nat i) @ str)
           else (fit (limit h) (?es @ [?f]), appendInt [] 0x40 6 (of_nat i) @ str))"
        using spec None Inr by (auto simp: specAppend_def Let_def str_def split: if_splits)
      consider "sensitive" | "\<not> sensitive" "fsize ?f > limit h sdiv 2" | "\<not> sensitive" "\<not> fsize ?f > limit h sdiv 2"
        by blast
      then show ?thesis
      proof cases
        case 1
        then have o: "es' = ?es" "out @ rest = appendInt [] 0x10 4 (of_nat i) @ str" using out by auto
        show ?thesis
          using specLoop_literal [OF _ lit [of 4 "0x10"]] lead_masks(4,5) room o by simp
      next
        case 2
        then have o: "es' = ?es" "out @ rest = appendInt [] 0 4 (of_nat i) @ str" using out by auto
        show ?thesis
          using specLoop_literal [OF _ lit [of 4 0]] lead_masks(4,5) room o by simp
      next
        case 3
        then have o: "es' = fit (limit h) (?es @ [?f])" "out @ rest = appendInt [] 0x40 6 (of_nat i) @ str"
          using out by auto
        show ?thesis
          using specLoop_indexing [OF lit [of 6 "0x40"]] lead_masks(2) room o by simp
      qed
    qed
  qed
qed

end
