(* ===== verification/Hpack_Roundtrip.thy ===== *)
theory Hpack_Roundtrip
  imports Hpack_Encoder
begin

text \<open>
  An HPACK encoder and the decoder its blocks go to, side by side. \<open>in_sync\<close> relates their tables
  between blocks: equal, or, with a size update still to be sent, as far apart as that update will
  make good. Every block an encoder writes decodes to the fields it was given and leaves the two in
  sync again, whatever table sizes the two sides changed between blocks.
\<close>

subsection \<open>Lengths of what is written\<close>

lemma length_appendIntLoop:
  "unat v < 2 ^ (7 * Suc k) \<Longrightarrow> length (appendIntLoop [] v) \<le> Suc k"
proof (induction k arbitrary: v)
  case 0
  then have "\<not> v \<ge> 0x80" by (simp add: word_le_nat_alt)
  then show ?case by (simp add: appendIntLoop.simps)
next
  case (Suc k)
  have "unat (drop_bit 7 v) < 2 ^ (7 * Suc k)"
    using Suc.prems by (simp add: unat_drop_bit_less power_add)
  from Suc.IH [OF this] show ?case
    by (simp add: appendIntLoop.simps [of _ v] appendIntLoop_Nil [of "[_]"])
qed

lemma length_appendInt: "length (appendInt [] lead n v) \<le> 11"
proof -
  have "length (appendIntLoop [] w) \<le> Suc 9" for w :: uint64
    by (rule length_appendIntLoop) (rule less_trans [OF unsigned_less], simp)
  from this [of "v - (push_bit n 1 - 1)"] show ?thesis
    by (simp add: appendInt_def Let_def appendIntLoop_Nil [of "[_]"])
qed

lemma length_appendString: "length (appendString [] s) \<le> 11 + length s"
  using length_appendInt [of "0x80" 7 "of_nat (huffmanLen s)"] length_appendInt [of 0 7 "of_nat (length s)"]
  by (simp add: appendString_def Let_def length_huffmanAppend)

lemma length_specAppend:
  assumes "specAppend es lim name val sensitive = (es', out)"
  shows "length out \<le> 33 + length name + length val"
proof -
  let ?P = "\<lambda>bs. length bs \<le> 33 + length name + length val"
  have int: "?P (appendInt [] a b c)" for a b c
    using length_appendInt [of a b c] by linarith
  have lit: "?P (appendInt [] a b c @ appendString [] name @ appendString [] val)"
    "?P (appendInt [] a b c @ appendString [] val)" for a b c
    using length_appendInt [of a b c] length_appendString [of name] length_appendString [of val] by simp_all
  show ?thesis
    using assms int lit unfolding specAppend_def Let_def
    by (auto split: option.splits sum.splits if_splits simp del: length_append)
qed

subsection \<open>A block\<close>

text \<open>
  A block is written by \<^verbatim>\<open>Begin\<close> and one \<^verbatim>\<open>AppendField\<close> for each field: its name, its value and
  whether it is sensitive.
\<close>

type_synonym field_spec = "bytes \<times> bytes \<times> bool"

fun AppendFields :: "(bytes \<Rightarrow> uint64) \<Rightarrow> Encoder \<Rightarrow> bytes \<Rightarrow> field_spec list \<Rightarrow> (Encoder \<times> bytes) option" where
  "AppendFields hash e dst [] = Some (e, dst)"
| "AppendFields hash e dst ((name, val, sensitive) # fs) = do {
     (e, dst) \<leftarrow> AppendField hash e dst name val sensitive;
     AppendFields hash e dst fs
   }"

definition encodeBlock :: "(bytes \<Rightarrow> uint64) \<Rightarrow> Encoder \<Rightarrow> field_spec list \<Rightarrow> (Encoder \<times> bytes) option" where
  "encodeBlock hash e fs = (case Begin e [] of (e, dst) \<Rightarrow> AppendFields hash e dst fs)"

abbreviation fields_of :: "field_spec list \<Rightarrow> headerField list" where
  "fields_of \<equiv> map (\<lambda>(name, val, _). \<lparr>Name = name, Value = val\<rparr>)"

abbreviation fields_size :: "field_spec list \<Rightarrow> nat" where
  "fields_size fs \<equiv> sum_list (map (\<lambda>(name, val, _). 33 + length name + length val) fs)"

fun specFields :: "headerField list \<Rightarrow> int \<Rightarrow> field_spec list \<Rightarrow> headerField list \<times> bytes" where
  "specFields es lim [] = (es, [])"
| "specFields es lim ((name, val, sensitive) # fs) =
     (case specAppend es lim name val sensitive of
        (es, out) \<Rightarrow> (case specFields es lim fs of (es', out') \<Rightarrow> (es', out @ out')))"

lemma AppendFields_spec:
  assumes "enc_table_ok hash (etable e)" and "specFields (entries (etable e)) (maxSize (etable e)) fs = (es', out)"
  shows "\<exists>t. AppendFields hash e dst fs = Some (e\<lparr>etable := t\<rparr>, dst @ out) \<and>
    enc_table_ok hash t \<and> entries t = es' \<and> maxSize t = maxSize (etable e)"
  using assms
proof (induction fs arbitrary: e dst es' out)
  case Nil
  then show ?case by (auto intro: exI [of _ "etable e"])
next
  case (Cons f fs)
  obtain name val sensitive where f: "f = (name, val, sensitive)" by (cases f)
  obtain es1 out1 where 1: "specAppend (entries (etable e)) (maxSize (etable e)) name val sensitive = (es1, out1)"
    by fastforce
  obtain es2 out2 where 2: "specFields es1 (maxSize (etable e)) fs = (es2, out2)" by fastforce
  obtain t where t: "AppendField hash e dst name val sensitive = Some (e\<lparr>etable := t\<rparr>, dst @ out1)"
    "enc_table_ok hash t" "entries t = es1" "maxSize t = maxSize (etable e)"
    using AppendField_spec [OF Cons.prems(1) 1, of dst] by (elim exE conjE) (rule that)
  from Cons.IH [of "e\<lparr>etable := t\<rparr>" es2 out2 "dst @ out1"] show ?case
    using t 2 1 Cons.prems(2) by (simp add: f)
qed

lemma specAppend_size:
  assumes "specAppend es lim name val sensitive = (es', out)" "table_size es \<le> lim" "0 \<le> lim"
  shows "table_size es' \<le> lim"
  using assms fit_size [of lim "es @ [\<lparr>Name = name, Value = val\<rparr>]"]
  by (auto simp: specAppend_def Let_def split: option.splits sum.splits if_splits)

lemma length_specFields: "specFields es lim fs = (es', out) \<Longrightarrow> length out \<le> fields_size fs"
proof (induction fs arbitrary: es es' out)
  case (Cons f fs)
  obtain name val sensitive where f: "f = (name, val, sensitive)" by (cases f)
  obtain es1 out1 where 1: "specAppend es lim name val sensitive = (es1, out1)" by fastforce
  obtain es2 out2 where 2: "specFields es1 lim fs = (es2, out2)" by fastforce
  have "out = out1 @ out2" using Cons.prems 1 2 by (simp add: f)
  then show ?case using Cons.IH [OF 2] length_specAppend [OF 1] by (simp add: f)
qed simp

subsection \<open>Reading a block back\<close>

abbreviation collect :: "headerField list \<Rightarrow> headerField \<Rightarrow> headerField list \<times> 'e option" where
  "collect st f \<equiv> (st @ [f], None)"

lemma specLoop_fields:
  assumes "specFields (contents h) (limit h) fs = (es', out)"
    and "table_size (contents h) \<le> limit h" "0 \<le> limit h" "limit h < 2 ^ 55"
    and "\<forall>(name, val, s)\<in>set fs. inRange maxLen name val" and "length out < 2 ^ 63"
  shows "specLoop maxLen collect h st start out =
    (h\<lparr>contents := es'\<rparr>, st @ fields_of fs, None :: 'e hpack_error option)"
  using assms
proof (induction fs arbitrary: h es' out st start)
  case Nil
  then show ?case by (simp add: specLoop.simps)
next
  case (Cons f fs)
  obtain name val sensitive where f: "f = (name, val, sensitive)" by (cases f)
  obtain es1 out1 where 1: "specAppend (contents h) (limit h) name val sensitive = (es1, out1)" by fastforce
  obtain es2 out2 where 2: "specFields es1 (limit h) fs = (es2, out2)" by fastforce
  have o: "out = out1 @ out2" "es' = es2" using Cons.prems(1) 1 2 by (simp_all add: f)
  have "int (length (contents h)) < 2 ^ 55" using table_size_length [of "contents h"] Cons.prems(2,4) by linarith
  then have "length (contents h) < 2 ^ 55" by simp
  note specLoop_field [OF 1 this, of maxLen out2 "collect :: _ \<Rightarrow> _ \<Rightarrow> _ \<times> 'e option"]
  moreover have "specLoop maxLen collect (h\<lparr>contents := es1\<rparr>) (st @ [\<lparr>Name = name, Value = val\<rparr>]) False out2 =
    (h\<lparr>contents := es2\<rparr>, (st @ [\<lparr>Name = name, Value = val\<rparr>]) @ fields_of fs, None :: 'e hpack_error option)"
    using Cons.IH [of "h\<lparr>contents := es1\<rparr>" es2 out2] 2 specAppend_size [OF 1] Cons.prems(2-6) o f by simp
  ultimately show ?case using Cons.prems(5,6) by (simp add: o f emitThen_def)
qed

lemma specLoop_update:
  fixes emit :: "'s \<Rightarrow> headerField \<Rightarrow> 's \<times> 'e option"
  assumes "0 \<le> v" "v < 2 ^ 56" "v \<le> allowance h"
  shows "specLoop maxLen emit h st True (appendInt [] 0x20 5 (word_of_int v) @ rest) =
    specLoop maxLen emit (h\<lparr>contents := fit v (contents h), limit := v, shrink := False\<rparr>) st True rest"
    (is ?loop)
    and "\<exists>b bs. appendInt [] 0x20 5 (word_of_int v) = b # bs \<and> b AND 0xe0 = 0x20" (is ?first)
proof -
  define n where "n = nat v"
  have n: "v = int n" "n < 2 ^ 56" using assms(1,2) by (simp_all add: n_def nat_less_iff)
  then have u: "uint (of_nat n :: uint64) = int n" by (simp add: uint_nat unat_of_nat)
  obtain b bs where b: "appendInt [] 0x20 5 (of_nat n) = b # bs" "b AND NOT (mask 5) = 0x20"
    using appendInt_first [of 5 "0x20" "of_nat n"] lead_masks by auto
  have "readInt (b # bs @ rest) 5 = (Inr (of_nat n, rest) :: 'e hpack_error + _)"
    using readInt_written [of 5 "0x20" n rest] lead_masks n(2) b(1) by simp
  then show ?loop
    using assms(3) lead_bytes(3) [OF b(2)] u n
    by (simp add: b(1) specLoop.simps [of _ _ _ _ _ "b # bs @ rest"])
  show ?first using b lead_bytes(3) [OF b(2)] by (simp add: n(1))
qed

subsection \<open>Encoder and decoder in sync\<close>

definition encoder_ok :: "(bytes \<Rightarrow> uint64) \<Rightarrow> Encoder \<Rightarrow> bool" where
  "encoder_ok hash e \<longleftrightarrow>
     enc_table_ok hash (etable e) \<and> 0 \<le> tableLimit e \<and> tableLimit e \<le> MaxEncoderTableSize \<and> 0 \<le> allowedSize e \<and>
     maxSize (etable e) = min (allowedSize e) (tableLimit e) \<and>
     (pendingSize e \<longrightarrow> 0 \<le> minPending e \<and> minPending e \<le> maxSize (etable e))"

definition in_sync :: "Encoder \<Rightarrow> Decoder \<Rightarrow> bool" where
  "in_sync e d \<longleftrightarrow>
     (if pendingSize e then entries (etable e) = fit (minPending e) (entries (dtable d))
      else entries (etable e) = entries (dtable d) \<and> maxSize (etable e) = maxSize (dtable d))"

lemma NewEncoder_ok: "encoder_ok hash NewEncoder" "in_sync NewEncoder (NewDecoder DefaultTableSize)"
  by (simp_all add: encoder_ok_def in_sync_def NewEncoder_def NewDecoder_def enc_table_ok_def index_sized_def
      DefaultTableSize_def MaxEncoderTableSize_def)

lemma fit_min: "0 \<le> m \<Longrightarrow> fit n (fit m es) = fit (min n m) es"
proof (cases "n \<le> m")
  case False
  assume "0 \<le> m"
  then show ?thesis using False fit_size [of m es] by (simp add: fit_id)
qed (simp add: fit_fit)

lemma SetMaxTableSize_sync:
  assumes "enc_table_ok hash (etable e)" "0 \<le> tableLimit e" "tableLimit e \<le> MaxEncoderTableSize"
    and "pendingSize e \<longrightarrow> 0 \<le> minPending e \<and> minPending e \<le> maxSize (etable e)" and "0 \<le> n"
  shows "\<exists>e'. SetMaxTableSize hash e n = Some e' \<and> encoder_ok hash e' \<and> tableLimit e' = tableLimit e \<and>
    allowedSize e' = n \<and> (\<forall>d. in_sync e d \<longrightarrow> in_sync e' d)"
proof -
  define m where "m = min n (tableLimit e)"
  have m: "(if n > tableLimit e then tableLimit e else n) = m" "0 \<le> m" "m \<le> MaxEncoderTableSize"
    using assms by (auto simp: m_def)
  show ?thesis
  proof (cases "m = maxSize (etable e)")
    case True
    then have "SetMaxTableSize hash e n = Some (e\<lparr>allowedSize := n\<rparr>)" using m(1)
      by (auto simp: SetMaxTableSize_def Let_def split: if_splits)
    then show ?thesis using True assms by (auto simp: encoder_ok_def in_sync_def m_def)
  next
    case False
    obtain t where t: "setMaxSize hash (etable e) m = Some t" "enc_table_ok hash t" "entries t = fit m (entries (etable e))"
      "maxSize t = m"
      using enc_setMaxSize_ok [OF assms(1) m(2,3)] by (elim exE conjE) (rule that)
    let ?p = "if pendingSize e then min m (minPending e) else m"
    let ?e = "e\<lparr>allowedSize := n, minPending := ?p, pendingSize := True, etable := t\<rparr>"
    have "SetMaxTableSize hash e n = Some ?e"
      using m(1) False t(1) by (auto simp: SetMaxTableSize_def Let_def min_def)
    moreover have "encoder_ok hash ?e" using t(2,4) m(2,3) assms by (auto simp: encoder_ok_def m_def)
    moreover have "in_sync ?e d" if "in_sync e d" for d
      using that t(3) assms(4) by (auto simp: in_sync_def fit_min split: if_splits)
    ultimately show ?thesis by auto
  qed
qed

lemma Begin_reads:
  fixes emit :: "'s \<Rightarrow> headerField \<Rightarrow> 's \<times> 'e option"
  assumes ok: "encoder_ok hash e" and b: "Begin e [] = (e', out)" and p: "pendingSize e"
    and h: "maxSize (etable e) \<le> allowance h"
  shows "specLoop maxLen emit h st True (out @ rest) =
      specLoop maxLen emit (h\<lparr>contents := fit (minPending e) (contents h), limit := maxSize (etable e), shrink := False\<rparr>)
        st True rest" (is ?loop)
    and "out \<noteq> [] \<and> hd out AND 0xe0 = 0x20" (is ?first) and "length out \<le> 22" (is ?len)
    and "e' = e\<lparr>pendingSize := False\<rparr>"
proof -
  let ?m = "maxSize (etable e)" and ?p = "minPending e"
  let ?upd = "\<lambda>v. appendInt [] 0x20 5 (word_of_int v)"
  have m: "0 \<le> ?p" "?p \<le> ?m" "?m < 2 ^ 56"
    using ok p by (auto simp: encoder_ok_def enc_table_ok_def MaxEncoderTableSize_def)
  have out: "out = (if ?p < ?m then ?upd ?p else []) @ ?upd ?m" "e' = e\<lparr>pendingSize := False\<rparr>"
    using b p appendInt_append [of "?upd ?p"] by (auto simp: Begin_def Let_def)
  have upd: "specLoop maxLen emit g st True (?upd v @ tail) =
      specLoop maxLen emit (g\<lparr>contents := fit v (contents g), limit := v, shrink := False\<rparr>) st True tail"
    if "0 \<le> v" "v \<le> ?m" "allowance g = allowance h" for v g tail
    using specLoop_update(1) [of v g maxLen emit st tail] that m h by simp
  show ?loop using upd m by (auto simp: out(1) fit_min)
  show ?first using specLoop_update(2) [of ?p h] specLoop_update(2) [of ?m h] m h by (auto simp: out(1))
  show ?len
    using length_appendInt [of "0x20" 5 "word_of_int ?p"] length_appendInt [of "0x20" 5 "word_of_int ?m"]
    by (simp add: out(1))
  show "e' = e\<lparr>pendingSize := False\<rparr>" by (rule out(2))
qed

lemma encodeBlock_ok:
  assumes ok: "encoder_ok hash e"
  shows "\<exists>e' block. encodeBlock hash e fs = Some (e', block) \<and> encoder_ok hash e' \<and> \<not> pendingSize e'"
proof -
  obtain e1 out1 where b: "Begin e [] = (e1, out1)" by fastforce
  then have e1: "etable e1 = etable e" "\<not> pendingSize e1" "encoder_ok hash e1"
    using ok by (auto simp: Begin_def Let_def encoder_ok_def split: if_splits)
  obtain es' out where s: "specFields (entries (etable e1)) (maxSize (etable e1)) fs = (es', out)" by fastforce
  from e1(3) have "enc_table_ok hash (etable e1)" by (simp add: encoder_ok_def)
  from AppendFields_spec [OF this s, of out1] obtain t where
    t: "AppendFields hash e1 out1 fs = Some (e1\<lparr>etable := t\<rparr>, out1 @ out)" "enc_table_ok hash t" "maxSize t = maxSize (etable e1)"
    by (elim exE conjE) (rule that)
  then have "encoder_ok hash (e1\<lparr>etable := t\<rparr>)" using e1 by (simp add: encoder_ok_def)
  then show ?thesis using t(1) e1(2) by (simp add: encodeBlock_def b)
qed

lemma block_decodes:
  assumes ok: "encoder_ok hash e" and sync: "in_sync e d" and enc: "encodeBlock hash e fs = Some (e', block)"
    and dec: "decoder_ok d" "maxSize (etable e) \<le> allowedMaxSize d" "mustShrink d \<longrightarrow> pendingSize e"
    and fs: "\<forall>(name, val, s)\<in>set fs. inRange maxLen name val" "fields_size fs < 2 ^ 62"
  shows "specDecode maxLen collect (absDecoder d) st block =
    (absDecoder d\<lparr>contents := entries (etable e'), limit := maxSize (etable e'), shrink := False\<rparr>,
     st @ fields_of fs, None :: 'e hpack_error option)"
proof -
  let ?t = "etable e" and ?a = "absDecoder d"
  let ?h = "?a\<lparr>contents := entries ?t, limit := maxSize ?t, shrink := False\<rparr>"
  obtain e1 out1 where b: "Begin e [] = (e1, out1)" by fastforce
  obtain es' out where s: "specFields (entries ?t) (maxSize ?t) fs = (es', out)" by fastforce
  have e1: "etable e1 = ?t" using b by (auto simp: Begin_def Let_def split: if_splits)
  have t: "enc_table_ok hash ?t" "table_size (entries ?t) \<le> maxSize ?t" "0 \<le> maxSize ?t" "maxSize ?t < 2 ^ 55"
    using ok by (auto simp: encoder_ok_def enc_table_ok_def MaxEncoderTableSize_def)
  from AppendFields_spec [of hash e1 fs es' out out1] obtain t' where
    "AppendFields hash e1 out1 fs = Some (e1\<lparr>etable := t'\<rparr>, out1 @ out)" "entries t' = es'" "maxSize t' = maxSize ?t"
    using t(1) s e1 by auto
  then have e': "block = out1 @ out" "entries (etable e') = es'" "maxSize (etable e') = maxSize ?t"
    using enc by (auto simp: encodeBlock_def b)
  have len: "length out < 2 ^ 62" using length_specFields [OF s] fs(2) by linarith
  have fields: "specLoop maxLen collect ?h st True out = (?h\<lparr>contents := es'\<rparr>, st @ fields_of fs, None :: 'e hpack_error option)"
    using specLoop_fields [of ?h fs es' out] s t fs(1) len by simp
  show ?thesis
  proof (cases "pendingSize e")
    case True
    have c: "fit (minPending e) (contents ?a) = entries ?t" using sync True by (simp add: in_sync_def absDecoder_def)
    have "maxSize ?t \<le> allowance ?a" using dec(2) by (simp add: absDecoder_def)
    note r = Begin_reads [OF ok b True this, unfolded c]
    have "specLoop maxLen collect ?a st True (out1 @ out) = (?h\<lparr>contents := es'\<rparr>, st @ fields_of fs, None :: 'e hpack_error option)"
      unfolding r(1) by (rule fields)
    then show ?thesis using r(2) by (simp add: specDecode_def e' absDecoder_def)
  next
    case False
    then have "out1 = []" "\<not> mustShrink d" "?h = ?a"
      using b dec(3) sync by (auto simp: Begin_def in_sync_def absDecoder_def)
    then show ?thesis using fields by (simp add: specDecode_def e' absDecoder_def)
  qed
qed

text \<open>
  C6. The encoder and the decoder agree on every block. Starting in sync, with the encoder's table
  within the decoder's allowance and a size update ready where the decoder insists on one, a block of
  any fields (sensitive or not, indexed or not, with or without size updates in front) is written,
  is accepted, gives back exactly the fields in their order, and leaves the two in sync. The hash
  functions of the two sides are arbitrary and unrelated.
\<close>

theorem hpack_block_roundtrip:
  assumes "encoder_ok hash e" and "decoder_ok d" and "in_sync e d"
    and "maxSize (etable e) \<le> allowedMaxSize d" and "mustShrink d \<longrightarrow> pendingSize e"
    and "\<forall>(name, val, s)\<in>set fs. inRange (MaxStringLength d) name val" and "fields_size fs < 2 ^ 62"
  shows "\<exists>e' block d'. encodeBlock hash e fs = Some (e', block) \<and>
    Decode hash' (\<lambda>st f. (st @ [f], None :: 'e option)) d [] block = Some (d', fields_of fs, None) \<and>
    encoder_ok hash e' \<and> decoder_ok d' \<and> in_sync e' d' \<and> \<not> mustShrink d'"
proof -
  obtain e' block where e': "encodeBlock hash e fs = Some (e', block)" "encoder_ok hash e'" "\<not> pendingSize e'"
    using encodeBlock_ok [OF assms(1), of fs] by (elim exE conjE) (rule that)
  have "specDecode (MaxStringLength d) collect (absDecoder d) [] block =
    (absDecoder d\<lparr>contents := entries (etable e'), limit := maxSize (etable e'), shrink := False\<rparr>,
     fields_of fs, None :: 'e hpack_error option)"
    using block_decodes [OF assms(1,3) e'(1) assms(2,4-7), of "[]"] by simp
  moreover have "refinesResult d (Decode hash' (\<lambda>st f. (st @ [f], None :: 'e option)) d [] block)
      (specDecode (MaxStringLength d) collect (absDecoder d) [] block)"
    by (rule Decode_refines [OF assms(2)])
  ultimately show ?thesis using e' by (auto simp: refinesResult_def in_sync_def absDecoder_def)
qed

theorem hpack_block_roundtrip_witness:
  "\<exists>e' block d'. encodeBlock (\<lambda>_. 7) NewEncoder [([97], [98], False), ([97], [98, 99], True)] = Some (e', block) \<and>
    Decode (\<lambda>_. 9) (\<lambda>st f. (st @ [f], None :: unit option)) (NewDecoder 4096) [] block =
      Some (d', [\<lparr>Name = [97], Value = [98]\<rparr>, \<lparr>Name = [97], Value = [98, 99]\<rparr>], None) \<and>
    encoder_ok (\<lambda>_. 7) e' \<and> decoder_ok d' \<and> in_sync e' d' \<and> \<not> mustShrink d'"
  using hpack_block_roundtrip [OF NewEncoder_ok(1) NewDecoder_ok [of 4096] NewEncoder_ok(2) [unfolded DefaultTableSize_def],
      of "[([97], [98], False), ([97], [98, 99], True)]" "\<lambda>_. 7" "\<lambda>_. 9"]
  by (simp add: NewEncoder_def NewDecoder_def inRange_def DefaultTableSize_def)

text \<open>
  C7. Changing table sizes never loses the peer: whatever limit the application sets and whatever
  size the peer allows, before, between or after blocks, the encoder stays in order, its table within
  both, and it stays in sync with the decoder its next block goes to.
\<close>

theorem encoder_resize_in_sync:
  assumes "encoder_ok hash e" and "0 \<le> n"
  shows "\<exists>e1 e2. SetMaxTableSize hash e n = Some e1 \<and> SetTableSizeLimit hash e m = Some e2 \<and>
    encoder_ok hash e1 \<and> encoder_ok hash e2 \<and>
    maxSize (etable e1) = min n (tableLimit e) \<and>
    maxSize (etable e2) = min (allowedSize e) (min (max m 0) MaxEncoderTableSize) \<and>
    (\<forall>d. in_sync e d \<longrightarrow> in_sync e1 d \<and> in_sync e2 d)"
proof -
  let ?e = "e\<lparr>tableLimit := min (max m 0) MaxEncoderTableSize\<rparr>"
  have ok: "enc_table_ok hash (etable e)" "0 \<le> tableLimit e" "tableLimit e \<le> MaxEncoderTableSize"
    "pendingSize e \<longrightarrow> 0 \<le> minPending e \<and> minPending e \<le> maxSize (etable e)" "0 \<le> allowedSize e"
    using assms(1) by (auto simp: encoder_ok_def)
  obtain e1 where e1: "SetMaxTableSize hash e n = Some e1" "encoder_ok hash e1" "tableLimit e1 = tableLimit e"
    "allowedSize e1 = n" "\<forall>d. in_sync e d \<longrightarrow> in_sync e1 d"
    using SetMaxTableSize_sync [OF ok(1-4) assms(2)] by (elim exE conjE) (rule that)
  have "\<exists>e2. SetMaxTableSize hash ?e (allowedSize e) = Some e2 \<and> encoder_ok hash e2 \<and> tableLimit e2 = tableLimit ?e \<and>
    allowedSize e2 = allowedSize e \<and> (\<forall>d. in_sync ?e d \<longrightarrow> in_sync e2 d)"
    by (rule SetMaxTableSize_sync) (use ok in \<open>simp_all add: MaxEncoderTableSize_def\<close>)
  then obtain e2 where e2: "SetMaxTableSize hash ?e (allowedSize e) = Some e2" "encoder_ok hash e2" "tableLimit e2 = tableLimit ?e"
    "allowedSize e2 = allowedSize e" "\<forall>d. in_sync ?e d \<longrightarrow> in_sync e2 d"
    by (elim exE conjE) (rule that)
  have "maxSize (etable e1) = min n (tableLimit e)" "maxSize (etable e2) = min (allowedSize e) (tableLimit ?e)"
    using e1(2-4) e2(2-4) by (simp_all add: encoder_ok_def)
  moreover have "in_sync ?e d = in_sync e d" for d by (simp add: in_sync_def)
  ultimately show ?thesis
    using e1(1,2,5) e2(1,2,5) by (intro exI [of _ e1] exI [of _ e2]) (simp add: SetTableSizeLimit_def)
qed

theorem encoder_resize_in_sync_witness:
  "\<exists>e1 e2. SetMaxTableSize (\<lambda>_. 7) NewEncoder 100 = Some e1 \<and> SetTableSizeLimit (\<lambda>_. 7) NewEncoder (-1) = Some e2 \<and>
    encoder_ok (\<lambda>_. 7) e1 \<and> encoder_ok (\<lambda>_. 7) e2 \<and> maxSize (etable e1) = 100 \<and> maxSize (etable e2) = 0 \<and>
    in_sync e1 (NewDecoder 4096) \<and> in_sync e2 (NewDecoder 4096)"
  using encoder_resize_in_sync [OF NewEncoder_ok(1), of 100 "\<lambda>_. 7" "-1"] NewEncoder_ok(2)
  by (auto simp: NewEncoder_def DefaultTableSize_def MaxEncoderTableSize_def)

lemma NewEncoder_table: "enc_table_ok hash (etable NewEncoder)"
  using NewEncoder_ok(1) by (simp add: encoder_ok_def)

text \<open>
  C8. The hash index never shows: on a table in order \<^verbatim>\<open>AppendField\<close> always returns, and what it
  appends and the table it leaves are those of a search through a plain list of entries, whatever the
  hash function, whether or not an index is kept, and however its slots have been filled, moved and
  freed.
\<close>

theorem append_field_refines:
  assumes "enc_table_ok hash (etable e)"
  shows "\<exists>e' out. AppendField hash e dst name val sensitive = Some (e', dst @ out) \<and>
    specAppend (entries (etable e)) (maxSize (etable e)) name val sensitive = (entries (etable e'), out) \<and>
    enc_table_ok hash (etable e') \<and> maxSize (etable e') = maxSize (etable e)"
proof -
  obtain es' out where s: "specAppend (entries (etable e)) (maxSize (etable e)) name val sensitive = (es', out)"
    by fastforce
  from AppendField_spec [OF assms s, of dst] obtain t where
    "AppendField hash e dst name val sensitive = Some (e\<lparr>etable := t\<rparr>, dst @ out)" "enc_table_ok hash t" "entries t = es'"
    "maxSize t = maxSize (etable e)"
    by (elim exE conjE) (rule that)
  then show ?thesis using s by auto
qed

theorem append_field_refines_witness:
  "\<exists>e' out. AppendField (\<lambda>_. 7) NewEncoder [1] [97] [98] False = Some (e', [1] @ out) \<and>
    specAppend [] 4096 [97] [98] False = (entries (etable e'), out) \<and>
    enc_table_ok (\<lambda>_. 7) (etable e') \<and> maxSize (etable e') = 4096"
  using append_field_refines [OF NewEncoder_table, of "\<lambda>_. 7" "[1]" "[97]" "[98]" False]
  by (simp add: NewEncoder_def DefaultTableSize_def)

text \<open>
  C9. A sensitive field is never kept: appending it leaves the encoder as it was, and what is appended
  starts with the lead of a field already in a table or with that of a literal that no hop may index.
\<close>

theorem sensitive_never_indexed:
  assumes "enc_table_ok hash (etable e)" and "AppendField hash e dst name val True = Some (e', out)"
  shows "entries (etable e') = entries (etable e) \<and> (\<exists>b bs. out = dst @ b # bs \<and> (b AND 0x80 = 0x80 \<or> b AND 0xf0 = 0x10))"
proof -
  obtain es' o1 where s: "specAppend (entries (etable e)) (maxSize (etable e)) name val True = (es', o1)"
    by fastforce
  from AppendField_spec [OF assms(1) s, of dst] have e': "out = dst @ o1" "entries (etable e') = es'"
    using assms(2) by auto
  have lead: "\<exists>b bs. appendInt [] 0x80 7 v @ tl = b # bs \<and> b AND 0x80 = 0x80" 
    "\<exists>b bs. appendInt [] 0x10 4 v @ tl = b # bs \<and> b AND 0xf0 = 0x10" for v tl
  proof -
    obtain b bs where "appendInt [] 0x80 7 v = b # bs" "b AND NOT (mask 7) = 0x80"
      using appendInt_first [of 7 "0x80" v] lead_masks by auto
    then show "\<exists>b bs. appendInt [] 0x80 7 v @ tl = b # bs \<and> b AND 0x80 = 0x80"
      using byte_clear [of b 7 "0x80" "0x80"] lead_masks by simp
    obtain b bs where "appendInt [] 0x10 4 v = b # bs" "b AND NOT (mask 4) = 0x10"
      using appendInt_first [of 4 "0x10" v] lead_masks by auto
    then show "\<exists>b bs. appendInt [] 0x10 4 v @ tl = b # bs \<and> b AND 0xf0 = 0x10"
      using byte_clear [of b 4 "0x10" "0xf0"] by (simp add: mask_eq_exp_minus_1)
  qed
  have "es' = entries (etable e) \<and> (\<exists>v tl. o1 = appendInt [] 0x80 7 v @ tl \<or> o1 = appendInt [] 0x10 4 v @ tl)"
    using s by (auto simp: specAppend_def Let_def split: option.splits sum.splits)
  moreover from this have "\<exists>b bs. o1 = b # bs \<and> (b AND 0x80 = 0x80 \<or> b AND 0xf0 = 0x10)"
    using lead by metis
  ultimately show ?thesis using e' by auto
qed

theorem sensitive_never_indexed_witness:
  "\<exists>e' out. AppendField (\<lambda>_. 7) NewEncoder [] [97] [98] True = Some (e', out) \<and> entries (etable e') = [] \<and>
    (\<exists>b bs. out = b # bs \<and> (b AND 0x80 = 0x80 \<or> b AND 0xf0 = 0x10))"
proof -
  obtain es' out where s: "specAppend [] 4096 [97] [98] True = (es', out)" by fastforce
  from AppendField_spec [OF NewEncoder_table, of "[97]" "[98]" True es' out "\<lambda>_. 7" "[]"] obtain t where
    t: "AppendField (\<lambda>_. 7) NewEncoder [] [97] [98] True = Some (NewEncoder\<lparr>etable := t\<rparr>, out)"
    using s by (auto simp: NewEncoder_def DefaultTableSize_def)
  from sensitive_never_indexed [OF NewEncoder_table t] show ?thesis using t by (simp add: NewEncoder_def)
qed

end
