(* ===== verification/Big_Endian.thy ===== *)
theory Big_Endian
  imports Fib_Prelude
begin

text \<open>
  Integers as bytes, most significant first, the way \<^verbatim>\<open>binary.BigEndian\<close> and the hand-written
  shifts of the wire formats store them: \<open>be_bytes k v\<close> is what \<^verbatim>\<open>append(b, byte(v>>8*(k-1)), ..., byte(v))\<close>
  appends, \<open>be_read\<close> is the loop or expression that shifts and ors the bytes back in.
\<close>

definition be_bytes :: "nat \<Rightarrow> 'a::len word \<Rightarrow> bytes" where
  "be_bytes k v = map (\<lambda>i. ucast (drop_bit (8 * i) v)) (rev [0..<k])"

definition be_step :: "'a::len word \<Rightarrow> byte \<Rightarrow> 'a word" where
  "be_step v b = push_bit 8 v OR ucast b"

definition be_from :: "'a::len word \<Rightarrow> bytes \<Rightarrow> 'a word" where
  "be_from v bs = foldl be_step v bs"

definition be_read :: "bytes \<Rightarrow> 'a::len word" where
  "be_read bs = be_from 0 bs"

lemma length_be_bytes [simp]: "length (be_bytes k v) = k"
  by (simp add: be_bytes_def)

lemma be_bytes_0 [simp]: "be_bytes 0 v = []"
  by (simp add: be_bytes_def)

lemma be_bytes_Suc: "be_bytes (Suc k) v = ucast (drop_bit (8 * k) v) # be_bytes k v"
  by (simp add: be_bytes_def)

lemma be_bytes_numeral: "be_bytes (numeral n) v = ucast (drop_bit (8 * pred_numeral n) v) # be_bytes (pred_numeral n) v"
  by (simp add: be_bytes_Suc numeral_eq_Suc)

lemma be_from_simps [simp]:
  "be_from v [] = v" "be_from v (b # bs) = be_from (be_step v b) bs"
  by (simp_all add: be_from_def)

lemma be_from_append: "be_from v (xs @ ys) = be_from (be_from v xs) ys"
  by (simp add: be_from_def)

lemma bit_be_step:
  "bit (be_step v b) n \<longleftrightarrow> n < LENGTH('a) \<and> (if n < 8 then bit b n else bit v (n - 8))" for v :: "'a::len word"
  by (auto simp: be_step_def bit_simps not_less dest: bit_imp_le_length)

text \<open>Reading back the last \<open>k\<close> bytes of a value restores it onto what was read of the bytes before.\<close>

lemma be_from_bytes:
  "be_from (drop_bit (8 * k) v) (be_bytes k v) = v" for v :: "'a::len word"
proof (induction k)
  case (Suc k)
  have "be_step (drop_bit (8 * Suc k) v) (ucast (drop_bit (8 * k) v)) = drop_bit (8 * k) v"
    by (rule bit_word_eqI) (auto simp: bit_be_step bit_simps not_less dest: bit_imp_le_length)
  with Suc show ?case by (simp add: be_bytes_Suc)
qed simp

lemma be_read_bytes:
  fixes v :: "'a::len word"
  assumes "unat v < 2 ^ (8 * k)"
  shows "be_read (be_bytes k v) = v"
proof -
  have "drop_bit (8 * k) v = 0"
    by (rule bit_word_eqI) (use assms unat_less_bit [of v "8 * k"] in \<open>fastforce simp: bit_simps\<close>)
  with be_from_bytes [of k v] show ?thesis by (simp add: be_read_def)
qed

lemma be_bytes_take_bit: "be_bytes k v = be_bytes k w" if "take_bit (8 * k) v = take_bit (8 * k) w" for v w :: "'a::len word"
proof -
  have "(ucast (drop_bit (8 * i) v) :: byte) = ucast (drop_bit (8 * i) w)" if "i < k" for i
  proof (rule bit_word_eqI)
    fix n assume "n < LENGTH(8)"
    then have "8 * i + n < 8 * k" using \<open>i < k\<close> by simp
    then have "bit v (8 * i + n) = bit w (8 * i + n)"
      using \<open>take_bit (8 * k) v = take_bit (8 * k) w\<close> by (metis bit_take_bit_iff)
    then show "bit (ucast (drop_bit (8 * i) v) :: byte) n = bit (ucast (drop_bit (8 * i) w) :: byte) n"
      by (simp add: bit_simps)
  qed
  then show ?thesis by (simp add: be_bytes_def)
qed

text \<open>The other way: the bytes of what was read are the bytes it was read from.\<close>

lemma bit_be_from:
  "bit (be_from v bs) n \<longleftrightarrow> n < LENGTH('a) \<and>
     (if n < 8 * length bs then bit (rev bs ! (n div 8)) (n mod 8) else bit v (n - 8 * length bs))" for v :: "'a::len word"
proof (induction bs arbitrary: v)
  case (Cons b bs)
  show ?case
  proof (cases "n < 8 * length bs")
    case True
    then have "n div 8 < length bs" by simp
    then show ?thesis using True Cons by (simp add: nth_append)
  next
    case False
    then obtain m where n: "n = 8 * length bs + m" by (metis le_add_diff_inverse not_less)
    show ?thesis
    proof (cases "m < 8")
      case True
      then have "n div 8 = length bs" "n mod 8 = m" by (simp_all add: n)
      then show ?thesis using True Cons by (auto simp: n nth_append bit_be_step)
    qed (use Cons in \<open>auto simp: n bit_be_step algebra_simps\<close>)
  qed
qed (auto dest: bit_imp_le_length)

lemma unat_be_read: "unat (be_read bs :: 'a::len word) < 2 ^ (8 * length bs)"
proof -
  have "take_bit (8 * length bs) (be_read bs :: 'a word) = be_read bs"
    by (rule bit_word_eqI) (auto simp: be_read_def bit_be_from bit_take_bit_iff)
  then show ?thesis by (metis unsigned_take_bit_eq take_bit_nat_less_exp)
qed

lemma be_bytes_read:
  assumes "8 * length bs \<le> LENGTH('a)"
  shows "be_bytes (length bs) (be_read bs :: 'a::len word) = bs"
proof (rule nth_equalityI)
  fix i assume "i < length (be_bytes (length bs) (be_read bs :: 'a word))"
  then have i: "i < length bs" by simp
  let ?j = "length bs - Suc i"
  have "(ucast (drop_bit (8 * ?j) (be_read bs :: 'a word)) :: byte) = bs ! i"
  proof (rule bit_word_eqI)
    fix n assume "n < LENGTH(8)"
    then have n: "n < 8" by simp
    then have "8 * ?j + n < 8 * length bs" using i by simp
    then have "bit (be_read bs :: 'a word) (8 * ?j + n) \<longleftrightarrow> bit (rev bs ! ?j) n"
      using assms n by (simp add: be_read_def bit_be_from)
    then show "bit (ucast (drop_bit (8 * ?j) (be_read bs :: 'a word)) :: byte) n \<longleftrightarrow> bit (bs ! i) n"
      using n i by (simp add: bit_simps rev_nth)
  qed
  then show "be_bytes (length bs) (be_read bs :: 'a word) ! i = bs ! i"
    using i by (simp add: be_bytes_def rev_nth)
qed simp

lemma be_read_inj: "length xs = length ys \<Longrightarrow> 8 * length xs \<le> LENGTH('a) \<Longrightarrow>
    (be_read xs :: 'a::len word) = be_read ys \<Longrightarrow> xs = ys"
  by (metis be_bytes_read)

end
