(* ===== verification/Quic_Varint.thy ===== *)
theory Quic_Varint
  imports Big_Endian
begin

text \<open>
  QUIC's variable-length integers (RFC 9000 section 16), \<^verbatim>\<open>http3/quic/varint.go\<close>: the encoder, its
  length, the decoder, and the \<^verbatim>\<open>reader\<close> that frames and parameters are taken apart with, whose
  first failure sticks.
\<close>

definition maxVarint :: uint64 where
  "maxVarint = push_bit 62 1 - 1"

definition AppendVarint :: "bytes \<Rightarrow> uint64 \<Rightarrow> bytes" where
  "AppendVarint b v =
     (if v < push_bit 6 1 then b @ [ucast v]
      else if v < push_bit 14 1 then b @ [ucast (drop_bit 8 v) OR 0x40, ucast v]
      else if v < push_bit 30 1 then
        b @ [ucast (drop_bit 24 v) OR 0x80, ucast (drop_bit 16 v), ucast (drop_bit 8 v), ucast v]
      else
        b @ [ucast (drop_bit 56 v) OR 0xc0, ucast (drop_bit 48 v), ucast (drop_bit 40 v), ucast (drop_bit 32 v),
             ucast (drop_bit 24 v), ucast (drop_bit 16 v), ucast (drop_bit 8 v), ucast v])"

definition VarintLen :: "uint64 \<Rightarrow> nat" where
  "VarintLen v =
     (if v < push_bit 6 1 then 1 else if v < push_bit 14 1 then 2 else if v < push_bit 30 1 then 4 else 8)"

definition ReadVarint :: "bytes \<Rightarrow> uint64 \<times> nat" where
  "ReadVarint b =
     (if length b = 0 then (0, 0)
      else
        (let n = push_bit (unat (drop_bit 6 (b ! 0))) 1 in
         if length b < n then (0, 0)
         else (foldl (\<lambda>v i. push_bit 8 v OR ucast (b ! i)) (ucast ((b ! 0) AND 0x3f)) [1..<n], n)))"

definition appendVarint2 :: "bytes \<Rightarrow> uint64 \<Rightarrow> bytes" where
  "appendVarint2 b v = b @ [ucast (drop_bit 8 v) OR 0x40, ucast v]"

record reader =
  rb :: bytes
  bad :: bool

definition reader_varint :: "reader \<Rightarrow> reader \<times> uint64" where
  "reader_varint r =
     (case ReadVarint (rb r) of
        (v, n) \<Rightarrow> if n = 0 then (r\<lparr>bad := True, rb := []\<rparr>, 0) else (r\<lparr>rb := drop n (rb r)\<rparr>, v))"

definition reader_bytes :: "reader \<Rightarrow> uint64 \<Rightarrow> reader \<times> bytes" where
  "reader_bytes r n =
     (if of_nat (length (rb r)) < n then (r\<lparr>bad := True, rb := []\<rparr>, [])
      else (r\<lparr>rb := drop (unat n) (rb r)\<rparr>, take (unat n) (rb r)))"

definition reader_byte :: "reader \<Rightarrow> reader \<times> byte" where
  "reader_byte r =
     (case rb r of
        [] \<Rightarrow> (r\<lparr>bad := True\<rparr>, 0)
      | v # rest \<Rightarrow> (r\<lparr>rb := rest\<rparr>, v))"

subsection \<open>The tagged form\<close>

text \<open>
  Every encoding is a two-bit tag and \<open>8 * 2 ^ tag - 2\<close> bits of the value, most significant first.
\<close>

definition tagged :: "nat \<Rightarrow> uint64 \<Rightarrow> bytes" where
  "tagged t v = (ucast (drop_bit (8 * (2 ^ t - 1)) v) OR push_bit 6 (of_nat t)) # be_bytes (2 ^ t - 1) v"

definition varint_tag :: "uint64 \<Rightarrow> nat" where
  "varint_tag v = (if unat v < 2 ^ 6 then 0 else if unat v < 2 ^ 14 then 1 else if unat v < 2 ^ 30 then 2 else 3)"

lemma AppendVarint_tagged: "AppendVarint b v = b @ tagged (varint_tag v) v"
  by (simp add: AppendVarint_def varint_tag_def tagged_def word_less_nat_alt be_bytes_numeral be_bytes_Suc)

lemma VarintLen_tag: "VarintLen v = 2 ^ varint_tag v"
  by (simp add: VarintLen_def varint_tag_def word_less_nat_alt)

lemma readVarint_loop: "foldl (\<lambda>v i. push_bit 8 v OR ucast ((b # bs) ! i)) v [1..<Suc n] = be_from v (take n bs)"
  if "n \<le> length bs" for v :: uint64
  using that
proof (induction n)
  case (Suc n)
  then have "take (Suc n) bs = take n bs @ [bs ! n]" by (simp add: take_Suc_conv_app_nth)
  with Suc show ?case by (simp add: be_from_append be_step_def)
qed simp

lemma ReadVarint_Cons:
  "ReadVarint (b # bs) =
     (let n = 2 ^ unat (drop_bit 6 b) in
      if Suc (length bs) < n then (0, 0) else (be_from (ucast (b AND 0x3f)) (take (n - 1) bs), n))"
proof -
  let ?n = "(2 :: nat) ^ unat (drop_bit 6 b)"
  obtain k where k: "?n = Suc k" using not0_implies_Suc by fastforce
  show ?thesis
  proof (cases "Suc (length bs) < ?n")
    case False
    then have "k \<le> length bs" by (simp add: k)
    from readVarint_loop [OF this, of b "ucast (b AND 0x3f)"] show ?thesis
      using False by (simp add: ReadVarint_def push_bit_eq_mult k Let_def del: upt_Suc)
  qed (simp add: ReadVarint_def push_bit_eq_mult)
qed

lemma ReadVarint_tagged:
  assumes "t < 4" and v: "unat v < 2 ^ (8 * 2 ^ t - 2)"
  shows "ReadVarint (tagged t v @ rest) = (v, 2 ^ t)"
proof -
  define k where "k = 8 * (2 ^ t - 1 :: nat)"
  have "8 * 2 ^ t - 2 = k + 6" by (simp add: k_def algebra_simps)
  then have hi: "bit v n \<Longrightarrow> n < k + 6" for n using unat_less_bit [OF v] by simp
  let ?b = "ucast (drop_bit k v) OR push_bit 6 (of_nat t) :: byte"
  have c: "(0x3f :: byte) = mask 6" by (simp add: mask_eq_exp_minus_1)
  have "take_bit 2 t = t" using assms(1) by (simp add: take_bit_nat_eq_self)
  then have t4: "bit t n \<Longrightarrow> n < 2" for n by (metis bit_take_bit_iff)
  have "(ucast (?b AND 0x3f) :: uint64) = drop_bit k v"
    unfolding c by (rule bit_word_eqI) (auto simp: bit_simps dest: hi t4)
  moreover have "drop_bit 6 ?b = of_nat t"
    by (rule bit_word_eqI) (auto simp: bit_simps dest: hi t4)
  then have "unat (drop_bit 6 ?b) = t" using assms(1) by (simp add: unat_of_nat)
  ultimately have "ReadVarint (?b # be_bytes (2 ^ t - 1) v @ rest) =
      (be_from (drop_bit k v) (be_bytes (2 ^ t - 1) v), 2 ^ t)"
    by (simp add: ReadVarint_Cons Let_def)
  then show ?thesis using be_from_bytes [of "2 ^ t - 1" v] by (simp add: tagged_def k_def)
qed

lemma varint_tag_bound:
  assumes "unat v < 2 ^ 62"
  shows "varint_tag v < 4" "unat v < 2 ^ (8 * 2 ^ varint_tag v - 2)"
  using assms by (auto simp: varint_tag_def)

subsection \<open>Readers\<close>

lemma be_from_bound:
  fixes c :: uint64
  assumes "unat c < 2 ^ m"
  shows "unat (be_from c bs) < 2 ^ (m + 8 * length bs)"
proof -
  have "take_bit (m + 8 * length bs) (be_from c bs) = be_from c bs"
  proof (rule bit_word_eqI)
    fix n
    show "bit (take_bit (m + 8 * length bs) (be_from c bs)) n = bit (be_from c bs) n"
      using unat_less_bit [OF assms, of "n - 8 * length bs"] by (auto simp: bit_take_bit_iff bit_be_from)
  qed
  then show ?thesis by (metis unsigned_take_bit_eq take_bit_nat_less_exp)
qed

lemma ReadVarint_bounds:
  assumes "ReadVarint b = (v, n)" "n \<noteq> 0"
  obtains t where "t < 4" "n = 2 ^ t" "n \<le> length b" "unat v < 2 ^ (8 * n - 2)"
proof -
  obtain c bs where b: "b = c # bs" using assms by (cases b) (auto simp: ReadVarint_def)
  let ?t = "unat (drop_bit 6 c)"
  have t: "?t < 4" using unat_byte [of c] by (simp add: unat_drop_bit_less)
  have n: "n = 2 ^ ?t" "n \<le> length b" "v = be_from (ucast (c AND 0x3f)) (take (n - 1) bs)"
    using assms by (auto simp: b ReadVarint_Cons Let_def split: if_splits)
  have "(0x3f :: byte) = mask 6" by (simp add: mask_eq_exp_minus_1)
  then have "c AND 0x3f = take_bit 6 c" by (simp add: take_bit_eq_mask)
  then have "unat (ucast (c AND 0x3f) :: uint64) < 2 ^ 6"
    using take_bit_nat_less_exp [of 6 "unat c"] by (simp add: unsigned_ucast_eq unsigned_take_bit_eq)
  from be_from_bound [OF this, of "take (n - 1) bs"] have "unat v < 2 ^ (6 + 8 * (n - 1))"
    using n(2,3) by (simp add: b)
  moreover have "6 + 8 * (n - 1) = 8 * n - 2" using n(1) by (simp add: algebra_simps)
  ultimately show ?thesis using that [OF t] n(1,2) by simp
qed

lemma ReadVarint_shortest:
  assumes "ReadVarint b = (v, n)" "n \<noteq> 0"
  shows "VarintLen v \<le> n"
proof -
  obtain t where t: "t < 4" "n = 2 ^ t" "unat v < 2 ^ (8 * n - 2)" using ReadVarint_bounds [OF assms] .
  have "t = 0 \<or> t = 1 \<or> t = 2 \<or> t = 3" using t(1) by linarith
  then have "varint_tag v \<le> t" using t(2,3) by (elim disjE) (simp_all add: varint_tag_def)
  then show ?thesis by (simp add: VarintLen_tag t(2))
qed

subsection \<open>Properties\<close>

text \<open>
  C10. Variable-length integers round trip: for every value QUIC allows, what \<^verbatim>\<open>AppendVarint\<close> appends
  is \<^verbatim>\<open>VarintLen\<close> bytes, and \<^verbatim>\<open>ReadVarint\<close> takes exactly those bytes and gives the value back,
  whatever follows.
\<close>

theorem varint_roundtrip:
  assumes "v \<le> maxVarint"
  shows "\<exists>enc. AppendVarint b v = b @ enc \<and> length enc = VarintLen v \<and> ReadVarint (enc @ rest) = (v, VarintLen v)"
proof -
  have "unat v < 2 ^ 62" using assms by (simp add: maxVarint_def word_le_nat_alt)
  from ReadVarint_tagged [OF varint_tag_bound [OF this], of rest] show ?thesis
    by (simp add: AppendVarint_tagged VarintLen_tag) (simp add: tagged_def)
qed

theorem varint_roundtrip_witness:
  "(15293 :: uint64) \<le> maxVarint \<and>
   (\<exists>enc. AppendVarint [7] 15293 = [7] @ enc \<and> length enc = VarintLen 15293 \<and> ReadVarint (enc @ [1]) = (15293, VarintLen 15293))"
proof -
  have "(15293 :: uint64) \<le> maxVarint" by (simp add: maxVarint_def)
  with varint_roundtrip [OF this, of "[7]" "[1]"] show ?thesis by blast
qed

text \<open>
  C11. Whatever bytes arrive, \<^verbatim>\<open>ReadVarint\<close> stays within them and within the values QUIC allows, and
  no encoding of a value it accepts is shorter than the one \<^verbatim>\<open>AppendVarint\<close> writes.
\<close>

theorem read_varint_bounds:
  assumes "ReadVarint b = (v, n)"
  shows "n \<le> length b \<and> v \<le> maxVarint \<and> (n = 0 \<or> n = 1 \<or> n = 2 \<or> n = 4 \<or> n = 8) \<and> (n \<noteq> 0 \<longrightarrow> VarintLen v \<le> n)"
proof (cases "n = 0")
  case True
  then have "v = 0" using assms by (auto simp: ReadVarint_def Let_def push_bit_eq_mult split: if_splits)
  then show ?thesis using True by simp
next
  case False
  obtain t where t: "t < 4" "n = 2 ^ t" "n \<le> length b" "unat v < 2 ^ (8 * n - 2)"
    using ReadVarint_bounds [OF assms False] .
  then have "t = 0 \<or> t = 1 \<or> t = 2 \<or> t = 3" by linarith
  then have "unat v < 2 ^ 62" "n = 1 \<or> n = 2 \<or> n = 4 \<or> n = 8" using t(2,4) by auto
  then show ?thesis
    using t(3) ReadVarint_shortest [OF assms False] by (simp add: maxVarint_def word_le_nat_alt)
qed

theorem read_varint_bounds_witness:
  "ReadVarint [0x40, 0x25, 9] = (0x25, 2) \<and> (0x25 :: uint64) \<le> maxVarint \<and> VarintLen 0x25 \<le> 2"
proof -
  have "ReadVarint [0x40, 0x25, 9] = (0x25, 2)" by code_simp
  with read_varint_bounds [OF this] show ?thesis by simp
qed

end
