(* ===== verification/Quic_Spans.thy ===== *)
theory Quic_Spans
  imports Fib_Prelude
begin

text \<open>
  Offsets and ranges of \<^verbatim>\<open>http3/quic/buffer.go\<close>. An offset is a \<^verbatim>\<open>uint64\<close>, here a natural number below
  \<open>2 ^ 64\<close> whose sums and differences wrap (\<open>add64\<close>, \<open>sub64\<close>); \<open>sortSearch\<close> is the binary search of Go's
  \<^verbatim>\<open>sort.Search\<close>. \<^verbatim>\<open>addSpan\<close> keeps a sorted list of disjoint ranges.
\<close>

subsection \<open>Offsets that wrap\<close>

definition add64 :: "nat \<Rightarrow> nat \<Rightarrow> nat" where
  "add64 a b = (a + b) mod 2 ^ 64"

definition sub64 :: "nat \<Rightarrow> nat \<Rightarrow> nat" where
  "sub64 a b = (if b \<le> a then a - b else a + 2 ^ 64 - b)"

lemma add64_eq [simp]: "a + b < 2 ^ 64 \<Longrightarrow> add64 a b = a + b"
  by (simp add: add64_def)

lemma sub64_eq [simp]: "b \<le> a \<Longrightarrow> sub64 a b = a - b"
  by (simp add: sub64_def)

subsection \<open>\<^verbatim>\<open>sort.Search\<close>\<close>

function searchFrom :: "(nat \<Rightarrow> bool) \<Rightarrow> nat \<Rightarrow> nat \<Rightarrow> nat" where
  "searchFrom f i j =
     (if i < j then
        (let h = (i + j) div 2 in if \<not> f h then searchFrom f (h + 1) j else searchFrom f i h)
      else i)"
  by pat_completeness auto
termination
  by (relation "measure (\<lambda>(f, i, j). j - i)") auto

declare searchFrom.simps [simp del]

definition sortSearch :: "nat \<Rightarrow> (nat \<Rightarrow> bool) \<Rightarrow> nat" where
  "sortSearch n f = searchFrom f 0 n"

lemma sortSearch_0 [simp]: "sortSearch 0 f = 0"
  by (simp add: sortSearch_def searchFrom.simps)

lemma searchFrom_least:
  assumes "\<And>a b. a \<le> b \<Longrightarrow> b < n \<Longrightarrow> f a \<Longrightarrow> f b" and "i \<le> j" and "j \<le> n"
    and "\<And>k. k < i \<Longrightarrow> \<not> f k" and "\<And>k. j \<le> k \<Longrightarrow> k < n \<Longrightarrow> f k" and "r = searchFrom f i j"
  shows "r \<le> n \<and> (\<forall>k. k < r \<longrightarrow> \<not> f k) \<and> (\<forall>k. r \<le> k \<and> k < n \<longrightarrow> f k)"
  using assms(2-)
proof (induction "j - i" arbitrary: i j rule: less_induct)
  case less
  show ?case
  proof (cases "i < j")
    case True
    let ?h = "(i + j) div 2"
    have h: "i \<le> ?h" "?h < j" "?h < n" using True less.prems by auto
    show ?thesis
    proof (cases "f ?h")
      case fh: True
      have "f k" if "?h \<le> k" "k < n" for k using assms(1) [OF that fh] .
      moreover have "r = searchFrom f i ?h" using less.prems(5) True fh by (subst (asm) searchFrom.simps) simp
      ultimately show ?thesis using h less.prems(3) by (intro less.hyps [of ?h i]) auto
    next
      case fh: False
      have "\<not> f k" if "k < ?h + 1" for k using fh assms(1) [of k ?h] h(3) that by auto
      moreover have "r = searchFrom f (?h + 1) j" using less.prems(5) True fh by (subst (asm) searchFrom.simps) simp
      ultimately show ?thesis using h less.prems(2,4) by (intro less.hyps [of j "?h + 1"]) auto
    qed
  next
    case False
    then have "r = j" "i = j" using less.prems(1,5) by (auto simp: searchFrom.simps [of f j j])
    then show ?thesis using less.prems by simp
  qed
qed

text \<open>On a list where the condition, once true, stays true, the search finds where it begins.\<close>

lemma sortSearch_takeWhile:
  assumes "\<And>a b. a \<le> b \<Longrightarrow> b < length xs \<Longrightarrow> P (xs ! a) \<Longrightarrow> P (xs ! b)"
  shows "sortSearch (length xs) (\<lambda>i. P (xs ! i)) = length (takeWhile (\<lambda>x. \<not> P x) xs)"
proof -
  define r where "r = sortSearch (length xs) (\<lambda>i. P (xs ! i))"
  have r: "r \<le> length xs" "\<forall>k. k < r \<longrightarrow> \<not> P (xs ! k)" "\<forall>k. r \<le> k \<and> k < length xs \<longrightarrow> P (xs ! k)"
    using searchFrom_least [of "length xs" "\<lambda>i. P (xs ! i)" 0 "length xs" r, OF assms _ _ _ _ r_def [unfolded sortSearch_def]]
    by simp_all
  have "takeWhile (\<lambda>x. \<not> P x) xs = take r xs"
    by (rule takeWhile_eq_take_P_nth) (use r in auto)
  then show ?thesis using r(1) by (simp add: r_def)
qed

subsection \<open>Spans\<close>

record span =
  off :: nat
  fin :: nat

function mergeLoop :: "span list \<Rightarrow> span \<Rightarrow> nat \<Rightarrow> nat \<times> span" where
  "mergeLoop spans s j =
     (if j < length spans \<and> off (spans ! j) \<le> fin s then
        mergeLoop spans \<lparr>off = min (off s) (off (spans ! j)), fin = max (fin s) (fin (spans ! j))\<rparr> (j + 1)
      else (j, s))"
  by pat_completeness auto
termination
  by (relation "measure (\<lambda>(spans, s, j). length spans - j)") auto

declare mergeLoop.simps [simp del]

definition addSpan :: "span list \<Rightarrow> span \<Rightarrow> span list" where
  "addSpan spans s =
     (if fin s \<le> off s then spans
      else
        (let i = sortSearch (length spans) (\<lambda>i. fin (spans ! i) \<ge> off s) in
         case mergeLoop spans s i of
           (j, s) \<Rightarrow>
             if i = j then take i spans @ s # drop i spans
             else take (i + 1) (spans[i := s]) @ drop j spans))"

definition covers :: "span list \<Rightarrow> nat set" where
  "covers spans = (\<Union>s\<in>set spans. {off s..<fin s})"

definition spans_ok :: "span list \<Rightarrow> bool" where
  "spans_ok spans \<longleftrightarrow> sorted_wrt (\<lambda>a b. fin a < off b) spans \<and> (\<forall>s\<in>set spans. off s < fin s)"

lemma covers_simps [simp]:
  "covers [] = {}" "covers (s # spans) = {off s..<fin s} \<union> covers spans" "covers (xs @ ys) = covers xs \<union> covers ys"
  by (simp_all add: covers_def)

fun mergeAll :: "span \<Rightarrow> span list \<Rightarrow> span \<times> span list" where
  "mergeAll s [] = (s, [])"
| "mergeAll s (t # ts) =
     (if off t \<le> fin s then mergeAll \<lparr>off = min (off s) (off t), fin = max (fin s) (fin t)\<rparr> ts else (s, t # ts))"

lemma mergeLoop_mergeAll:
  "j \<le> length spans \<Longrightarrow> mergeLoop spans s j = (j', s') \<Longrightarrow> mergeAll s (drop j spans) = (s', drop j' spans) \<and> j \<le> j' \<and> j' \<le> length spans"
proof (induction spans s j rule: mergeLoop.induct)
  case (1 spans s j)
  show ?case
  proof (cases "j < length spans \<and> off (spans ! j) \<le> fin s")
    case True
    then have "drop j spans = spans ! j # drop (j + 1) spans" by (simp add: Cons_nth_drop_Suc)
    then show ?thesis using "1.IH" [OF True] "1.prems" True by (simp add: mergeLoop.simps [of spans s j])
  next
    case False
    then have "j' = j" "s' = s" using "1.prems"(2) by (auto simp: mergeLoop.simps [of spans s j])
    moreover have "mergeAll s (drop j spans) = (s, drop j spans)"
    proof (cases "drop j spans")
      case (Cons t ts)
      then have "j < length spans" "spans ! j = t" by (metis drop_all list.distinct(1) not_less, rule nth_via_drop)
      then show ?thesis using False Cons by simp
    qed simp
    ultimately show ?thesis using "1.prems"(1) by simp
  qed
qed

lemma mergeAll_ok:
  assumes "mergeAll s ts = (s', rest)" "spans_ok ts" "off s < fin s" "\<forall>t\<in>set ts. off s \<le> fin t"
  shows "spans_ok (s' # rest) \<and> covers (s' # rest) = {off s..<fin s} \<union> covers ts \<and>
    (\<forall>m. m < off s \<and> (\<forall>t\<in>set ts. m < off t) \<longrightarrow> m < off s') \<and> set rest \<subseteq> set ts"
  using assms
proof (induction s ts arbitrary: s' rest rule: mergeAll.induct)
  case (2 s t ts)
  show ?case
  proof (cases "off t \<le> fin s")
    case True
    define u where "u = \<lparr>off = min (off s) (off t), fin = max (fin s) (fin t)\<rparr>"
    have u: "off u = min (off s) (off t)" "fin u = max (fin s) (fin t)" by (simp_all add: u_def)
    have ok: "spans_ok ts" "off t < fin t" using "2.prems"(2) by (simp_all add: spans_ok_def)
    have "mergeAll u ts = (s', rest)" using "2.prems"(1) True by (simp add: u_def)
    moreover have "\<forall>r\<in>set ts. off u \<le> fin r" using "2.prems"(4) by (auto simp: u min_le_iff_disj)
    moreover have "off u < fin u" using "2.prems"(3) by (simp add: u)
    ultimately have "spans_ok (s' # rest) \<and> covers (s' # rest) = {off u..<fin u} \<union> covers ts \<and>
        (\<forall>m. m < off u \<and> (\<forall>t\<in>set ts. m < off t) \<longrightarrow> m < off s') \<and> set rest \<subseteq> set ts"
      by (intro "2.IH" [OF True, of s' rest, folded u_def] ok)
    moreover have "{off u..<fin u} = {off s..<fin s} \<union> {off t..<fin t}"
      using "2.prems"(3,4) ok(2) True by (auto simp: u)
    ultimately show ?thesis by (auto simp: Un_assoc u)
  next
    case False
    then have "s' = s" "rest = t # ts" using "2.prems"(1) by simp_all
    moreover have "fin s < off r" if "r \<in> set ts" for r
      using that False "2.prems"(2) by (fastforce simp: spans_ok_def)
    ultimately show ?thesis using False "2.prems"(2,3) by (simp add: spans_ok_def)
  qed
qed (auto simp: spans_ok_def)

lemma addSpan_ok:
  assumes "spans_ok spans"
  shows "spans_ok (addSpan spans s) \<and> covers (addSpan spans s) = covers spans \<union> {off s..<fin s}"
proof (cases "fin s \<le> off s")
  case True
  then show ?thesis using assms by (simp add: addSpan_def)
next
  case s: False
  let ?P = "\<lambda>t. \<not> fin t \<ge> off s"
  define i where "i = length (takeWhile ?P spans)"
  have "fin (spans ! b) \<ge> off s" if "a \<le> b" "b < length spans" "fin (spans ! a) \<ge> off s" for a b
    using that assms sorted_wrt_nth_less [of "\<lambda>a b. fin a < off b" spans a b] 
    by (cases "a = b") (auto simp: spans_ok_def dest!: nth_mem)
  then have i: "sortSearch (length spans) (\<lambda>i. fin (spans ! i) \<ge> off s) = i"
    unfolding i_def by (rule sortSearch_takeWhile)
  have len: "i \<le> length spans" by (simp add: i_def length_takeWhile_le)
  obtain j s' where m: "mergeLoop spans s i = (j, s')" by fastforce
  define pre post where "pre = take i spans" and "post = drop i spans"
  have split: "spans = pre @ post" by (simp add: pre_def post_def)
  have pre: "\<forall>t\<in>set pre. fin t < off s"
    by (auto simp: pre_def i_def takeWhile_eq_take [symmetric] dest: set_takeWhileD)
  have ok: "spans_ok pre" "spans_ok post" "\<forall>p\<in>set pre. \<forall>t\<in>set post. fin p < off t"
    using assms by (auto simp: split spans_ok_def sorted_wrt_append)
  have post: "\<forall>t\<in>set post. off s \<le> fin t"
  proof (cases post)
    case (Cons t ts)
    then have "t = hd (dropWhile ?P spans)" "dropWhile ?P spans \<noteq> []"
      by (simp_all add: post_def i_def dropWhile_eq_drop)
    then have "off s \<le> fin t" using hd_dropWhile [of ?P spans] by simp
    moreover have "fin t < fin u" if "u \<in> set ts" for u
      using that ok(2) by (simp add: Cons spans_ok_def) (meson less_trans)
    ultimately show ?thesis by (auto simp: Cons dest: less_imp_le intro: order_trans)
  qed simp
  note ma = mergeLoop_mergeAll [OF len m, folded post_def]
  have "mergeAll s post = (s', drop j spans)" using ma by blast
  from mergeAll_ok [OF this ok(2) _ post] s
  have r: "spans_ok (s' # drop j spans)" "covers (s' # drop j spans) = {off s..<fin s} \<union> covers post"
    "\<And>m. m < off s \<Longrightarrow> \<forall>t\<in>set post. m < off t \<Longrightarrow> m < off s'" "set (drop j spans) \<subseteq> set post"
    by auto
  have add: "addSpan spans s = pre @ s' # drop j spans"
    using s ma by (auto simp: addSpan_def i m Let_def take_Suc_conv_app_nth pre_def)
  have "\<forall>p\<in>set pre. fin p < off s'" using r(3) pre ok(3) by blast
  then have "spans_ok (addSpan spans s)"
    using r(1,4) ok(1,3) by (auto simp: add spans_ok_def sorted_wrt_append)
  moreover have "covers spans = covers pre \<union> covers post" by (metis split covers_simps(3))
  then have "covers (addSpan spans s) = covers spans \<union> {off s..<fin s}"
    unfolding add covers_simps(3) r(2) by blast
  ultimately show ?thesis by blast
qed

end
