(* ===== verification/Quic_Send.thy ===== *)
theory Quic_Send
  imports Quic_Spans "HOL-Library.Multiset"
begin

text \<open>
  The send side of \<^verbatim>\<open>http3/quic/buffer.go\<close>: \<^verbatim>\<open>sendBuffer\<close> holds what a stream was given to send until
  the peer acknowledges it. It is a list of runs (\<^verbatim>\<open>sendPiece\<close>); a run may live in a buffer of the
  pool, \<open>pmem\<close> its identity and \<open>pcap\<close> the capacity of its slice. What \<^verbatim>\<open>bufferpool.Get\<close> returns is an
  argument of the operation that calls it, and the buffers an operation puts back are part of its
  result. Where the runs' list keeps its first elements (\<^verbatim>\<open>spare\<close>) is not visible and not modelled.
\<close>

type_synonym pool_buffer = "nat \<times> nat"

record sendPiece =
  poff :: nat
  pdata :: bytes
  pmem :: "nat option"
  pcap :: nat

record sendBuffer =
  base :: nat
  bsize :: nat
  pieces :: "sendPiece list"
  cur :: nat
  nxt :: nat
  lost :: "span list"
  acked :: "span list"

record Part =
  Data :: bytes
  Owned :: "nat option"
  Cap :: nat

definition bend :: "sendBuffer \<Rightarrow> nat" where
  "bend b = add64 (base b) (bsize b)"

definition addPiece :: "sendBuffer \<Rightarrow> sendPiece \<Rightarrow> sendBuffer" where
  "addPiece b p = b\<lparr>pieces := pieces b @ [p]\<rparr>"

definition pend :: "sendPiece \<Rightarrow> nat" where
  "pend p = add64 (poff p) (length (pdata p))"

definition putMem :: "nat option \<Rightarrow> nat list" where
  "putMem m = (case m of None \<Rightarrow> [] | Some i \<Rightarrow> [i])"

definition writeBytes :: "sendBuffer \<Rightarrow> bytes \<Rightarrow> pool_buffer \<Rightarrow> sendBuffer \<times> nat list" where
  "writeBytes b p got =
     (if length p = 0 then (b, [])
      else if pieces b \<noteq> [] \<and> pmem (last (pieces b)) \<noteq> None then
        (let t = last (pieces b); i = length (pieces b) - 1 in
         if length (pdata t) + length p \<le> pcap t then
           (b\<lparr>pieces := (pieces b)[i := t\<lparr>pdata := pdata t @ p\<rparr>], bsize := add64 (bsize b) (length p)\<rparr>, [])
         else
           (b\<lparr>pieces := (pieces b)[i := t\<lparr>pdata := pdata t @ p, pmem := Some (fst got), pcap := snd got\<rparr>],
              bsize := add64 (bsize b) (length p)\<rparr>, putMem (pmem t)))
      else
        (let b = addPiece b \<lparr>poff = bend b, pdata = p, pmem = Some (fst got), pcap = snd got\<rparr> in
         (b\<lparr>bsize := add64 (bsize b) (length p)\<rparr>, [])))"

definition adopt :: "sendBuffer \<Rightarrow> bytes \<Rightarrow> pool_buffer \<Rightarrow> sendBuffer \<times> nat list" where
  "adopt b p mem =
     (if length p = 0 then (b, [fst mem])
      else
        (let b = addPiece b \<lparr>poff = bend b, pdata = p, pmem = Some (fst mem), pcap = snd mem\<rparr> in
         (b\<lparr>bsize := add64 (bsize b) (length p)\<rparr>, [])))"

fun writeParts :: "sendBuffer \<Rightarrow> Part list \<Rightarrow> sendBuffer \<times> nat list" where
  "writeParts b [] = (b, [])"
| "writeParts b (p # parts) =
     (if length (Data p) = 0 then
        (case writeParts b parts of (b, freed) \<Rightarrow> (b, putMem (Owned p) @ freed))
      else
        (let b = addPiece b \<lparr>poff = bend b, pdata = Data p, pmem = Owned p, pcap = Cap p\<rparr>;
             b = b\<lparr>bsize := add64 (bsize b) (length (Data p))\<rparr>
         in writeParts b parts))"

definition hasLost :: "sendBuffer \<Rightarrow> sendBuffer \<times> bool" where
  "hasLost b = (let b = b\<lparr>lost := dropWhile (\<lambda>s. fin s \<le> base b) (lost b)\<rparr> in (b, lost b \<noteq> []))"

fun runIn :: "sendPiece list \<Rightarrow> nat \<Rightarrow> bytes" where
  "runIn [] o1 = []"
| "runIn (p # ps) o1 = (if pend p > o1 then drop (sub64 o1 (poff p)) (pdata p) else runIn ps o1)"

definition runAt :: "sendBuffer \<Rightarrow> nat \<Rightarrow> bytes" where
  "runAt b o1 = runIn (pieces b) o1"

text \<open>One turn of \<^verbatim>\<open>popLost\<close>'s loop for each unit of fuel; \<open>None\<close> when the fuel is gone.\<close>

primrec popLostLoop :: "nat \<Rightarrow> sendBuffer \<Rightarrow> nat \<Rightarrow> (sendBuffer \<times> nat \<times> bytes) option" where
  "popLostLoop 0 b n = None"
| "popLostLoop (Suc fuel) b n =
     (case hasLost b of
        (b, False) \<Rightarrow> Some (b, 0, [])
      | (b, True) \<Rightarrow>
          (let s = hd (lost b); rest = tl (lost b);
               o1 = max (off s) (base b);
               run = runAt b o1;
               data = take (sub64 (fin s) o1) (take n run);
               s' = s\<lparr>off := if run = [] then fin s else add64 o1 (length data)\<rparr>;
               b' = b\<lparr>lost := if off s' \<ge> fin s' then rest else s' # rest\<rparr>
           in if data \<noteq> [] then Some (b', o1, data) else popLostLoop fuel b' n))"

definition popLost :: "sendBuffer \<Rightarrow> nat \<Rightarrow> (sendBuffer \<times> nat \<times> bytes) option" where
  "popLost b n = (if n = 0 then Some (b, 0, []) else popLostLoop (Suc (length (lost b))) b n)"

function curLoop :: "sendPiece list \<Rightarrow> nat \<Rightarrow> nat \<Rightarrow> nat" where
  "curLoop ps c o1 = (if c < length ps \<and> pend (ps ! c) \<le> o1 then curLoop ps (c + 1) o1 else c)"
  by pat_completeness auto
termination
  by (relation "measure (\<lambda>(ps, c, o1). length ps - c)") auto

declare curLoop.simps [simp del]

definition popNew :: "sendBuffer \<Rightarrow> nat \<Rightarrow> sendBuffer \<times> nat \<times> bytes" where
  "popNew b n =
     (let o1 = nxt b in
      if o1 \<ge> bend b \<or> n = 0 then (b, o1, [])
      else
        (let b = b\<lparr>cur := curLoop (pieces b) (cur b) o1\<rparr> in
         if cur b = length (pieces b) then (b, o1, [])
         else
           (let p = pieces b ! cur b;
                data = take n (drop (sub64 o1 (poff p)) (pdata p))
            in (b\<lparr>nxt := add64 o1 (length data)\<rparr>, o1, data))))"

fun dropPieces :: "sendPiece list \<Rightarrow> nat \<Rightarrow> sendPiece list \<times> nat \<times> nat list" where
  "dropPieces [] o1 = ([], 0, [])"
| "dropPieces (p # ps) o1 =
     (if pend p > o1 then (p # ps, 0, [])
      else (case dropPieces ps o1 of (rest, n, freed) \<Rightarrow> (rest, Suc n, putMem (pmem p) @ freed)))"

definition dropTo :: "sendBuffer \<Rightarrow> nat \<Rightarrow> sendBuffer \<times> nat list" where
  "dropTo b o1 =
     (case dropPieces (pieces b) o1 of
        (ps, n, freed) \<Rightarrow>
          (let c = cur b - n;
               ps = (case ps of
                       [] \<Rightarrow> []
                     | p # ps \<Rightarrow>
                         if poff p < o1 then
                           p\<lparr>pdata := drop (sub64 o1 (poff p)) (pdata p), pcap := pcap p - sub64 o1 (poff p), poff := o1\<rparr> # ps
                         else p # ps)
           in (b\<lparr>pieces := ps, cur := if ps = [] then 0 else c,
                 bsize := bsize b - min (sub64 o1 (base b)) (bsize b), base := o1\<rparr>, freed)))"

definition onAck :: "sendBuffer \<Rightarrow> nat \<Rightarrow> nat \<Rightarrow> sendBuffer \<times> nat list" where
  "onAck b o1 n =
     (let (b, newBase) =
        (if acked b = [] \<and> o1 \<le> base b then (b, Some (add64 o1 n))
         else
           (let b = b\<lparr>acked := addSpan (acked b) \<lparr>off = o1, fin = add64 o1 n\<rparr>\<rparr> in
            if acked b = [] \<or> off (hd (acked b)) > base b then (b, None)
            else (b\<lparr>acked := tl (acked b)\<rparr>, Some (fin (hd (acked b))))))
      in case newBase of
           None \<Rightarrow> (b, [])
         | Some m \<Rightarrow>
             (let m = (if m > bend b then bend b else m) in
              if m \<le> base b then (b, []) else dropTo b m))"

definition release :: "sendBuffer \<Rightarrow> sendBuffer \<times> nat list" where
  "release b =
     (b\<lparr>pieces := [], bsize := 0, base := nxt b, cur := 0, lost := [], acked := []\<rparr>,
      concat (map (\<lambda>p. putMem (pmem p)) (pieces b)))"

definition onLost :: "sendBuffer \<Rightarrow> nat \<Rightarrow> nat \<Rightarrow> sendBuffer" where
  "onLost b o1 n =
     (let e = add64 o1 n; o1 = max o1 (base b) in
      if e \<le> o1 then b else b\<lparr>lost := addSpan (lost b) \<lparr>off = o1, fin = e\<rparr>\<rparr>)"

definition allAcked :: "sendBuffer \<Rightarrow> bool" where
  "allAcked b \<longleftrightarrow> length (pieces b) = 0"

end
