(* ===== verification/Quic_Send_Inv.thy ===== *)
theory Quic_Send_Inv
  imports Quic_Send "HOL-Library.Sublist"
begin

text \<open>
  What a \<^verbatim>\<open>sendBuffer\<close> holds and the invariant of its operations: the runs are contiguous from
  \<^verbatim>\<open>base\<close> on and hold exactly the bytes of the stream that are written and not yet released, and the
  ranges lost and acknowledged lie within what was sent.
\<close>

definition run_bytes :: "sendPiece list \<Rightarrow> bytes" where
  "run_bytes ps = concat (map pdata ps)"

abbreviation held :: "sendBuffer \<Rightarrow> bytes" where
  "held b \<equiv> run_bytes (pieces b)"

fun contig :: "nat \<Rightarrow> sendPiece list \<Rightarrow> bool" where
  "contig o1 [] \<longleftrightarrow> True"
| "contig o1 (p # ps) \<longleftrightarrow> poff p = o1 \<and> pdata p \<noteq> [] \<and> contig (o1 + length (pdata p)) ps"

definition send_ok :: "sendBuffer \<Rightarrow> bool" where
  "send_ok b \<longleftrightarrow>
     contig (base b) (pieces b) \<and> bsize b = length (held b) \<and> base b + bsize b < 2 ^ 62 \<and>
     base b \<le> nxt b \<and> nxt b \<le> base b + bsize b \<and>
     spans_ok (lost b) \<and> (\<forall>s\<in>set (lost b). fin s \<le> nxt b) \<and>
     spans_ok (acked b) \<and> (\<forall>s\<in>set (acked b). base b < off s \<and> fin s \<le> nxt b) \<and>
     cur b \<le> length (pieces b) - 1 \<and> (\<forall>p\<in>set (take (cur b) (pieces b)). pend p \<le> nxt b)"

text \<open>The stream \<open>S\<close>, every byte ever written, of which the buffer holds the end.\<close>

definition stream_of :: "sendBuffer \<Rightarrow> bytes \<Rightarrow> bool" where
  "stream_of b S \<longleftrightarrow> send_ok b \<and> base b \<le> length S \<and> held b = drop (base b) S"

lemma run_bytes_simps [simp]:
  "run_bytes [] = []" "run_bytes (p # ps) = pdata p @ run_bytes ps" "run_bytes (xs @ ys) = run_bytes xs @ run_bytes ys"
  by (simp_all add: run_bytes_def)

lemma contig_append [simp]: "contig o1 (xs @ ys) \<longleftrightarrow> contig o1 xs \<and> contig (o1 + length (run_bytes xs)) ys"
  by (induction xs arbitrary: o1) (auto simp: add.assoc)

lemma pend_eq: "contig o1 ps \<Longrightarrow> o1 + length (run_bytes ps) < 2 ^ 64 \<Longrightarrow> p \<in> set ps \<Longrightarrow> pend p = poff p + length (pdata p)"
proof (induction ps arbitrary: o1)
  case (Cons q ps)
  then show ?case using Cons.IH [of "o1 + length (pdata q)"] by (auto simp: pend_def)
qed simp

lemma runIn_contig:
  assumes "contig o1 ps" "o1 \<le> x" "x < o1 + length (run_bytes ps)" "o1 + length (run_bytes ps) < 2 ^ 64"
  shows "runIn ps x \<noteq> [] \<and> prefix (runIn ps x) (drop (x - o1) (run_bytes ps))"
  using assms
proof (induction ps arbitrary: o1)
  case (Cons p ps)
  then have e: "pend p = o1 + length (pdata p)" "poff p = o1" by (auto simp: pend_def)
  show ?case
  proof (cases "pend p > x")
    case True
    then show ?thesis using Cons.prems e by simp
  next
    case False
    then show ?thesis using Cons.IH [of "o1 + length (pdata p)"] Cons.prems e by simp
  qed
qed simp

lemma dropPieces_contig:
  assumes "contig o1 ps" "o1 + length (run_bytes ps) < 2 ^ 64" "dropPieces ps x = (rest, n, freed)"
  shows "rest = drop n ps \<and> n \<le> length ps \<and> freed = concat (map (\<lambda>p. putMem (pmem p)) (take n ps)) \<and>
    (\<forall>p\<in>set (take n ps). pend p \<le> x) \<and> (rest \<noteq> [] \<longrightarrow> x < pend (hd rest)) \<and>
    contig (o1 + length (run_bytes (take n ps))) rest"
  using assms
proof (induction ps arbitrary: o1 rest n freed)
  case (Cons p ps)
  show ?case
  proof (cases "pend p > x")
    case True
    then show ?thesis using Cons.prems by auto
  next
    case False
    obtain rest' n' freed' where d: "dropPieces ps x = (rest', n', freed')" by (metis prod_cases3)
    then have r: "rest = rest'" "n = Suc n'" "freed = putMem (pmem p) @ freed'" using False Cons.prems(3) by auto
    from Cons.IH [OF _ _ d, of "o1 + length (pdata p)"] Cons.prems(1,2) show ?thesis
      using False by (auto simp: r add.assoc)
  qed
qed simp

lemma bend_eq: "send_ok b \<Longrightarrow> bend b = base b + length (held b)"
  by (simp add: bend_def send_ok_def)

lemma stream_length: "stream_of b S \<Longrightarrow> length S = base b + length (held b)"
  by (simp add: stream_of_def)

subsection \<open>Writing\<close>

lemma addPiece_ok:
  assumes "stream_of b S" "pdata p \<noteq> []" "poff p = bend b" "length S + length (pdata p) < 2 ^ 62"
  shows "stream_of ((addPiece b p)\<lparr>bsize := add64 (bsize b) (length (pdata p))\<rparr>) (S @ pdata p)"
proof -
  have ok: "send_ok b" and S: "base b \<le> length S" "held b = drop (base b) S" using assms(1) by (auto simp: stream_of_def)
  have len: "length S = base b + length (held b)" using S by simp
  have "contig (base b) (pieces b @ [p])" using ok assms(2,3) bend_eq [OF ok] by (simp add: send_ok_def)
  moreover have "add64 (bsize b) (length (pdata p)) = length (held b) + length (pdata p)"
    using ok assms(4) len by (simp add: send_ok_def)
  ultimately have "send_ok ((addPiece b p)\<lparr>bsize := add64 (bsize b) (length (pdata p))\<rparr>)"
    using ok assms(4) len by (auto simp: send_ok_def addPiece_def)
  then show ?thesis using S by (simp add: stream_of_def addPiece_def)
qed

lemma extend_last_ok:
  assumes "stream_of b S" "pieces b = ps @ [t]" "poff t' = poff t" "pdata t' = pdata t @ p" "length S + length p < 2 ^ 62"
  shows "stream_of (b\<lparr>pieces := ps @ [t'], bsize := add64 (bsize b) (length p)\<rparr>) (S @ p)"
proof -
  have ok: "send_ok b" and S: "base b \<le> length S" "run_bytes ps @ pdata t = drop (base b) S"
    using assms(1,2) by (auto simp: stream_of_def)
  have len: "length S = base b + length (held b)" using stream_length [OF assms(1)] .
  have c: "cur b \<le> length ps" using ok by (simp add: send_ok_def assms(2))
  have "add64 (bsize b) (length p) = length (held b) + length p"
    using ok assms(5) len by (simp add: send_ok_def)
  then have "send_ok (b\<lparr>pieces := ps @ [t'], bsize := add64 (bsize b) (length p)\<rparr>)"
    using ok assms(3,4,5) len c by (simp add: send_ok_def assms(2))
  then show ?thesis using S by (simp add: stream_of_def assms(4) flip: append_assoc)
qed

lemma writeBytes_ok:
  assumes "stream_of b S" "length S + length p < 2 ^ 62"
  shows "stream_of (fst (writeBytes b p got)) (S @ p)"
proof -
  consider "p = []" | "p \<noteq> []" "pieces b \<noteq> []" "pmem (last (pieces b)) \<noteq> None"
    | "p \<noteq> []" "\<not> (pieces b \<noteq> [] \<and> pmem (last (pieces b)) \<noteq> None)" by blast
  then show ?thesis
  proof cases
    case 2
    then obtain ps t where ps: "pieces b = ps @ [t]" by (metis append_butlast_last_id)
    let ?t1 = "t\<lparr>pdata := pdata t @ p\<rparr>" and ?t2 = "t\<lparr>pdata := pdata t @ p, pmem := Some (fst got), pcap := snd got\<rparr>"
    have "stream_of (b\<lparr>pieces := ps @ [?t1], bsize := add64 (bsize b) (length p)\<rparr>) (S @ p)"
      "stream_of (b\<lparr>pieces := ps @ [?t2], bsize := add64 (bsize b) (length p)\<rparr>) (S @ p)"
      using extend_last_ok [OF assms(1) ps, of _ p] assms(2) by simp_all
    then show ?thesis using 2 by (simp add: writeBytes_def ps Let_def)
  next
    case 3
    let ?p = "\<lparr>poff = bend b, pdata = p, pmem = Some (fst got), pcap = snd got\<rparr>"
    have "writeBytes b p got = ((addPiece b ?p)\<lparr>bsize := add64 (bsize b) (length p)\<rparr>, [])"
      using 3 by (auto simp: writeBytes_def Let_def addPiece_def)
    then show ?thesis using addPiece_ok [OF assms(1), of ?p] 3(1) assms(2) by simp
  qed (use assms in \<open>simp add: writeBytes_def\<close>)
qed

lemma adopt_ok:
  assumes "stream_of b S" "length S + length p < 2 ^ 62"
  shows "stream_of (fst (adopt b p mem)) (S @ p)"
proof (cases "p = []")
  case False
  let ?p = "\<lparr>poff = bend b, pdata = p, pmem = Some (fst mem), pcap = snd mem\<rparr>"
  show ?thesis
    using addPiece_ok [OF assms(1), of ?p] False assms(2) by (simp add: adopt_def Let_def addPiece_def)
qed (use assms in \<open>simp add: adopt_def\<close>)

lemma writeParts_ok:
  assumes "stream_of b S" "length S + length (concat (map Data parts)) < 2 ^ 62"
  shows "stream_of (fst (writeParts b parts)) (S @ concat (map Data parts))"
  using assms
proof (induction parts arbitrary: b S)
  case (Cons p parts)
  show ?case
  proof (cases "Data p = []")
    case True
    then show ?thesis using Cons by (simp split: prod.splits) (metis fst_conv)
  next
    case False
    let ?p = "\<lparr>poff = bend b, pdata = Data p, pmem = Owned p, pcap = Cap p\<rparr>"
    let ?b = "(addPiece b ?p)\<lparr>bsize := add64 (bsize b) (length (Data p))\<rparr>"
    have "stream_of ?b (S @ Data p)" using addPiece_ok [OF Cons.prems(1), of ?p] False Cons.prems(2) by simp
    from Cons.IH [OF this] Cons.prems(2) False show ?thesis by (simp add: Let_def addPiece_def)
  qed
qed simp

subsection \<open>Sending\<close>

lemma curLoop_ok:
  assumes "c \<le> length ps" "\<forall>p\<in>set (take c ps). pend p \<le> x" "r = curLoop ps c x"
  shows "c \<le> r \<and> r \<le> length ps \<and> (\<forall>p\<in>set (take r ps). pend p \<le> x) \<and> (r < length ps \<longrightarrow> x < pend (ps ! r))"
  using assms
proof (induction ps c x rule: curLoop.induct)
  case (1 ps c x)
  show ?case
  proof (cases "c < length ps \<and> pend (ps ! c) \<le> x")
    case True
    then have "curLoop ps c x = curLoop ps (c + 1) x" by (simp add: curLoop.simps [of ps c])
    moreover have "\<forall>p\<in>set (take (c + 1) ps). pend p \<le> x"
      using True "1.prems"(2) by (auto simp: take_Suc_conv_app_nth)
    ultimately show ?thesis using "1.IH" [OF True] True "1.prems"(3) by simp
  next
    case False
    then have "curLoop ps c x = c" by (subst curLoop.simps) auto
    then show ?thesis using False "1.prems" by auto
  qed
qed

lemma contig_end:
  "contig o1 ps \<Longrightarrow> o1 + length (run_bytes ps) < 2 ^ 64 \<Longrightarrow> o1 \<le> x \<Longrightarrow> \<forall>p\<in>set ps. pend p \<le> x \<Longrightarrow> o1 + length (run_bytes ps) \<le> x"
proof (induction ps arbitrary: o1)
  case (Cons p ps)
  have "pend p = o1 + length (pdata p)" using Cons.prems by (simp add: pend_def)
  then have "o1 + length (pdata p) \<le> x" using Cons.prems(4) by simp
  from Cons.IH [OF _ _ this] Cons.prems show ?case by (simp add: add.assoc)
qed simp

text \<open>The piece at an offset, given that the pieces before it end there or earlier.\<close>

lemma piece_at:
  assumes "contig o1 ps" "o1 + length (run_bytes ps) < 2 ^ 64" "o1 \<le> x" "x < o1 + length (run_bytes ps)"
    and "i \<le> length ps" "\<forall>p\<in>set (take i ps). pend p \<le> x" "i < length ps \<longrightarrow> x < pend (ps ! i)"
  shows "i < length ps \<and> poff (ps ! i) \<le> x \<and> x < poff (ps ! i) + length (pdata (ps ! i)) \<and>
    prefix (drop (x - poff (ps ! i)) (pdata (ps ! i))) (drop (x - o1) (run_bytes ps))"
proof -
  have c: "contig o1 (take i ps)" "contig (o1 + length (run_bytes (take i ps))) (drop i ps)"
    using assms(1) contig_append [of o1 "take i ps" "drop i ps"] by (simp_all del: contig_append)
  have b: "run_bytes ps = run_bytes (take i ps) @ run_bytes (drop i ps)"
    using run_bytes_simps(3) [of "take i ps" "drop i ps"] by (simp del: run_bytes_simps)
  have l: "length (run_bytes ps) = length (run_bytes (take i ps)) + length (run_bytes (drop i ps))" by (simp only: b length_append)
  have e: "o1 + length (run_bytes (take i ps)) \<le> x" by (rule contig_end [OF c(1) _ assms(3,6)]) (use assms(2) l in linarith)
  have "length (run_bytes (drop i ps)) > 0" using e assms(4) l by linarith
  then have "drop i ps \<noteq> []" by (metis length_greater_0_conv run_bytes_simps(1))
  then have i: "i < length ps" by simp
  then have d: "drop i ps = ps ! i # drop (Suc i) ps" by (simp add: Cons_nth_drop_Suc)
  then have o: "poff (ps ! i) = o1 + length (run_bytes (take i ps))" using c(2) by simp
  have "pend (ps ! i) = poff (ps ! i) + length (pdata (ps ! i))"
    using pend_eq [OF assms(1,2)] i by simp
  then have "x < poff (ps ! i) + length (pdata (ps ! i))" using assms(7) i by simp
  moreover have "drop (x - o1) (run_bytes ps) = drop (x - poff (ps ! i)) (pdata (ps ! i) @ run_bytes (drop (Suc i) ps))"
    unfolding b d using e o by simp
  ultimately show ?thesis using i e o by (simp add: prefix_def)
qed

lemma prefix_taken: "prefix d xs \<Longrightarrow> take n d = take (length (take n d)) xs"
  by (auto simp: prefix_def min_def)

lemma popNew_ok:
  assumes st: "stream_of b S" and pop: "popNew b n = (b', o1, data)"
  shows "o1 = nxt b \<and> stream_of b' S \<and> data = take (length data) (drop o1 S) \<and> length data \<le> n \<and>
    nxt b' = nxt b + length data \<and> base b' = base b \<and> lost b' = lost b \<and> acked b' = acked b \<and>
    (n > 0 \<and> nxt b < length S \<longrightarrow> data \<noteq> [])"
proof (cases "nxt b \<ge> bend b \<or> n = 0")
  case True
  then have "b' = b" "o1 = nxt b" "data = []" using pop by (auto simp: popNew_def Let_def)
  moreover have "bend b = length S" unfolding stream_length [OF st] by (rule bend_eq) (use st in \<open>simp add: stream_of_def\<close>)
  ultimately show ?thesis using st True by auto
next
  case False
  have ok: "send_ok b" and S: "base b \<le> length S" "held b = drop (base b) S" using st by (auto simp: stream_of_def)
  define x ps r where "x = nxt b" and "ps = pieces b" and "r = curLoop (pieces b) (cur b) (nxt b)"
  have bnd: "contig (base b) ps" "base b + length (run_bytes ps) < 2 ^ 64" "base b \<le> x" "x < base b + length (run_bytes ps)"
    using ok False bend_eq [OF ok] by (auto simp: send_ok_def x_def ps_def)
  have c: "cur b \<le> r \<and> r \<le> length ps \<and> (\<forall>p\<in>set (take r ps). pend p \<le> x) \<and> (r < length ps \<longrightarrow> x < pend (ps ! r))"
    unfolding x_def ps_def by (rule curLoop_ok [OF _ _ r_def]) (use ok in \<open>auto simp: send_ok_def\<close>)
  have at: "r < length ps \<and> poff (ps ! r) \<le> x \<and> x < poff (ps ! r) + length (pdata (ps ! r)) \<and>
      prefix (drop (x - poff (ps ! r)) (pdata (ps ! r))) (drop (x - base b) (run_bytes ps))"
    by (rule piece_at [OF bnd]) (use c in blast)+
  define d where "d = drop (x - poff (ps ! r)) (pdata (ps ! r))"
  have p: "r < length ps" "poff (ps ! r) \<le> x" using at by simp_all
  have "length (pdata (ps ! r)) > x - poff (ps ! r)" using at by linarith
  then have d: "d \<noteq> []" by (simp add: d_def)
  have "drop (x - base b) (run_bytes ps) = drop x S" using S(2) bnd(3) by (simp add: ps_def)
  then have pre: "prefix d (drop x S)" using at by (simp add: d_def)
  have "popNew b n = (b\<lparr>cur := r, nxt := add64 x (length (take n d))\<rparr>, x, take n d)"
    using False p by (simp add: popNew_def Let_def d_def r_def x_def ps_def)
  then have data: "take n d = data" "o1 = x" "b' = b\<lparr>cur := r, nxt := add64 x (length data)\<rparr>" by (auto simp: pop)
  have len: "x + length data \<le> length S"
    using prefix_length_le [OF pre] bnd(4) stream_length [OF st] data(1) [symmetric] by (simp add: ps_def)
  have S62: "length S < 2 ^ 62" using stream_length [OF st] ok by (simp add: send_ok_def)
  then have a: "add64 x (length data) = x + length data" using len by (intro add64_eq) simp
  have "\<forall>s\<in>set (lost b). fin s \<le> x + length data" "\<forall>s\<in>set (acked b). base b < off s \<and> fin s \<le> x + length data"
    "\<forall>q\<in>set (take r ps). pend q \<le> x + length data" "r \<le> length ps - 1"
    using ok c p(1) by (auto simp: send_ok_def x_def intro: trans_le_add1)
  moreover have "x + length data \<le> base b + bsize b" using len stream_length [OF st] ok by (simp add: send_ok_def)
  ultimately have "send_ok b'" using ok bnd(3) unfolding data(3) a send_ok_def by (simp add: ps_def)
  moreover have "data \<noteq> []" "length data \<le> n" using False d data(1) by auto
  moreover have "data = take (length data) (drop x S)" using prefix_taken [OF pre, of n] by (simp only: data(1))
  ultimately show ?thesis using S a by (simp add: data(2,3) stream_of_def x_def)
qed

lemma spans_ok_dropWhile: "spans_ok spans \<Longrightarrow> spans_ok (dropWhile P spans)"
  by (auto simp: spans_ok_def sorted_wrt_dropWhile dest: set_dropWhileD)

text \<open>Pruning takes ranges that lie before the base only.\<close>

lemma hasLost_ok:
  assumes "stream_of b S" "hasLost b = (b', again)"
  shows "stream_of b' S \<and> b' = b\<lparr>lost := lost b'\<rparr> \<and> covers (lost b') \<inter> {base b..} = covers (lost b) \<inter> {base b..} \<and>
    (again \<longleftrightarrow> lost b' \<noteq> []) \<and> (again \<longrightarrow> base b < fin (hd (lost b'))) \<and> length (lost b') \<le> length (lost b)"
proof -
  let ?P = "\<lambda>s. fin s \<le> base b"
  let ?l = "dropWhile ?P (lost b)"
  have b': "b' = b\<lparr>lost := ?l\<rparr>" "again \<longleftrightarrow> ?l \<noteq> []" using assms(2) by (auto simp: hasLost_def Let_def)
  have "covers (lost b) = covers (takeWhile ?P (lost b)) \<union> covers ?l"
    by (metis covers_simps(3) takeWhile_dropWhile_id)
  moreover have "covers (takeWhile ?P (lost b)) \<inter> {base b..} = {}"
    by (auto simp: covers_def dest: set_takeWhileD)
  moreover have "send_ok b'" using assms(1) unfolding b'(1)
    by (auto simp: stream_of_def send_ok_def spans_ok_dropWhile dest: set_dropWhileD)
  moreover have "?l \<noteq> [] \<Longrightarrow> base b < fin (hd ?l)" using hd_dropWhile [of ?P "lost b"] by simp
  ultimately show ?thesis
    using assms(1) b' by (auto simp: stream_of_def length_dropWhile_le)
qed

lemma shrink_first_span:
  assumes "spans_ok (s # rest)" "x \<le> fin s" "off s \<le> x" "l = (if x \<ge> fin s then rest else s\<lparr>off := x\<rparr> # rest)"
  shows "spans_ok l" and "covers l = {x..<fin s} \<union> covers rest" and "\<forall>t\<in>set l. \<exists>u\<in>set (s # rest). fin t = fin u"
  using assms by (auto simp: spans_ok_def)

lemma popLost_step:
  assumes "n \<noteq> 0" "hasLost b = (c, True)" "lost c = s # rest" "x = max (off s) (base c)" "run = runIn (pieces c) x"
    "data = take (sub64 (fin s) x) (take n run)" "data \<noteq> []"
  shows "popLost b n =
    Some (c\<lparr>lost := if add64 x (length data) \<ge> fin s then rest else s\<lparr>off := add64 x (length data)\<rparr> # rest\<rparr>, x, data)"
proof -
  have "run \<noteq> []" "sub64 (fin s) x \<noteq> 0" using assms(6,7) by auto
  then show ?thesis
    unfolding popLost_def popLostLoop.simps assms(2) using assms(1,3,7)
    by (simp add: Let_def runAt_def assms(4-6) [symmetric] del: take_take)
qed

lemma popLost_ok:
  assumes st: "stream_of b S"
  shows "\<exists>b' o1 data. popLost b n = Some (b', o1, data) \<and> stream_of b' S \<and> data = take (length data) (drop o1 S) \<and>
    length data \<le> n \<and> b' = b\<lparr>lost := lost b'\<rparr> \<and>
    covers (lost b') \<inter> {base b..} = covers (lost b) \<inter> {base b..} - {o1..<o1 + length data} \<and>
    {o1..<o1 + length data} \<subseteq> covers (lost b) \<inter> {base b..} \<and>
    (n > 0 \<and> covers (lost b) \<inter> {base b..} \<noteq> {} \<longrightarrow> data \<noteq> [])"
proof (cases "n = 0")
  case True
  then show ?thesis using st by (auto simp: popLost_def)
next
  case n: False
  obtain c again where h: "hasLost b = (c, again)" by fastforce
  note c = hasLost_ok [OF st h]
  show ?thesis
  proof (cases again)
    case False
    then have "popLost b n = Some (c, 0, [])" using n h by (simp add: popLost_def)
    then show ?thesis using c False by auto
  next
    case True
    then obtain s rest where l: "lost c = s # rest" using c by (cases "lost c") auto
    have ok: "send_ok c" and S: "base c \<le> length S" "held c = drop (base c) S" using c by (auto simp: stream_of_def)
    have cb: "c = b\<lparr>lost := lost c\<rparr>" using c by blast
    have eq: "base c = base b" "nxt c = nxt b" "pieces c = pieces b" by (subst cb, simp)+
    define x where "x = max (off s) (base c)"
    have s: "off s < fin s" "base c < fin s" "fin s \<le> nxt c" "spans_ok (s # rest)"
      using ok c True eq by (auto simp: send_ok_def l spans_ok_def)
    have x: "off s \<le> x" "base c \<le> x" "x < fin s" "fin s \<le> length S" "length S < 2 ^ 62"
      using s ok stream_length [of c S] c by (auto simp: x_def send_ok_def)
    have run: "runIn (pieces c) x \<noteq> [] \<and> prefix (runIn (pieces c) x) (drop (x - base c) (held c))"
      by (rule runIn_contig) (use ok x stream_length [of c S] c in \<open>auto simp: send_ok_def\<close>)
    define run where "run = runIn (pieces c) x"
    define data where "data = take (fin s - x) (take n run)"
    have d: "data \<noteq> []" "length data \<le> n" "length data \<le> fin s - x" using run x n by (auto simp: data_def run_def)
    have pre: "prefix run (drop x S)" using run S x by (simp add: run_def)
    have "data = take (min (fin s - x) n) run" by (simp add: data_def)
    then have dS: "data = take (length data) (drop x S)" using prefix_taken [OF pre] by metis
    define l' where "l' = (if x + length data \<ge> fin s then rest else s\<lparr>off := x + length data\<rparr> # rest)"
    have "x + length data \<le> fin s" "off s \<le> x + length data" using d(3) x by auto
    note l' = shrink_first_span [OF s(4) this l'_def]
    have a: "add64 x (length data) = x + length data" using x d(3) by (intro add64_eq) simp
    have dd: "data = take (sub64 (fin s) x) (take n run)" using x by (simp add: data_def)
    have "hasLost b = (c, True)" using h True by simp
    from popLost_step [OF n this l x_def run_def dd d(1)]
    have pop: "popLost b n = Some (c\<lparr>lost := l'\<rparr>, x, data)" by (simp only: a l'_def)
    have "send_ok (c\<lparr>lost := l'\<rparr>)" using ok l'(1,3) l by (fastforce simp: send_ok_def)
    then have "stream_of (c\<lparr>lost := l'\<rparr>) S" using S by (simp add: stream_of_def)
    moreover have "c\<lparr>lost := l'\<rparr> = b\<lparr>lost := l'\<rparr>" by (subst cb) simp
    moreover have "covers (lost b) \<inter> {base b..} = {x..<fin s} \<union> (covers rest \<inter> {base b..})"
    proof -
      have "covers (lost b) \<inter> {base b..} = covers (s # rest) \<inter> {base b..}" using c l by metis
      also have "\<dots> = {x..<fin s} \<union> (covers rest \<inter> {base b..})" by (auto simp: x_def eq)
      finally show ?thesis .
    qed
    moreover have "covers l' \<inter> {base b..} = {x + length data..<fin s} \<union> (covers rest \<inter> {base b..})"
      unfolding l'(2) using x eq by auto
    moreover have "covers rest \<inter> {x..<x + length data} = {}"
      using s(4) \<open>x + length data \<le> fin s\<close> by (fastforce simp: covers_def spans_ok_def)
    ultimately show ?thesis
      unfolding pop using d dS \<open>x + length data \<le> fin s\<close> by (intro exI [of _ "c\<lparr>lost := l'\<rparr>"] exI [of _ x] exI [of _ data]) auto
  qed
qed

subsection \<open>Acknowledgements and losses\<close>

text \<open>Letting go of the bytes before an offset within what is held.\<close>

lemma dropTo_ok:
  assumes st: "stream_of b S" and x: "base b < x" "x \<le> nxt b" and acked: "\<forall>s\<in>set (acked b). x < off s"
    and d: "dropTo b x = (b', freed)"
  shows "stream_of b' S \<and> base b' = x \<and> nxt b' = nxt b \<and> lost b' = lost b \<and> acked b' = acked b \<and>
    (\<exists>n. freed = concat (map (\<lambda>p. putMem (pmem p)) (take n (pieces b))) \<and>
         map pmem (pieces b') = map pmem (drop n (pieces b)))"
proof -
  have ok: "send_ok b" and S: "base b \<le> length S" "held b = drop (base b) S" using st by (auto simp: stream_of_def)
  define ps where "ps = pieces b"
  obtain rest n fr where dp: "dropPieces ps x = (rest, n, fr)" by (metis prod_cases3)
  have c: "contig (base b) ps" "base b + length (run_bytes ps) < 2 ^ 64" using ok by (auto simp: send_ok_def ps_def)
  have end_S: "base b + length (run_bytes ps) = length S" using stream_length [OF st] by (simp add: ps_def)
  note dp' = dropPieces_contig [OF c dp]
  define o1 where "o1 = base b + length (run_bytes (take n ps))"
  have ct: "contig (base b) (take n ps)" "contig o1 rest" "rest = drop n ps"
    using dp' c(1) contig_append [of "base b" "take n ps" "drop n ps"] by (simp_all add: o1_def del: contig_append)
  have bs: "run_bytes ps = run_bytes (take n ps) @ run_bytes rest"
    using run_bytes_simps(3) [of "take n ps" "drop n ps"] by (simp add: ct(3) del: run_bytes_simps)
  have o1: "o1 \<le> x" unfolding o1_def
    by (rule contig_end [OF ct(1)]) (use dp' c(2) x bs in \<open>auto\<close>)
  define cut where "cut = (case rest of [] \<Rightarrow> [] | p # qs \<Rightarrow>
      if poff p < x then p\<lparr>pdata := drop (sub64 x (poff p)) (pdata p), pcap := pcap p - sub64 x (poff p), poff := x\<rparr> # qs
      else p # qs)"
  have cut: "contig x cut \<and> run_bytes cut = drop (x - o1) (run_bytes rest) \<and> map pmem cut = map pmem rest \<and>
      (cut = [] \<longleftrightarrow> rest = []) \<and> length cut = length rest \<and> map pend cut = map pend rest"
  proof (cases rest)
    case Nil
    then show ?thesis by (simp add: cut_def)
  next
    case (Cons p qs)
    have p: "poff p = o1" "pdata p \<noteq> []" "contig (o1 + length (pdata p)) qs" using ct(2) Cons by auto
    have "p \<in> set ps" using Cons ct(3) by (metis in_set_dropD list.set_intros(1))
    then have "x < o1 + length (pdata p)" using dp' pend_eq [OF c] p(1) Cons by simp
    then have "\<not> length (pdata p) \<le> x - o1" "x + (length (pdata p) - (x - o1)) = o1 + length (pdata p)" using o1 by auto
    moreover have "pend (p\<lparr>pdata := drop (x - o1) (pdata p), pcap := k, poff := x\<rparr>) = pend p" for k
      using calculation(2) p(1) o1 by (simp add: pend_def add64_def)
    ultimately show ?thesis using p o1 by (auto simp: cut_def Cons add.commute)
  qed
  have b': "b' = b\<lparr>pieces := cut, cur := if cut = [] then 0 else cur b - n, bsize := bsize b - min (sub64 x (base b)) (bsize b), base := x\<rparr>"
    "freed = fr"
    using d dp by (simp_all add: dropTo_def ps_def cut_def [symmetric] Let_def)
  have "x \<le> length S" using x ok end_S by (simp add: send_ok_def ps_def)
  then have held': "run_bytes cut = drop x S"
    using cut S o1 bs by (simp add: ps_def) (metis drop_drop drop_append_length le_add_diff_inverse2 o1_def ps_def add.commute)
  have n: "n \<le> length ps" "fr = concat (map (\<lambda>p. putMem (pmem p)) (take n ps))" using dp' by auto
  have size: "bsize b - min (sub64 x (base b)) (bsize b) = length (run_bytes cut)"
    using end_S x ok \<open>x \<le> length S\<close> unfolding held' by (simp add: send_ok_def ps_def)
  have "take (cur b - n) (map pend cut) = take (cur b - n) (drop n (map pend ps))" using cut ct(3) by (simp add: drop_map)
  then have "set (map pend (take (cur b - n) cut)) \<subseteq> set (map pend (take (cur b) ps))"
    by (metis (no_types, lifting) take_map drop_take set_drop_subset)
  then have cur: "\<forall>p\<in>set (take (cur b - n) cut). pend p \<le> nxt b"
    using ok by (fastforce simp: send_ok_def ps_def)
  have "length cut = length ps - n" "cur b \<le> length ps - 1" using cut ct(3) ok by (simp_all add: send_ok_def ps_def)
  then have "(if cut = [] then 0 else cur b - n) \<le> length cut - 1"
    using diff_le_mono [of "cur b" "length ps - 1" n] by simp
  moreover have "x + length (run_bytes cut) = base b + bsize b"
    using held' \<open>x \<le> length S\<close> end_S ok by (simp add: send_ok_def ps_def)
  moreover have "contig x cut" using cut by blast
  ultimately have "send_ok b'"
    using ok x cur acked unfolding b'(1) size send_ok_def by simp
  then show ?thesis using cut n held' \<open>x \<le> length S\<close> ct(3) by (auto simp: stream_of_def b' ps_def)
qed

text \<open>The offsets the buffer counts as acknowledged.\<close>

definition ackedSet :: "sendBuffer \<Rightarrow> nat set" where
  "ackedSet b = {..<base b} \<union> covers (acked b)"

lemma covers_bound: "spans_ok spans \<Longrightarrow> (\<forall>s\<in>set spans. fin s \<le> m) \<longleftrightarrow> covers spans \<subseteq> {..<m}"
proof
  assume ok: "spans_ok spans" and c: "covers spans \<subseteq> {..<m}"
  show "\<forall>s\<in>set spans. fin s \<le> m"
  proof
    fix s assume s: "s \<in> set spans"
    then have "off s < fin s" using ok by (simp add: spans_ok_def)
    then have "fin s - 1 \<in> {off s..<fin s}" by auto
    then have "fin s - 1 \<in> covers spans" using s unfolding covers_def by blast
    then show "fin s \<le> m" using c by auto
  qed
qed (auto simp: covers_def)

lemma onAck_ok:
  assumes st: "stream_of b S" and x: "x + n \<le> nxt b" and a: "onAck b x n = (b', freed)"
  shows "stream_of b' S \<and> ackedSet b' = ackedSet b \<union> {x..<x + n} \<and> nxt b' = nxt b \<and> lost b' = lost b \<and> base b \<le> base b' \<and>
    (\<exists>k. freed = concat (map (\<lambda>p. putMem (pmem p)) (take k (pieces b))) \<and> map pmem (pieces b') = map pmem (drop k (pieces b)))"
proof -
  have ok: "send_ok b" using st by (simp add: stream_of_def)
  have bnd: "nxt b \<le> bend b" "bend b < 2 ^ 62" using ok bend_eq [OF ok] by (auto simp: send_ok_def)
  then have e: "add64 x n = x + n" using x by simp
  let ?frame = "\<lambda>b'. nxt b' = nxt b \<and> lost b' = lost b \<and> base b \<le> base b' \<and>
    (\<exists>k. freed = concat (map (\<lambda>p. putMem (pmem p)) (take k (pieces b))) \<and> map pmem (pieces b') = map pmem (drop k (pieces b)))"
  have id: "?frame c" if "c = b\<lparr>acked := acked c\<rparr>" "freed = []" for c
  proof -
    have "pieces c = pieces b" "nxt c = nxt b" "lost c = lost b" "base c = base b" by (subst that(1), simp)+
    then show ?thesis using that(2) by (auto intro: exI [of _ 0])
  qed
  show ?thesis
  proof (cases "acked b = [] \<and> x \<le> base b")
    case True
    show ?thesis
    proof (cases "x + n \<le> base b")
      case le: True
      then have "b' = b" "freed = []" using a True bnd e x by (auto simp: onAck_def Let_def)
      then show ?thesis using st le id [of b] by (auto simp: ackedSet_def)
    next
      case False
      then have "dropTo b (x + n) = (b', freed)" using a True bnd e x by (simp add: onAck_def Let_def)
      from dropTo_ok [OF st _ x _ this] False True show ?thesis by (auto simp: ackedSet_def)
    qed
  next
    case False
    define spans where "spans = addSpan (acked b) \<lparr>off = x, fin = x + n\<rparr>"
    have s: "spans_ok spans" "covers spans = covers (acked b) \<union> {x..<x + n}"
      using addSpan_ok [of "acked b" "\<lparr>off = x, fin = x + n\<rparr>"] ok by (auto simp: spans_def send_ok_def)
    have "covers spans \<subseteq> {..<nxt b}" using s(2) x ok covers_bound [of "acked b" "nxt b"] by (auto simp: send_ok_def)
    then have fin: "\<forall>t\<in>set spans. fin t \<le> nxt b" using covers_bound [OF s(1)] by blast
    show ?thesis
    proof (cases "spans = [] \<or> off (hd spans) > base b")
      case True
      then have "b' = b\<lparr>acked := spans\<rparr>" "freed = []" using a False e by (auto simp: onAck_def Let_def spans_def)
      moreover have "\<forall>t\<in>set spans. base b < off t" using True s(1) by (cases spans) (auto simp: spans_ok_def)
      then have "send_ok (b\<lparr>acked := spans\<rparr>)" using ok s(1) fin by (simp add: send_ok_def)
      ultimately show ?thesis using st s(2) id [of b'] by (auto simp: stream_of_def ackedSet_def)
    next
      case sp: False
      then obtain t ts where t: "spans = t # ts" "off t \<le> base b" by (cases spans) auto
      let ?b = "b\<lparr>acked := ts\<rparr>"
      have ts: "\<forall>u\<in>set ts. fin t < off u" "off t < fin t" "spans_ok ts" "fin t \<le> nxt b" using s(1) t fin by (auto simp: spans_ok_def)
      have gap: "fin t \<notin> covers spans" using ts by (auto simp: covers_def t)
      have above: "base b < y" if "y \<in> covers (acked b)" for y
        using that ok by (fastforce simp: send_ok_def covers_def)
      have after: "base b < off u" if u: "u \<in> set ts" for u
      proof (rule ccontr)
        assume "\<not> base b < off u"
        moreover have "off u \<in> covers spans" using u ts(3) by (force simp: covers_def t spans_ok_def)
        moreover have "off t \<in> covers spans" using ts(2) by (simp add: t)
        ultimately have "off u \<in> {x..<x + n}" "off t \<in> {x..<x + n}" using s(2) above t(2) by fastforce+
        then have "fin t \<in> {x..<x + n}" using u ts(1,2) by fastforce
        then show False using gap s(2) by blast
      qed
      have okb: "send_ok ?b" using ok ts(3) after fin by (simp add: send_ok_def t)
      then have stb: "stream_of ?b S" using st by (simp add: stream_of_def)
      have cov: "covers (acked b) \<union> {x..<x + n} = {off t..<fin t} \<union> covers ts" using s(2) by (simp add: t)
      have ack: "ackedSet b \<union> {x..<x + n} = {..<base b} \<union> {..<fin t} \<union> covers ts"
        unfolding ackedSet_def Un_assoc cov using t(2) by (auto simp: Un_assoc [symmetric])
      show ?thesis
      proof (cases "fin t \<le> base b")
        case True
        then have "b' = ?b" "freed = []"
          using a False e sp bnd ts(4) by (auto simp: onAck_def Let_def spans_def [symmetric] t bend_def)
        then show ?thesis using stb ack True id [of b'] by (auto simp: ackedSet_def)
      next
        case gt: False
        then have "dropTo ?b (fin t) = (b', freed)"
          using a False e sp bnd ts(4) by (simp add: onAck_def Let_def spans_def [symmetric] t bend_def)
        from dropTo_ok [OF stb _ _ _ this] gt ts(1,4) ack show ?thesis by (auto simp: ackedSet_def)
      qed
    qed
  qed
qed

lemma onLost_ok:
  assumes st: "stream_of b S" and x: "x + n \<le> nxt b"
  shows "stream_of (onLost b x n) S \<and> onLost b x n = b\<lparr>lost := lost (onLost b x n)\<rparr> \<and>
    covers (lost (onLost b x n)) = covers (lost b) \<union> ({x..<x + n} \<inter> {base b..})"
proof -
  have ok: "send_ok b" using st by (simp add: stream_of_def)
  then have e: "add64 x n = x + n" using x by (simp add: send_ok_def)
  let ?m = "max x (base b)"
  show ?thesis
  proof (cases "x + n \<le> ?m")
    case True
    then have "onLost b x n = b" by (simp add: onLost_def e)
    then show ?thesis using st True by auto
  next
    case False
    let ?l = "addSpan (lost b) \<lparr>off = ?m, fin = x + n\<rparr>"
    have l: "spans_ok ?l" "covers ?l = covers (lost b) \<union> {?m..<x + n}"
      using addSpan_ok [of "lost b" "\<lparr>off = ?m, fin = x + n\<rparr>"] ok by (auto simp: send_ok_def)
    have "covers ?l \<subseteq> {..<nxt b}" using l(2) x ok covers_bound [of "lost b" "nxt b"] by (auto simp: send_ok_def)
    then have "send_ok (b\<lparr>lost := ?l\<rparr>)" using ok l(1) covers_bound [OF l(1)] by (simp add: send_ok_def)
    moreover have "onLost b x n = b\<lparr>lost := ?l\<rparr>" using False by (simp add: onLost_def e Let_def)
    moreover have "{?m..<x + n} = {x..<x + n} \<inter> {base b..}" by auto
    ultimately show ?thesis using st l(2) by (simp add: stream_of_def)
  qed
qed

end
