(* ===== verification/Quic_Send_Run.thy ===== *)
theory Quic_Send_Run
  imports Quic_Send_Inv
begin

text \<open>
  A stream's send buffer over its life: written to, read for new data and for lost data, told of
  acknowledgements and losses, in any order. With the bytes in flight kept beside it, every byte ever
  written is acknowledged, lost, in flight or not yet sent, so nothing is forgotten and the sender
  always has something to send while something is missing; and every buffer taken from the pool is
  held by exactly one run or has been put back once.
\<close>

definition newSend :: sendBuffer where
  "newSend = \<lparr>base = 0, bsize = 0, pieces = [], cur = 0, nxt = 0, lost = [], acked = []\<rparr>"

text \<open>A step: the buffer, all that was written to it, the offsets in flight, and the offsets acknowledged so far.\<close>

inductive send_step ::
  "sendBuffer \<times> bytes \<times> nat set \<times> nat set \<Rightarrow> sendBuffer \<times> bytes \<times> nat set \<times> nat set \<Rightarrow> bool" where
  Write: "length S + length p < 2 ^ 62 \<Longrightarrow> writeBytes b p got = (b', freed) \<Longrightarrow> send_step (b, S, F, A) (b', S @ p, F, A)"
| Adopt: "length S + length p < 2 ^ 62 \<Longrightarrow> adopt b p mem = (b', freed) \<Longrightarrow> send_step (b, S, F, A) (b', S @ p, F, A)"
| Parts: "length S + length (concat (map Data parts)) < 2 ^ 62 \<Longrightarrow> writeParts b parts = (b', freed) \<Longrightarrow>
    send_step (b, S, F, A) (b', S @ concat (map Data parts), F, A)"
| New: "popNew b n = (b', x, data) \<Longrightarrow> send_step (b, S, F, A) (b', S, F \<union> {x..<x + length data}, A)"
| Again: "popLost b n = Some (b', x, data) \<Longrightarrow> send_step (b, S, F, A) (b', S, F \<union> {x..<x + length data}, A)"
| Acked: "x + n \<le> nxt b \<Longrightarrow> onAck b x n = (b', freed) \<Longrightarrow>
    send_step (b, S, F, A) (b', S, F - {x..<x + n}, A \<union> {x..<x + n})"
| Lost: "x + n \<le> nxt b \<Longrightarrow> send_step (b, S, F, A) (onLost b x n, S, F - {x..<x + n}, A)"

definition send_trace :: "sendBuffer \<Rightarrow> bytes \<Rightarrow> nat set \<Rightarrow> nat set \<Rightarrow> bool" where
  "send_trace b S F A \<longleftrightarrow> send_step\<^sup>*\<^sup>* (newSend, [], {}, {}) (b, S, F, A)"

definition send_run :: "sendBuffer \<Rightarrow> bytes \<Rightarrow> nat set \<Rightarrow> bool" where
  "send_run b S F \<longleftrightarrow> (\<exists>A. send_trace b S F A)"

definition accounted :: "sendBuffer \<Rightarrow> bytes \<Rightarrow> nat set \<Rightarrow> bool" where
  "accounted b S F \<longleftrightarrow> stream_of b S \<and> {..<length S} \<subseteq> ackedSet b \<union> covers (lost b) \<union> F \<union> {nxt b..}"

lemma newSend_ok: "stream_of newSend []"
  by (simp add: newSend_def stream_of_def send_ok_def spans_ok_def)

text \<open>Writing moves neither the base nor the ranges nor what was sent.\<close>

lemma write_frame:
  "(\<forall>b'. fst (writeBytes b p got) = b' \<longrightarrow> base b' = base b \<and> nxt b' = nxt b \<and> lost b' = lost b \<and> acked b' = acked b) \<and>
   (\<forall>b'. fst (adopt b p got) = b' \<longrightarrow> base b' = base b \<and> nxt b' = nxt b \<and> lost b' = lost b \<and> acked b' = acked b)"
  by (auto simp: writeBytes_def adopt_def addPiece_def Let_def)

lemma writeParts_frame:
  "writeParts b parts = (b', freed) \<Longrightarrow> base b' = base b \<and> nxt b' = nxt b \<and> lost b' = lost b \<and> acked b' = acked b"
proof (induction parts arbitrary: b freed)
  case (Cons p parts)
  show ?case
  proof (cases "Data p = []")
    case True
    then obtain fr where "writeParts b parts = (b', fr)" using Cons.prems by (auto split: prod.splits)
    from Cons.IH [OF this] show ?thesis .
  next
    case False
    then show ?thesis using Cons.IH [of _ freed] Cons.prems by (auto simp: Let_def addPiece_def)
  qed
qed simp

lemma accountedI:
  "stream_of b S \<Longrightarrow> (\<And>y. y < length S \<Longrightarrow> y \<in> ackedSet b \<or> y \<in> covers (lost b) \<or> y \<in> F \<or> nxt b \<le> y) \<Longrightarrow> accounted b S F"
  by (auto simp: accounted_def)

lemma accountedD:
  "accounted b S F \<Longrightarrow> stream_of b S"
  "accounted b S F \<Longrightarrow> y < length S \<Longrightarrow> y \<in> ackedSet b \<or> y \<in> covers (lost b) \<or> y \<in> F \<or> nxt b \<le> y"
  by (auto simp: accounted_def)

lemma sent_within: "stream_of b S \<Longrightarrow> nxt b \<le> length S"
proof -
  assume st: "stream_of b S"
  then have "nxt b \<le> base b + length (held b)" unfolding stream_of_def send_ok_def by metis
  then show "nxt b \<le> length S" by (simp only: stream_length [OF st])
qed

lemma accounted_written:
  assumes "accounted b S F" "stream_of b' (S @ p)" "base b' = base b \<and> nxt b' = nxt b \<and> lost b' = lost b \<and> acked b' = acked b"
  shows "accounted b' (S @ p) F"
proof (rule accountedI [OF assms(2)])
  fix y
  have "nxt b \<le> length S" using sent_within accountedD(1) [OF assms(1)] .
  then show "y \<in> ackedSet b' \<or> y \<in> covers (lost b') \<or> y \<in> F \<or> nxt b' \<le> y"
    using accountedD(2) [OF assms(1), of y] assms(3) by (cases "y < length S") (auto simp: ackedSet_def)
qed

lemma accounted_new:
  assumes "accounted b S F" "popNew b n = (b', x, data)"
  shows "accounted b' S (F \<union> {x..<x + length data})"
proof -
  obtain p: "x = nxt b" "stream_of b' S" "nxt b' = nxt b + length data" "lost b' = lost b"
    and "base b' = base b" "acked b' = acked b"
    using popNew_ok [OF accountedD(1) [OF assms(1)] assms(2)] by (elim conjE) (rule that)
  then have a: "ackedSet b' = ackedSet b" by (simp add: ackedSet_def)
  show ?thesis
  proof (rule accountedI [OF p(2)])
    fix y assume "y < length S"
    note accountedD(2) [OF assms(1) this]
    moreover have "nxt b \<le> y \<Longrightarrow> y \<in> {x..<x + length data} \<or> nxt b' \<le> y" unfolding p(1,3) by simp linarith
    ultimately show "y \<in> ackedSet b' \<or> y \<in> covers (lost b') \<or> y \<in> F \<union> {x..<x + length data} \<or> nxt b' \<le> y"
      unfolding a p(4) by blast
  qed
qed

lemma accounted_again:
  assumes "accounted b S F" "popLost b n = Some (b', x, data)"
  shows "accounted b' S (F \<union> {x..<x + length data})"
proof -
  from popLost_ok [OF accountedD(1) [OF assms(1)], of n] assms(2)
  have p: "stream_of b' S" "b' = b\<lparr>lost := lost b'\<rparr>"
    "covers (lost b') \<inter> {base b..} = covers (lost b) \<inter> {base b..} - {x..<x + length data}" by auto
  have q: "nxt b' = nxt b" "ackedSet b' = ackedSet b" by (subst p(2), simp add: ackedSet_def)+
  show ?thesis
  proof (rule accountedI [OF p(1)])
    fix y assume y: "y < length S"
    have "y \<in> covers (lost b') \<inter> {base b..} \<longleftrightarrow> y \<in> covers (lost b) \<inter> {base b..} - {x..<x + length data}"
      by (simp only: p(3))
    moreover have "y < base b \<Longrightarrow> y \<in> ackedSet b" by (simp add: ackedSet_def)
    ultimately show "y \<in> ackedSet b' \<or> y \<in> covers (lost b') \<or> y \<in> F \<union> {x..<x + length data} \<or> nxt b' \<le> y"
      unfolding q using accountedD(2) [OF assms(1) y] by (cases "base b \<le> y") auto
  qed
qed

lemma accounted_acked:
  assumes "accounted b S F" "x + n \<le> nxt b" "onAck b x n = (b', freed)"
  shows "accounted b' S (F - {x..<x + n})"
proof -
  from onAck_ok [OF accountedD(1) [OF assms(1)] assms(2,3)]
  have p: "stream_of b' S" "ackedSet b' = ackedSet b \<union> {x..<x + n}" "nxt b' = nxt b" "lost b' = lost b" by auto
  show ?thesis
  proof (rule accountedI [OF p(1)])
    fix y assume "y < length S"
    from accountedD(2) [OF assms(1) this] 
    show "y \<in> ackedSet b' \<or> y \<in> covers (lost b') \<or> y \<in> F - {x..<x + n} \<or> nxt b' \<le> y"
      unfolding p(2-4) by blast
  qed
qed

lemma accounted_lost:
  assumes "accounted b S F" "x + n \<le> nxt b"
  shows "accounted (onLost b x n) S (F - {x..<x + n})"
proof -
  let ?b = "onLost b x n"
  from onLost_ok [OF accountedD(1) [OF assms(1)] assms(2)]
  have p: "stream_of ?b S" "?b = b\<lparr>lost := lost ?b\<rparr>" "covers (lost ?b) = covers (lost b) \<union> ({x..<x + n} \<inter> {base b..})" by auto
  have q: "nxt ?b = nxt b" "ackedSet ?b = ackedSet b" by (subst p(2), simp add: ackedSet_def)+
  show ?thesis
  proof (rule accountedI [OF p(1)])
    fix y assume y: "y < length S"
    have "y < base b \<Longrightarrow> y \<in> ackedSet b" by (simp add: ackedSet_def)
    then show "y \<in> ackedSet ?b \<or> y \<in> covers (lost ?b) \<or> y \<in> F - {x..<x + n} \<or> nxt ?b \<le> y"
      unfolding q p(3) using accountedD(2) [OF assms(1) y] by (cases "base b \<le> y") auto
  qed
qed

text \<open>
  What the buffer's base and ranges take for acknowledged is what was acknowledged; the two are kept
  by different code, and only \<^verbatim>\<open>onAck\<close> may move them.
\<close>

lemma ackedSet_frame: "base b' = base b \<Longrightarrow> acked b' = acked b \<Longrightarrow> ackedSet b' = ackedSet b"
  by (simp add: ackedSet_def)

lemma popLost_acked:
  assumes "stream_of b S" and "popLost b n = Some (b', x, data)"
  shows "ackedSet b' = ackedSet b"
proof -
  have e: "b' = b\<lparr>lost := lost b'\<rparr>" using popLost_ok [OF assms(1), of n] assms(2) by auto
  show ?thesis by (subst e) (simp add: ackedSet_def)
qed

lemma onLost_acked: "ackedSet (onLost b x n) = ackedSet b"
  by (simp add: onLost_def ackedSet_def Let_def)

lemma send_step_accounted:
  assumes "send_step (b, S, F, A) (b', S', F', A')" and "accounted b S F" and "ackedSet b = A"
  shows "accounted b' S' F' \<and> ackedSet b' = A'"
  using assms(1)
proof (cases rule: send_step.cases)
  case (Write p got freed)
  then show ?thesis
    using writeBytes_ok [OF accountedD(1) [OF assms(2)], of p got] write_frame [of b p got] accounted_written [OF assms(2), of b' p]
      ackedSet_frame [of b' b] assms(3) by simp
next
  case (Adopt p mem freed)
  then show ?thesis
    using adopt_ok [OF accountedD(1) [OF assms(2)], of p mem] write_frame [of b p mem] accounted_written [OF assms(2), of b' p]
      ackedSet_frame [of b' b] assms(3) by simp
next
  case (Parts parts freed)
  then show ?thesis
    using writeParts_ok [OF accountedD(1) [OF assms(2)], of parts] writeParts_frame [of b parts b']
      accounted_written [OF assms(2), of b' "concat (map Data parts)"] ackedSet_frame [of b' b] assms(3) by simp
next
  case (New n x data)
  moreover have "base b' = base b \<and> acked b' = acked b" using popNew_ok [OF accountedD(1) [OF assms(2)] New(4)] by blast
  ultimately show ?thesis using accounted_new [OF assms(2)] ackedSet_frame [of b' b] assms(3) by simp
next
  case (Again n x data)
  then show ?thesis using accounted_again [OF assms(2)] popLost_acked [OF accountedD(1) [OF assms(2)]] assms(3) by simp
next
  case (Acked x n freed)
  then show ?thesis using accounted_acked [OF assms(2)] onAck_ok [OF accountedD(1) [OF assms(2)], of x n b' freed] assms(3) by simp
next
  case (Lost x n)
  then show ?thesis using accounted_lost [OF assms(2)] onLost_acked assms(3) by simp
qed

lemma send_trace_accounted:
  assumes "send_trace b S F A"
  shows "accounted b S F \<and> ackedSet b = A"
proof -
  have "accounted (fst s) (fst (snd s)) (fst (snd (snd s))) \<and> ackedSet (fst s) = snd (snd (snd s))"
    if "send_step\<^sup>*\<^sup>* (newSend, [], {}, {}) s" for s
    using that
  proof induction
    case base
    then show ?case using newSend_ok by (auto intro: accountedI simp: newSend_def ackedSet_def)
  next
    case (step s s')
    then show ?case using send_step_accounted by (metis prod.collapse)
  qed
  from this [of "(b, S, F, A)"] show ?thesis using assms by (simp add: send_trace_def)
qed

lemma send_run_accounted: "send_run b S F \<Longrightarrow> accounted b S F"
  using send_trace_accounted by (auto simp: send_run_def)

lemma send_trace_Nil: "send_trace newSend [] {} {}"
  by (simp add: send_trace_def)

lemma send_trace_step: "send_trace b S F A \<Longrightarrow> send_step (b, S, F, A) (b', S', F', A') \<Longrightarrow> send_trace b' S' F' A'"
  unfolding send_trace_def by (rule rtranclp.rtrancl_into_rtrancl)

lemma send_run_Nil: "send_run newSend [] {}"
  using send_trace_Nil by (auto simp: send_run_def)

text \<open>A run: two bytes are written, sent together, and the second is acknowledged.\<close>

lemma send_trace_hello:
  "send_trace \<lparr>base = 0, bsize = 2, pieces = [\<lparr>poff = 0, pdata = [104, 105], pmem = Some 7, pcap = 64\<rparr>], cur = 0, nxt = 0,
     lost = [], acked = []\<rparr> [104, 105] {} {}"
proof -
  have "writeBytes newSend [104, 105] (7, 64) =
      (\<lparr>base = 0, bsize = 2, pieces = [\<lparr>poff = 0, pdata = [104, 105], pmem = Some 7, pcap = 64\<rparr>], cur = 0, nxt = 0,
        lost = [], acked = []\<rparr>, [])"
    by (simp add: writeBytes_def newSend_def addPiece_def bend_def Let_def)
  from send_step.Write [OF _ this, of "[]"] send_trace_step [OF send_trace_Nil] show ?thesis by simp
qed

lemma send_trace_second:
  "send_trace \<lparr>base = 0, bsize = 2, pieces = [\<lparr>poff = 0, pdata = [104, 105], pmem = Some 7, pcap = 64\<rparr>], cur = 0, nxt = 2,
     lost = [], acked = [\<lparr>off = 1, fin = 2\<rparr>]\<rparr> [104, 105] {0} {1}"
proof -
  let ?b = "\<lambda>n a. \<lparr>base = 0, bsize = 2, pieces = [\<lparr>poff = 0, pdata = [104, 105], pmem = Some 7, pcap = 64\<rparr>], cur = 0, nxt = n,
     lost = [], acked = a\<rparr>"
  have "popNew (?b 0 []) 2 = (?b 2 [], 0, [104, 105])"
    by (simp add: popNew_def bend_def pend_def curLoop.simps Let_def)
  from send_trace_step [OF send_trace_hello send_step.New [OF this]] have "send_trace (?b 2 []) [104, 105] {0..<2} {}"
    by (simp add: numeral_2_eq_2)
  moreover have "add64 1 1 = 2" by (simp add: add64_def)
  then have "onAck (?b 2 []) 1 1 = (?b 2 [\<lparr>off = 1, fin = 2\<rparr>], [])"
    by (simp add: onAck_def addSpan_def mergeLoop.simps Let_def)
  ultimately have "send_trace (?b 2 [\<lparr>off = 1, fin = 2\<rparr>]) [104, 105] ({0..<2} - {1..<1 + 1}) ({} \<union> {1..<1 + 1})"
    using send_step.Acked [of 1 1 "?b 2 []"] send_trace_step by simp
  moreover have "{0..<2} - {1..<1 + 1} = {0 :: nat}" "{} \<union> {1..<1 + 1} = {1 :: nat}" by auto
  ultimately show ?thesis by simp
qed

lemma send_run_hello:
  "send_run \<lparr>base = 0, bsize = 2, pieces = [\<lparr>poff = 0, pdata = [104, 105], pmem = Some 7, pcap = 64\<rparr>], cur = 0, nxt = 0,
     lost = [], acked = []\<rparr> [104, 105] {}"
  using send_trace_hello by (auto simp: send_run_def)

text \<open>
  C12. Nothing written is ever forgotten, and nothing is let go of too early or kept too long. After any
  sequence of writes, sends, acknowledgements and losses, where \<open>A\<close> is what the acknowledgements of the
  run covered: each byte of the stream is in \<open>A\<close>, queued to be sent again, in flight, or not yet sent for
  the first time; the buffer holds exactly the bytes from its base on; and its base is the first byte not
  in \<open>A\<close>, so every byte let go of was acknowledged and every run of acknowledged bytes at the front has
  been let go of. The ranges kept beyond the base are the rest of \<open>A\<close>.
\<close>

theorem send_buffer_accounts:
  assumes "send_trace b S F A"
  shows "{..<length S} \<subseteq> A \<union> covers (lost b) \<union> F \<union> {nxt b..} \<and> run_bytes (pieces b) = drop (base b) S \<and>
    {..<base b} \<subseteq> A \<and> base b \<notin> A \<and> covers (acked b) = A - {..<base b} \<and> base b \<le> nxt b \<and> nxt b \<le> length S"
proof -
  have t: "accounted b S F" "ackedSet b = A" using send_trace_accounted [OF assms] by simp_all
  have st: "stream_of b S" by (rule accountedD(1) [OF t(1)])
  have ok: "\<forall>s\<in>set (acked b). base b < off s" "base b \<le> nxt b" using st unfolding stream_of_def send_ok_def by blast+
  have above: "x \<in> covers (acked b) \<Longrightarrow> base b < x" for x using ok(1) by (fastforce simp: covers_def)
  have A: "A = {..<base b} \<union> covers (acked b)" using t(2) by (simp add: ackedSet_def)
  have "covers (acked b) = A - {..<base b}" "base b \<notin> A" unfolding A using above by fastforce+
  then show ?thesis using t st sent_within [OF st] ok(2) A by (auto simp: accounted_def stream_of_def)
qed

theorem send_buffer_accounts_witness:
  "\<exists>b. send_trace b [104, 105] {0} {1} \<and> {..<length [104 :: byte, 105]} \<subseteq> {1} \<union> covers (lost b) \<union> {0} \<union> {nxt b..} \<and>
    run_bytes (pieces b) = drop (base b) [104, 105] \<and> {..<base b} \<subseteq> {1} \<and> base b \<notin> {1} \<and> covers (acked b) = {1} - {..<base b} \<and>
    base b = 0 \<and> nxt b = 2"
  by (intro exI conjI, rule send_trace_second)
    (use send_buffer_accounts [OF send_trace_second] in simp_all)

text \<open>
  C13. What is sent is what was written: every run of bytes \<^verbatim>\<open>popNew\<close> and \<^verbatim>\<open>popLost\<close> hand out is the
  part of the stream at the offset they give with it, no longer than asked for; \<^verbatim>\<open>popLost\<close> takes from
  lost ranges that are not acknowledged.
\<close>

theorem send_buffer_faithful:
  assumes "send_run b S F"
  shows "(\<forall>b' x data. popNew b n = (b', x, data) \<longrightarrow> data = take (length data) (drop x S) \<and> length data \<le> n \<and> x = nxt b) \<and>
    (\<exists>b' x data. popLost b n = Some (b', x, data) \<and> data = take (length data) (drop x S) \<and> length data \<le> n \<and>
      {x..<x + length data} \<subseteq> covers (lost b) - {..<base b})"
proof -
  have st: "stream_of b S" using accountedD(1) [OF send_run_accounted [OF assms]] .
  obtain b' x data where p: "popLost b n = Some (b', x, data)" "data = take (length data) (drop x S)" "length data \<le> n"
    "{x..<x + length data} \<subseteq> covers (lost b) \<inter> {base b..}"
    using popLost_ok [OF st, of n] by (elim exE conjE) (rule that)
  have "{x..<x + length data} \<subseteq> covers (lost b) - {..<base b}" using p(4) by auto
  then show ?thesis using popNew_ok [OF st] p(1-3) by blast
qed

theorem send_buffer_faithful_witness:
  "\<exists>b' data. popNew \<lparr>base = 0, bsize = 2, pieces = [\<lparr>poff = 0, pdata = [104, 105], pmem = Some 7, pcap = 64\<rparr>], cur = 0, nxt = 0,
     lost = [], acked = []\<rparr> 1 = (b', 0, data) \<and> data = take (length data) (drop 0 [104, 105]) \<and> length data \<le> 1"
proof -
  let ?b = "\<lparr>base = 0, bsize = 2, pieces = [\<lparr>poff = 0, pdata = [104, 105], pmem = Some 7, pcap = 64\<rparr>], cur = 0, nxt = 0,
     lost = [], acked = []\<rparr>"
  obtain b' x data where p: "popNew ?b 1 = (b', x, data)" by (metis prod_cases3)
  then have "x = 0" "data = take (length data) (drop x [104, 105])" "length data \<le> 1"
    using send_buffer_faithful [OF send_run_hello, of 1] by auto
  then show ?thesis using p by auto
qed

text \<open>
  C14. The sender is never stuck: while something written is not acknowledged and nothing is in
  flight, \<^verbatim>\<open>popLost\<close> or \<^verbatim>\<open>popNew\<close> gives data to send, and \<^verbatim>\<open>popLost\<close> always returns.
\<close>

theorem send_buffer_progress:
  assumes "send_run b S {}" and "\<not> allAcked b" and "0 < n"
  shows "(\<exists>b' x data. popLost b n = Some (b', x, data) \<and> data \<noteq> []) \<or>
    ((\<exists>b' x. popLost b n = Some (b', x, [])) \<and> (\<exists>b' x data. popNew b n = (b', x, data) \<and> data \<noteq> []))"
proof -
  have acc: "accounted b S {}" using send_run_accounted [OF assms(1)] .
  then have st: "stream_of b S" by (rule accountedD)
  have ok: "send_ok b" using st by (simp add: stream_of_def)
  obtain p ps where "pieces b = p # ps" using assms(2) by (cases "pieces b") (auto simp: allAcked_def)
  moreover have "contig (base b) (pieces b)" using ok unfolding send_ok_def by blast
  ultimately have "held b \<noteq> []" by auto
  then have lt: "base b < length S" using stream_length [OF st] by (metis length_greater_0_conv less_add_same_cancel1)
  have "\<forall>s\<in>set (acked b). base b < off s" using ok unfolding send_ok_def by blast
  then have "base b \<notin> ackedSet b" by (auto simp: ackedSet_def covers_def)
  then have cases: "base b \<in> covers (lost b) \<or> nxt b \<le> base b" using accountedD(2) [OF acc lt] by auto
  obtain b' x data where pop: "popLost b n = Some (b', x, data)"
    "n > 0 \<and> covers (lost b) \<inter> {base b..} \<noteq> {} \<longrightarrow> data \<noteq> []"
    using popLost_ok [OF st, of n] by (elim exE conjE) (rule that)
  show ?thesis
  proof (cases "data = []")
    case True
    then have "nxt b \<le> base b" using cases pop(2) assms(3) by auto
    then have "nxt b < length S" using lt by linarith
    moreover obtain b'' y d where new: "popNew b n = (b'', y, d)" by (metis prod_cases3)
    ultimately have "d \<noteq> []" using popNew_ok [OF st new] assms(3) by blast
    then show ?thesis using new pop(1) True by blast
  qed (use pop in blast)
qed

theorem send_buffer_progress_witness:
  "\<exists>b. send_run b [104, 105] {} \<and> \<not> allAcked b \<and>
    ((\<exists>b' x data. popLost b 1 = Some (b', x, data) \<and> data \<noteq> []) \<or>
     ((\<exists>b' x. popLost b 1 = Some (b', x, [])) \<and> (\<exists>b' x data. popNew b 1 = (b', x, data) \<and> data \<noteq> [])))"
proof -
  have "\<not> allAcked \<lparr>base = 0, bsize = 2, pieces = [\<lparr>poff = 0, pdata = [104, 105], pmem = Some 7, pcap = 64\<rparr>], cur = 0, nxt = 0,
     lost = [], acked = []\<rparr>" by (simp add: allAcked_def)
  from send_buffer_progress [OF send_run_hello this zero_less_one] this send_run_hello show ?thesis by blast
qed

subsection \<open>The pool's buffers\<close>

definition mems :: "sendBuffer \<Rightarrow> nat multiset" where
  "mems b = mset (concat (map (\<lambda>p. putMem (pmem p)) (pieces b)))"

text \<open>Whether \<^verbatim>\<open>write\<close> takes a buffer from the pool.\<close>

definition takesBuffer :: "sendBuffer \<Rightarrow> bytes \<Rightarrow> bool" where
  "takesBuffer b p \<longleftrightarrow> p \<noteq> [] \<and> \<not> (pieces b \<noteq> [] \<and> pmem (last (pieces b)) \<noteq> None \<and>
     length (pdata (last (pieces b))) + length p \<le> pcap (last (pieces b)))"

lemma writeBytes_mems:
  assumes "writeBytes b p got = (b', freed)"
  shows "mems b' + mset freed = mems b + (if takesBuffer b p then {#fst got#} else {#})"
proof (cases "pieces b = []")
  case True
  then show ?thesis using assms by (auto simp: writeBytes_def takesBuffer_def mems_def addPiece_def putMem_def Let_def)
next
  case False
  then obtain ps t where "pieces b = ps @ [t]" by (metis append_butlast_last_id)
  then show ?thesis using assms
    by (auto simp: writeBytes_def takesBuffer_def mems_def addPiece_def putMem_def Let_def split: if_splits option.splits)
qed

lemma writeParts_mems:
  "writeParts b parts = (b', freed) \<Longrightarrow> mems b' + mset freed = mems b + mset (concat (map (\<lambda>p. putMem (Owned p)) parts))"
proof (induction parts arbitrary: b freed)
  case (Cons p parts)
  show ?case
  proof (cases "Data p = []")
    case True
    then obtain fr where "writeParts b parts = (b', fr)" "freed = putMem (Owned p) @ fr"
      using Cons.prems by (auto split: prod.splits)
    from Cons.IH [OF this(1)] this(2) show ?thesis by (simp add: union_ac)
  next
    case False
    then show ?thesis using Cons.IH [of _ freed] Cons.prems by (auto simp: Let_def addPiece_def mems_def)
  qed
qed simp

lemma onAck_mems:
  assumes "stream_of b S" "x + n \<le> nxt b" "onAck b x n = (b', freed)"
  shows "mems b' + mset freed = mems b"
proof -
  obtain k where k: "freed = concat (map (\<lambda>p. putMem (pmem p)) (take k (pieces b)))"
    "map pmem (pieces b') = map pmem (drop k (pieces b))"
    using onAck_ok [OF assms] by (elim exE conjE) (rule that)
  have c: "concat (map (\<lambda>p. putMem (pmem p)) ps) = concat (map putMem (map pmem ps))" for ps by (simp add: comp_def)
  have "mset freed + mset (concat (map putMem (map pmem (pieces b')))) = mset (concat (map (\<lambda>p. putMem (pmem p)) (take k (pieces b) @ drop k (pieces b))))"
    unfolding k map_append concat_append mset_append c [symmetric] ..
  then show ?thesis by (simp add: mems_def union_commute comp_def)
qed

text \<open>
  C15. No buffer of the pool is lost or put back twice: through every operation of the send buffer,
  the buffers its runs hold and those it puts back are, with multiplicity, those it held and those it
  was given; \<^verbatim>\<open>release\<close> puts back all of them.
\<close>

theorem send_buffer_pool:
  assumes "send_run b S F" and "x + n \<le> nxt b"
  shows "mems (fst (writeBytes b p got)) + mset (snd (writeBytes b p got)) = mems b + (if takesBuffer b p then {#fst got#} else {#}) \<and>
    mems (fst (adopt b p got)) + mset (snd (adopt b p got)) = mems b + {#fst got#} \<and>
    mems (fst (writeParts b parts)) + mset (snd (writeParts b parts)) = mems b + mset (concat (map (\<lambda>p. putMem (Owned p)) parts)) \<and>
    mems (fst (onAck b x n)) + mset (snd (onAck b x n)) = mems b \<and>
    mset (snd (release b)) = mems b \<and> mems (fst (release b)) = {#}"
proof -
  have "stream_of b S" using accountedD(1) [OF send_run_accounted [OF assms(1)]] .
  then have "mems (fst (onAck b x n)) + mset (snd (onAck b x n)) = mems b"
    by (rule onAck_mems [OF _ assms(2) prod.collapse [symmetric]])
  moreover have "mems (fst (adopt b p got)) + mset (snd (adopt b p got)) = mems b + {#fst got#}"
    by (simp add: adopt_def addPiece_def mems_def putMem_def Let_def)
  moreover have "mset (snd (release b)) = mems b" "mems (fst (release b)) = {#}" by (simp_all add: release_def mems_def)
  ultimately show ?thesis
    using writeBytes_mems [OF prod.collapse [symmetric], of b p got] writeParts_mems [OF prod.collapse [symmetric], of b parts] by blast
qed

theorem send_buffer_pool_witness:
  "mems (fst (writeBytes newSend [1] (7, 64))) + mset (snd (writeBytes newSend [1] (7, 64))) = {#7#} \<and>
   mset (snd (release newSend)) = {#}"
  using send_buffer_pool [OF send_run_Nil, of 0 0 "[1]" "(7, 64)" "[]"]
  by (simp add: newSend_def takesBuffer_def mems_def)

end
