(* ===== verification/Quic_Recv.thy ===== *)
theory Quic_Recv
  imports Quic_Spans
begin

text \<open>
  The receive side of \<^verbatim>\<open>http3/quic/buffer.go\<close>: \<^verbatim>\<open>recvBuffer\<close> puts a stream together from frames that
  arrive out of order, overlap or repeat. A nil slice is the empty list.
\<close>

record segment =
  soff :: nat
  sdata :: bytes

definition send :: "segment \<Rightarrow> nat" where
  "send s = add64 (soff s) (length (sdata s))"

record recvBuffer =
  roffset :: nat
  segments :: "segment list"
  buffered :: int

definition minRecvSegments :: nat where
  "minRecvSegments = 1024"

definition recvSegmentLimit :: "nat \<Rightarrow> nat" where
  "recvSegmentLimit window = min (max (window div 2 ^ 9) minRecvSegments) (2 ^ 20)"

definition cutSegments :: "segment list \<Rightarrow> nat \<Rightarrow> nat \<Rightarrow> segment list" where
  "cutSegments segs i j = (if i = j then segs else take i segs @ drop j segs)"

function coverLoop :: "segment list \<Rightarrow> nat \<Rightarrow> nat \<Rightarrow> nat" where
  "coverLoop segs e j = (if j < length segs \<and> send (segs ! j) \<le> e then coverLoop segs e (j + 1) else j)"
  by pat_completeness auto
termination
  by (relation "measure (\<lambda>(segs, e, j). length segs - j)") auto

declare coverLoop.simps [simp del]

text \<open>
  The end of \<^verbatim>\<open>push\<close>, for data that no segment holds any of: it goes to the end of the segment before
  it, in the place of the segments it covers, or between two segments.
\<close>

definition storeAt :: "recvBuffer \<Rightarrow> nat \<Rightarrow> nat \<Rightarrow> nat \<Rightarrow> bytes \<Rightarrow> int \<Rightarrow> recvBuffer \<times> bool" where
  "storeAt r i j o1 data limit =
     (let segs = segments r;
          r = r\<lparr>buffered := buffered r - int (sum_list (map (\<lambda>k. length (sdata (segs ! k))) [i..<j]))\<rparr>
      in if i > 0 \<and> send (segs ! (i - 1)) = o1 then
           (let s = segs ! (i - 1);
                segs = segs[i - 1 := s\<lparr>sdata := sdata s @ data\<rparr>]
            in (r\<lparr>segments := cutSegments segs i j, buffered := buffered r + int (length data)\<rparr>, True))
         else if i < j then
           (r\<lparr>segments := cutSegments (segs[i := \<lparr>soff = o1, sdata = data\<rparr>]) (i + 1) j,
              buffered := buffered r + int (length data)\<rparr>, True)
         else if int (length segs) \<ge> limit then (r, False)
         else
           (r\<lparr>segments := take i segs @ \<lparr>soff = o1, sdata = data\<rparr> # drop i segs,
              buffered := buffered r + int (length data)\<rparr>, True))"

text \<open>\<^verbatim>\<open>push\<close> from where the data starts past everything stored before it.\<close>

definition pushAfter :: "recvBuffer \<Rightarrow> nat \<Rightarrow> nat \<Rightarrow> nat \<Rightarrow> bytes \<Rightarrow> int \<Rightarrow> recvBuffer \<times> bool" where
  "pushAfter r i o1 e data limit =
     (let segs = segments r;
          j = coverLoop segs e i
      in if j < length segs \<and> soff (segs ! j) < e then
           (let data = take (sub64 (soff (segs ! j)) o1) data in
            if length data = 0 then (r, True) else storeAt r i j o1 data limit)
         else storeAt r i j o1 data limit)"

definition push :: "recvBuffer \<Rightarrow> nat \<Rightarrow> bytes \<Rightarrow> int \<Rightarrow> recvBuffer \<times> bool" where
  "push r o1 data limit =
     (let e = add64 o1 (length data) in
      if e \<le> roffset r \<or> length data = 0 then (r, True)
      else
        (let (data, o1) = (if o1 < roffset r then (drop (sub64 (roffset r) o1) data, roffset r) else (data, o1));
             segs = segments r;
             i = sortSearch (length segs) (\<lambda>i. send (segs ! i) > o1)
         in if i < length segs \<and> soff (segs ! i) \<le> o1 \<and> send (segs ! i) \<ge> e then (r, True)
            else
              (let (data, o1, i) =
                     (if i < length segs \<and> soff (segs ! i) \<le> o1
                      then (drop (sub64 (send (segs ! i)) o1) data, send (segs ! i), i + 1)
                      else (data, o1, i))
               in pushAfter r i o1 e data limit)))"

definition takeData :: "recvBuffer \<Rightarrow> nat \<Rightarrow> bytes \<Rightarrow> int \<Rightarrow> recvBuffer \<times> bytes \<times> bool" where
  "takeData r o1 data limit =
     (if length (segments r) > 0 \<or> o1 > roffset r then
        (case push r o1 data limit of (r, ok) \<Rightarrow> (r, [], ok))
      else
        (let e = add64 o1 (length data) in
         if e \<le> roffset r then (r, [], True)
         else (r\<lparr>roffset := e\<rparr>, drop (sub64 (roffset r) o1) data, True)))"

definition pop :: "recvBuffer \<Rightarrow> recvBuffer \<times> bytes" where
  "pop r =
     (if length (segments r) = 0 \<or> soff (segments r ! 0) > roffset r then (r, [])
      else
        (let s = segments r ! 0 in
         (r\<lparr>segments := drop 1 (segments r), buffered := buffered r - int (length (sdata s)), roffset := send s\<rparr>,
          drop (sub64 (roffset r) (soff s)) (sdata s))))"

subsection \<open>The invariant\<close>

definition at_stream :: "bytes \<Rightarrow> nat \<Rightarrow> bytes \<Rightarrow> bool" where
  "at_stream S x data \<longleftrightarrow> x + length data \<le> length S \<and> (\<forall>i<length data. data ! i = S ! (x + i))"

definition segs_ok :: "bytes \<Rightarrow> segment list \<Rightarrow> bool" where
  "segs_ok S segs \<longleftrightarrow>
     sorted_wrt (\<lambda>a b. soff a + length (sdata a) \<le> soff b) segs \<and>
     (\<forall>s\<in>set segs. sdata s \<noteq> [] \<and> at_stream S (soff s) (sdata s))"

definition held_at :: "segment list \<Rightarrow> nat set" where
  "held_at segs = (\<Union>s\<in>set segs. {soff s..<soff s + length (sdata s)})"

definition recv_ok :: "bytes \<Rightarrow> recvBuffer \<Rightarrow> bool" where
  "recv_ok S r \<longleftrightarrow>
     length S < 2 ^ 62 \<and> roffset r \<le> length S \<and> segs_ok S (segments r) \<and>
     (\<forall>s\<in>set (segments r). roffset r \<le> soff s) \<and>
     buffered r = int (sum_list (map (\<lambda>s. length (sdata s)) (segments r)))"

lemma held_at_simps [simp]:
  "held_at [] = {}" "held_at (s # segs) = {soff s..<soff s + length (sdata s)} \<union> held_at segs"
  "held_at (xs @ ys) = held_at xs \<union> held_at ys"
  by (simp_all add: held_at_def)

lemma segs_ok_simps [simp]:
  "segs_ok S []"
  "segs_ok S (s # segs) \<longleftrightarrow> sdata s \<noteq> [] \<and> at_stream S (soff s) (sdata s) \<and>
     (\<forall>t\<in>set segs. soff s + length (sdata s) \<le> soff t) \<and> segs_ok S segs"
  by (auto simp: segs_ok_def)

lemma segs_ok_append:
  "segs_ok S (xs @ ys) \<longleftrightarrow> segs_ok S xs \<and> segs_ok S ys \<and> (\<forall>s\<in>set xs. \<forall>t\<in>set ys. soff s + length (sdata s) \<le> soff t)"
  by (induction xs) (auto simp: ball_Un)

lemma send_eq: "length S < 2 ^ 62 \<Longrightarrow> at_stream S (soff s) (sdata s) \<Longrightarrow> send s = soff s + length (sdata s)"
  by (simp add: send_def at_stream_def)

lemma at_stream_slice: "at_stream S x data \<Longrightarrow> data = take (length data) (drop x S)"
  by (rule nth_equalityI) (auto simp: at_stream_def)

lemma at_stream_drop: "at_stream S x data \<Longrightarrow> n \<le> length data \<Longrightarrow> at_stream S (x + n) (drop n data)"
  by (auto simp: at_stream_def add.assoc)

lemma at_stream_take: "at_stream S x data \<Longrightarrow> at_stream S x (take n data)"
  by (auto simp: at_stream_def)

lemma at_stream_append: "at_stream S x d1 \<Longrightarrow> at_stream S (x + length d1) d2 \<Longrightarrow> at_stream S x (d1 @ d2)"
  by (auto simp: at_stream_def nth_append)

subsection \<open>Storing\<close>

lemma coverLoop_Nil [simp]: "coverLoop [] e i = i"
  by (simp add: coverLoop.simps)

lemma coverLoop_ok:
  assumes "i \<le> length segs" "j = coverLoop segs e i"
  shows "i \<le> j \<and> j \<le> length segs \<and> (\<forall>k. i \<le> k \<and> k < j \<longrightarrow> send (segs ! k) \<le> e) \<and> (j < length segs \<longrightarrow> e < send (segs ! j))"
  using assms
proof (induction segs e i rule: coverLoop.induct)
  case (1 segs e i)
  show ?case
  proof (cases "i < length segs \<and> send (segs ! i) \<le> e")
    case True
    then have "j = coverLoop segs e (i + 1)" using "1.prems"(2) by (simp add: coverLoop.simps [of segs e i])
    from "1.IH" [OF True _ this] True have ih: "i + 1 \<le> j \<and> j \<le> length segs \<and> (\<forall>k. i + 1 \<le> k \<and> k < j \<longrightarrow> send (segs ! k) \<le> e) \<and>
        (j < length segs \<longrightarrow> e < send (segs ! j))" by simp
    moreover have "send (segs ! k) \<le> e" if "i \<le> k" "k < j" for k
      using ih True that by (cases "k = i") auto
    ultimately show ?thesis by auto
  next
    case False
    then have "j = i" using "1.prems"(2) by (subst (asm) coverLoop.simps) auto
    then show ?thesis using False "1.prems"(1) by auto
  qed
qed

text \<open>
  The three places \<open>data\<close> can go, given the segments before it, those it covers and those after it.
\<close>

lemma storeAt_cases:
  assumes "segments r = pre @ mid @ post" "i = length pre" "j = length pre + length mid"
  shows "storeAt r i j x data limit =
    (let b = buffered r - int (sum_list (map (\<lambda>s. length (sdata s)) mid)) in
     if pre \<noteq> [] \<and> send (last pre) = x then
       (r\<lparr>segments := butlast pre @ (last pre)\<lparr>sdata := sdata (last pre) @ data\<rparr> # post, buffered := b + int (length data)\<rparr>, True)
     else if mid = [] \<and> int (length (segments r)) \<ge> limit then (r\<lparr>buffered := b\<rparr>, False)
     else (r\<lparr>segments := pre @ \<lparr>soff = x, sdata = data\<rparr> # post, buffered := b + int (length data)\<rparr>, True))"
proof -
  have sum: "map (\<lambda>k. length (sdata ((pre @ mid @ post) ! k))) [length pre..<length pre + length mid] = map (\<lambda>s. length (sdata s)) mid"
    by (rule nth_equalityI) (auto simp: nth_append)
  show ?thesis
  proof (cases "pre = []")
    case True
    show ?thesis unfolding storeAt_def assms sum Let_def using True
      by (cases mid) (auto simp: cutSegments_def)
  next
    case False
    then obtain ps s where "pre = ps @ [s]" by (metis append_butlast_last_id)
    then show ?thesis unfolding storeAt_def assms sum Let_def
      by (cases mid) (auto simp: cutSegments_def nth_append list_update_append)
  qed
qed

text \<open>What storing must do: hold the new bytes as well, or, refused for want of room, change nothing.\<close>

definition stored :: "bytes \<Rightarrow> recvBuffer \<Rightarrow> int \<Rightarrow> nat set \<Rightarrow> recvBuffer \<times> bool \<Rightarrow> bool" where
  "stored S r limit new res \<longleftrightarrow>
     (case res of (r', ok) \<Rightarrow>
        if ok then recv_ok S r' \<and> roffset r' = roffset r \<and> held_at (segments r') = held_at (segments r) \<union> new \<and>
          int (length (segments r')) \<le> max (int (length (segments r))) limit
        else r' = r \<and> limit \<le> int (length (segments r)))"

lemma stored_same: "recv_ok S r \<Longrightarrow> new \<subseteq> held_at (segments r) \<Longrightarrow> stored S r limit new (r, True)"
  by (auto simp: stored_def)

lemma held_within: "\<forall>s\<in>set segs. a \<le> soff s \<and> soff s + length (sdata s) \<le> b \<Longrightarrow> held_at segs \<subseteq> {a..<b}"
  by (force simp: held_at_def)

lemma storeAt_ok:
  assumes ok: "recv_ok S r" and segs: "segments r = pre @ mid @ post" "i = length pre" "j = length pre + length mid"
    and data: "at_stream S x data" "data \<noteq> []" "roffset r \<le> x"
    and pre: "\<forall>s\<in>set pre. soff s + length (sdata s) \<le> x"
    and mid: "\<forall>s\<in>set mid. x \<le> soff s \<and> soff s + length (sdata s) \<le> x + length data"
    and post: "\<forall>s\<in>set post. x + length data \<le> soff s"
  shows "stored S r limit {x..<x + length data} (storeAt r i j x data limit)"
proof -
  have r: "length S < 2 ^ 62" "roffset r \<le> length S" "segs_ok S (pre @ mid @ post)" "\<forall>s\<in>set (pre @ mid @ post). roffset r \<le> soff s"
    "buffered r = int (sum_list (map (\<lambda>s. length (sdata s)) (pre @ mid @ post)))"
    using ok by (auto simp: recv_ok_def segs)
  have parts: "segs_ok S pre" "segs_ok S mid" "segs_ok S post" using r(3) by (auto simp: segs_ok_append)
  have mid_in: "held_at mid \<subseteq> {x..<x + length data}" using held_within mid by blast
  let ?b = "buffered r - int (sum_list (map (\<lambda>s. length (sdata s)) mid))"
  consider (join) "pre \<noteq> []" "send (last pre) = x" | (full) "\<not> (pre \<noteq> [] \<and> send (last pre) = x)" "mid = []" "int (length (segments r)) \<ge> limit"
    | (new) "\<not> (pre \<noteq> [] \<and> send (last pre) = x)" "\<not> (mid = [] \<and> int (length (segments r)) \<ge> limit)" by blast
  then show ?thesis
  proof cases
    case join
    define ps s where "ps = butlast pre" and "s = last pre"
    have p: "pre = ps @ [s]" using join by (simp add: ps_def s_def)
    have s: "sdata s \<noteq> []" "at_stream S (soff s) (sdata s)" using parts(1) by (auto simp: p segs_ok_append)
    then have x: "x = soff s + length (sdata s)" using join(2) send_eq [OF r(1)] by (simp add: p)
    let ?s = "s\<lparr>sdata := sdata s @ data\<rparr>"
    have res: "storeAt r i j x data limit = (r\<lparr>segments := ps @ ?s # post, buffered := ?b + int (length data)\<rparr>, True)"
      using join by (simp add: storeAt_cases [OF segs] ps_def s_def)
    have "at_stream S (soff s) (sdata s @ data)" using at_stream_append [OF s(2)] data(1) x by simp
    then have "segs_ok S (ps @ ?s # post)"
      using parts r(3) post x s by (auto simp: p segs_ok_append)
    moreover have "held_at (ps @ ?s # post) = held_at (pre @ mid @ post) \<union> {x..<x + length data}"
      using mid_in x by (auto simp: p)
    moreover have "int (length (ps @ ?s # post)) \<le> int (length (segments r))" by (simp add: segs p)
    ultimately show ?thesis using r(1,2,4,5) unfolding res stored_def
      by (auto simp: recv_ok_def segs p max_def)
  next
    case full
    then have "storeAt r i j x data limit = (r, False)" by (auto simp: storeAt_cases [OF segs])
    then show ?thesis using full by (simp add: stored_def)
  next
    case new
    let ?s = "\<lparr>soff = x, sdata = data\<rparr>"
    have res: "storeAt r i j x data limit = (r\<lparr>segments := pre @ ?s # post, buffered := ?b + int (length data)\<rparr>, True)"
      using new by (auto simp: storeAt_cases [OF segs])
    have "segs_ok S (pre @ ?s # post)"
      using parts r(3) pre post data by (auto simp: segs_ok_append)
    moreover have "held_at (pre @ ?s # post) = held_at (pre @ mid @ post) \<union> {x..<x + length data}"
      using mid_in by auto
    moreover have "int (length (pre @ ?s # post)) \<le> max (int (length (segments r))) limit"
      using new(2) by (cases mid) (auto simp: segs)
    ultimately show ?thesis using r(1,2,4,5) data(3) unfolding res stored_def
      by (auto simp: recv_ok_def segs)
  qed
qed

lemma stored_more:
  "stored S r limit new res \<Longrightarrow> new' \<subseteq> new \<union> held_at (segments r) \<Longrightarrow> new \<subseteq> new' \<union> held_at (segments r) \<Longrightarrow> stored S r limit new' res"
  by (auto simp: stored_def split: prod.splits if_splits)

text \<open>\<^verbatim>\<open>push\<close> once the data starts past everything that comes before it.\<close>

lemma push_tail:
  assumes ok: "recv_ok S r" and segs: "segments r = pre @ rest"
    and data: "at_stream S x data" "data \<noteq> []" "roffset r \<le> x" "e = x + length data"
    and pre: "\<forall>s\<in>set pre. soff s + length (sdata s) \<le> x" and rest: "\<forall>s\<in>set rest. x \<le> soff s"
  shows "stored S r limit {x..<e} (pushAfter r (length pre) x e data limit)"
proof -
  define j where j: "j = coverLoop (segments r) e (length pre)"
  note pa = pushAfter_def [of r "length pre" x e data limit, unfolded Let_def, folded j]
  have r: "length S < 2 ^ 62" "segs_ok S (pre @ rest)" using ok by (auto simp: recv_ok_def segs)
  have send: "send s = soff s + length (sdata s)" if "s \<in> set (pre @ rest)" for s
    using that r send_eq by (auto simp: segs_ok_def)
  have jb: "length pre \<le> j \<and> j \<le> length (segments r) \<and> (\<forall>k. length pre \<le> k \<and> k < j \<longrightarrow> send (segments r ! k) \<le> e) \<and>
      (j < length (segments r) \<longrightarrow> e < send (segments r ! j))"
    by (rule coverLoop_ok [OF _ j]) (simp add: segs)
  define m mid post where "m = j - length pre" and "mid = take m rest" and "post = drop m rest"
  have split: "rest = mid @ post" "segments r = pre @ mid @ post" "j = length pre + length mid"
    using jb by (auto simp: m_def mid_def post_def segs)
  have mid: "\<forall>s\<in>set mid. x \<le> soff s \<and> soff s + length (sdata s) \<le> e"
  proof
    fix s assume s: "s \<in> set mid"
    then obtain k where k: "k < length mid" "s = mid ! k" by (metis in_set_conv_nth)
    then have "send (segments r ! (length pre + k)) \<le> e" using jb split(3) by simp
    then have "send s \<le> e" using k by (simp add: split(2) nth_append)
    then show "x \<le> soff s \<and> soff s + length (sdata s) \<le> e" using send s rest by (simp add: split(1))
  qed
  show ?thesis
  proof (cases post)
    case Nil
    then have "\<not> j < length (segments r)" by (simp add: split)
    then show ?thesis unfolding pa using storeAt_ok [OF ok split(2) refl split(3) data(1-3) pre] mid Nil data(4) by simp
  next
    case (Cons p ps)
    have pj: "segments r ! j = p" "j < length (segments r)" by (simp_all add: split(2,3) Cons nth_append)
    have pe: "e < soff p + length (sdata p)" "x \<le> soff p" using jb pj send [of p] rest by (auto simp: split(1) Cons)
    have after: "\<forall>s\<in>set ps. soff p + length (sdata p) \<le> soff s" "\<forall>s\<in>set mid. soff s + length (sdata s) \<le> soff p"
      using r(2) by (auto simp: split(1) Cons segs_ok_append)
    show ?thesis
    proof (cases "soff p < e")
      case False
      then have "\<forall>s\<in>set post. e \<le> soff s" using after(1) by (auto simp: Cons)
      then show ?thesis unfolding pa using storeAt_ok [OF ok split(2) refl split(3) data(1-3) pre] mid data(4) False pj by simp
    next
      case True
      define d where "d = take (soff p - x) data"
      have d: "length d = soff p - x" "x + length d = soff p" "at_stream S x d" "take (sub64 (soff p) x) data = d"
        using True data(4) pe(2) at_stream_take [OF data(1)] by (auto simp: d_def)
      have heldp: "{soff p..<e} \<subseteq> held_at (segments r)" using pe by (auto simp: split(2) Cons)
      show ?thesis
      proof (cases "d = []")
        case dn: True
        then have "soff p = x" using d(1) pe(2) by simp
        then show ?thesis unfolding pa using pj True d(4) dn stored_same [OF ok] heldp by simp
      next
        case dc: False
        have "stored S r limit {x..<x + length d} (storeAt r (length pre) j x d limit)"
          by (rule storeAt_ok [OF ok split(2) refl split(3) d(3) dc data(3) pre])
            (use mid after d(2) pe(1) in \<open>auto simp: Cons\<close>)
        moreover have "{x..<e} = {x..<x + length d} \<union> {soff p..<e}" using d(2) True pe(2) by auto
        ultimately have "stored S r limit {x..<e} (storeAt r (length pre) j x d limit)"
          by (elim stored_more) (use heldp in blast)+
        then show ?thesis unfolding pa using pj True d(4) dc by simp
      qed
    qed
  qed
qed

lemma push_ok:
  assumes ok: "recv_ok S r" and data: "at_stream S o1 data"
  shows "stored S r limit ({o1..<o1 + length data} \<inter> {roffset r..}) (push r o1 data limit)"
proof -
  define e where "e = o1 + length data"
  have r: "length S < 2 ^ 62" "segs_ok S (segments r)" using ok by (auto simp: recv_ok_def)
  have e: "add64 o1 (length data) = e" using data r(1) by (simp add: at_stream_def e_def)
  show ?thesis
  proof (cases "e \<le> roffset r \<or> length data = 0")
    case True
    then have "push r o1 data limit = (r, True)" "{o1..<o1 + length data} \<inter> {roffset r..} = {}"
      using e by (auto simp: push_def Let_def e_def)
    then show ?thesis using stored_same [OF ok] by simp
  next
    case False
    define x d where "x = max o1 (roffset r)" and "d = drop (x - o1) data"
    have x: "roffset r \<le> x" "x < e" "{o1..<o1 + length data} \<inter> {roffset r..} = {x..<e}"
      using False by (auto simp: x_def e_def)
    have d: "at_stream S x d" "d \<noteq> []" "e = x + length d"
      using at_stream_drop [OF data, of "x - o1"] False by (auto simp: d_def x_def e_def max_def)
    have xd: "(if o1 < roffset r then (drop (sub64 (roffset r) o1) data, roffset r) else (data, o1)) = (d, x)"
      by (auto simp: d_def x_def)
    define segs where "segs = segments r"
    have send: "send s = soff s + length (sdata s)" if "s \<in> set segs" for s
      using that r send_eq by (auto simp: segs_ok_def segs_def)
    let ?P = "\<lambda>s. \<not> send s > x"
    define i where "i = length (takeWhile ?P segs)"
    have "send (segs ! b) > x" if "a \<le> b" "b < length segs" "send (segs ! a) > x" for a b
    proof (cases "a = b")
      case False
      then have "soff (segs ! a) + length (sdata (segs ! a)) \<le> soff (segs ! b)"
        using that r(2) sorted_wrt_nth_less [of "\<lambda>a b. soff a + length (sdata a) \<le> soff b" segs a b]
        by (simp add: segs_ok_def segs_def)
      then show ?thesis using that send [of "segs ! a"] send [of "segs ! b"] by simp
    qed (use that in simp)
    then have i: "sortSearch (length segs) (\<lambda>i. send (segs ! i) > x) = i"
      unfolding i_def by (rule sortSearch_takeWhile)
    define pre rest where "pre = take i segs" and "rest = drop i segs"
    have split: "segs = pre @ rest" "length pre = i" by (simp_all add: pre_def rest_def i_def length_takeWhile_le)
    have pre: "\<forall>s\<in>set pre. soff s + length (sdata s) \<le> x"
    proof
      fix s assume "s \<in> set pre"
      then have "s \<in> set (takeWhile ?P segs)" by (simp add: pre_def i_def takeWhile_eq_take [symmetric])
      then show "soff s + length (sdata s) \<le> x" using send [of s] by (auto dest: set_takeWhileD)
    qed
    have hd: "send (hd rest) > x" if "rest \<noteq> []"
      using that hd_dropWhile [of ?P segs] by (simp add: rest_def i_def dropWhile_eq_drop)
    note push = push_def [of r o1 data limit, unfolded e Let_def xd prod.case if_not_P [OF False] segs_def [symmetric] i]
    show ?thesis
    proof (cases "rest \<noteq> [] \<and> soff (hd rest) \<le> x")
      case False
      then have c: "\<not> (i < length segs \<and> soff (segs ! i) \<le> x)"
        by (auto simp: rest_def hd_drop_conv_nth)
      have "\<forall>s\<in>set rest. x \<le> soff s"
        using False r(2) by (cases rest) (auto simp: segs_def [symmetric] split(1) segs_ok_append)
      from push_tail [OF ok split(1) [unfolded segs_def] d(1,2) x(1) d(3) pre this, of limit]
      show ?thesis unfolding push x(3) using c by (auto simp: split(2))
    next
      case True
      then obtain s rest' where s: "rest = s # rest'" "soff s \<le> x" "x < send s" using hd by (cases rest) auto
      then have c: "i < length segs" "segs ! i = s" by (auto simp: split nth_append)
      have se: "send s = soff s + length (sdata s)" using send by (simp add: split(1) s)
      show ?thesis
      proof (cases "send s \<ge> e")
        case True
        then have "{x..<e} \<subseteq> held_at (segments r)" using s(2) by (auto simp: segs_def [symmetric] split(1) s(1) se)
        then show ?thesis unfolding push x(3) using c s True stored_same [OF ok] by simp
      next
        case lt: False
        define y f where "y = send s" and "f = drop (y - x) d"
        have y: "x < y" "y < e" using s lt by (simp_all add: y_def)
        have f: "at_stream S y f" "f \<noteq> []" "e = y + length f"
          using at_stream_drop [OF d(1), of "y - x"] d(3) y by (auto simp: f_def)
        have segs': "segments r = (pre @ [s]) @ rest'" by (simp add: segs_def [symmetric] split(1) s(1))
        have "\<forall>t\<in>set (pre @ [s]). soff t + length (sdata t) \<le> y" using pre y se by (auto simp: y_def)
        moreover have "\<forall>t\<in>set rest'. y \<le> soff t" using r(2) by (simp add: segs' segs_ok_append y_def se)
        ultimately have "stored S r limit {y..<e} (pushAfter r (i + 1) y e f limit)"
          using push_tail [OF ok segs' f(1,2) _ f(3), of limit] y x(1) split(2) by simp
        moreover have "{x..<e} = {x..<y} \<union> {y..<e}" using y by auto
        moreover have "{x..<y} \<subseteq> held_at (segments r)" using s(2) by (auto simp: segs' y_def se)
        ultimately have "stored S r limit {x..<e} (pushAfter r (i + 1) y e f limit)" by (elim stored_more) blast+
        moreover have "push r o1 data limit = pushAfter r (i + 1) y e f limit"
          unfolding push using c s(2) lt y by (simp add: y_def [symmetric] f_def)
        ultimately show ?thesis unfolding x(3) by simp
      qed
    qed
  qed
qed

end
