(* ===== verification/Quic_Recv_Run.thy ===== *)
theory Quic_Recv_Run
  imports Quic_Recv
begin

text \<open>
  A stream's receive buffer over its life. The frames that arrive are pieces of one stream \<open>S\<close>, in any
  order, overlapping and repeated at will; \<open>recv_step\<close> keeps, beside the buffer, what has been handed on
  and which offsets have arrived.
\<close>

definition newRecv :: recvBuffer where
  "newRecv = \<lparr>roffset = 0, segments = [], buffered = 0\<rparr>"

inductive recv_step :: "bytes \<Rightarrow> int \<Rightarrow> recvBuffer \<times> bytes \<times> nat set \<Rightarrow> recvBuffer \<times> bytes \<times> nat set \<Rightarrow> bool"
  for S :: bytes and limit :: int where
  Take: "at_stream S x data \<Longrightarrow> takeData r x data limit = (r', out, True) \<Longrightarrow>
    recv_step S limit (r, D, A) (r', D @ out, A \<union> {x..<x + length data})"
| Push: "at_stream S x data \<Longrightarrow> push r x data limit = (r', True) \<Longrightarrow>
    recv_step S limit (r, D, A) (r', D, A \<union> {x..<x + length data})"
| Pop: "pop r = (r', out) \<Longrightarrow> recv_step S limit (r, D, A) (r', D @ out, A)"

definition recv_run :: "bytes \<Rightarrow> int \<Rightarrow> recvBuffer \<Rightarrow> bytes \<Rightarrow> nat set \<Rightarrow> bool" where
  "recv_run S limit r D A \<longleftrightarrow> (recv_step S limit)\<^sup>*\<^sup>* (newRecv, [], {}) (r, D, A)"

definition assembled :: "bytes \<Rightarrow> int \<Rightarrow> recvBuffer \<Rightarrow> bytes \<Rightarrow> nat set \<Rightarrow> bool" where
  "assembled S limit r D A \<longleftrightarrow>
     recv_ok S r \<and> D = take (roffset r) S \<and> A = {..<roffset r} \<union> held_at (segments r) \<and>
     int (length (segments r)) \<le> max 0 limit"

lemma slice_append: "at_stream S x data \<Longrightarrow> take x S @ data = take (x + length data) S"
  using at_stream_slice [of S x data] by (simp add: take_add)

lemma pop_assembled:
  assumes a: "assembled S limit r D A" and p: "pop r = (r', out)"
  shows "assembled S limit r' (D @ out) A"
proof (cases "segments r = [] \<or> soff (segments r ! 0) > roffset r")
  case True
  then show ?thesis using a p by (auto simp: pop_def)
next
  case False
  then obtain s segs where s: "segments r = s # segs" "soff s \<le> roffset r" by (cases "segments r") auto
  have ok: "recv_ok S r" "A = {..<roffset r} \<union> held_at (segments r)" "D = take (roffset r) S" using a by (auto simp: assembled_def)
  then have so: "soff s = roffset r" "at_stream S (soff s) (sdata s)" "length S < 2 ^ 62" using s by (auto simp: recv_ok_def)
  have e: "send s = roffset r + length (sdata s)" using send_eq [OF so(3,2)] so(1) by simp
  have r': "r' = r\<lparr>segments := segs, buffered := buffered r - int (length (sdata s)), roffset := send s\<rparr>" "out = sdata s"
    using p False so(1) by (auto simp: pop_def s(1) Let_def)
  have "recv_ok S r'" using ok(1) so e by (auto simp: recv_ok_def r' s(1) at_stream_def)
  moreover have "D @ out = take (roffset r') S" using slice_append [OF so(2)] so(1) ok(3) e by (simp add: r')
  moreover have "{..<roffset r} \<union> {soff s..<soff s + length (sdata s)} = {..<send s}" using so(1) e by auto
  then have "A = {..<roffset r'} \<union> held_at (segments r')" using ok(2) by (simp add: r' s(1) Un_assoc [symmetric])
  ultimately show ?thesis using a by (auto simp: assembled_def r'(1) s(1))
qed

lemma push_assembled:
  assumes a: "assembled S limit r D A" and d: "at_stream S x data" and p: "push r x data limit = (r', True)"
  shows "assembled S limit r' D (A \<union> {x..<x + length data})"
proof -
  have "recv_ok S r" using a by (simp add: assembled_def)
  from push_ok [OF this d, of limit] p
  have s: "recv_ok S r'" "roffset r' = roffset r" "held_at (segments r') = held_at (segments r) \<union> ({x..<x + length data} \<inter> {roffset r..})"
    "int (length (segments r')) \<le> max (int (length (segments r))) limit"
    by (simp_all add: stored_def)
  have "{x..<x + length data} \<subseteq> {..<roffset r} \<union> ({x..<x + length data} \<inter> {roffset r..})" by auto
  then have "{..<roffset r} \<union> held_at (segments r) \<union> {x..<x + length data} = {..<roffset r'} \<union> held_at (segments r')"
    unfolding s(2,3) by blast
  moreover have "int (length (segments r')) \<le> max 0 limit" using a s(4) unfolding assembled_def by linarith
  ultimately show ?thesis using a s(1,2) unfolding assembled_def by simp
qed

lemma take_assembled:
  assumes a: "assembled S limit r D A" and d: "at_stream S x data" and t: "takeData r x data limit = (r', out, True)"
  shows "assembled S limit r' (D @ out) (A \<union> {x..<x + length data})"
proof (cases "length (segments r) > 0 \<or> x > roffset r")
  case True
  then have "push r x data limit = (r', True)" "out = []" using t by (auto simp: takeData_def split: prod.splits)
  then show ?thesis using push_assembled [OF a d] by simp
next
  case False
  have ok: "recv_ok S r" "D = take (roffset r) S" "A = {..<roffset r} \<union> held_at (segments r)" using a by (auto simp: assembled_def)
  then have e: "add64 x (length data) = x + length data" using d by (simp add: recv_ok_def at_stream_def)
  have nil: "segments r = []" "x \<le> roffset r" using False by auto
  show ?thesis
  proof (cases "x + length data \<le> roffset r")
    case True
    then have "r' = r" "out = []" using t False e by (auto simp: takeData_def Let_def)
    moreover have "{x..<x + length data} \<subseteq> {..<roffset r}" using True by auto
    ultimately show ?thesis using a unfolding assembled_def by (simp add: Un_absorb2 le_supI1)
  next
    case gt: False
    then have r': "r' = r\<lparr>roffset := x + length data\<rparr>" "out = drop (roffset r - x) data"
      using t False e by (auto simp: takeData_def Let_def)
    have o: "at_stream S (roffset r) out" "roffset r + length out = x + length data"
      using at_stream_drop [OF d, of "roffset r - x"] nil(2) gt by (auto simp: r')
    have "recv_ok S r'" using ok(1) nil d by (simp add: recv_ok_def r' at_stream_def)
    moreover have "D @ out = take (roffset r') S" using slice_append [OF o(1)] o(2) ok(2) by (simp add: r'(1))
    moreover have "{..<roffset r} \<union> {x..<x + length data} = {..<x + length data}" using nil gt by auto
    ultimately show ?thesis using a nil unfolding assembled_def by (simp add: r'(1))
  qed
qed

lemma recv_run_assembled:
  assumes "recv_run S limit r D A" and "length S < 2 ^ 62"
  shows "assembled S limit r D A"
proof -
  have "assembled S limit (fst s) (fst (snd s)) (snd (snd s))" if "(recv_step S limit)\<^sup>*\<^sup>* (newRecv, [], {}) s" for s
    using that
  proof induction
    case base
    then show ?case using assms(2) by (simp add: assembled_def newRecv_def recv_ok_def)
  next
    case (step s s')
    from step.hyps(2) step.IH show ?case
      by cases (auto intro: take_assembled push_assembled pop_assembled)
  qed
  from this [of "(r, D, A)"] show ?thesis using assms(1) by (simp add: recv_run_def)
qed

lemma recv_run_Nil: "recv_run S limit newRecv [] {}"
  by (simp add: recv_run_def)

lemma recv_run_step: "recv_run S limit r D A \<Longrightarrow> recv_step S limit (r, D, A) (r', D', A') \<Longrightarrow> recv_run S limit r' D' A'"
  unfolding recv_run_def by (rule rtranclp.rtrancl_into_rtrancl)

lemma recv_run_gap:
  "recv_run [1, 2, 3] 10 \<lparr>roffset = 0, segments = [\<lparr>soff = 1, sdata = [2, 3]\<rparr>], buffered = 2\<rparr> [] {1..<3}"
proof -
  have "takeData newRecv 1 [2, 3] 10 = (\<lparr>roffset = 0, segments = [\<lparr>soff = 1, sdata = [2, 3]\<rparr>], buffered = 2\<rparr>, [], True)"
    by (simp add: takeData_def push_def pushAfter_def storeAt_def newRecv_def Let_def)
  moreover have "at_stream [1, 2, 3] 1 [2, 3]" by (auto simp: at_stream_def less_Suc_eq)
  ultimately have "recv_step [1, 2, 3] 10 (newRecv, [], {})
      (\<lparr>roffset = 0, segments = [\<lparr>soff = 1, sdata = [2, 3]\<rparr>], buffered = 2\<rparr>, [] @ [], {} \<union> {1..<1 + length [2 :: byte, 3]})"
    by (intro recv_step.Take)
  from recv_run_step [OF recv_run_Nil this] show ?thesis by (simp add: eval_nat_numeral)
qed

text \<open>A buffer at its limit of one segment.\<close>

lemma recv_run_full:
  "recv_run [1, 2, 3] 1 \<lparr>roffset = 0, segments = [\<lparr>soff = 2, sdata = [3]\<rparr>], buffered = 1\<rparr> [] {2..<3}"
proof -
  have "push newRecv 2 [3] 1 = (\<lparr>roffset = 0, segments = [\<lparr>soff = 2, sdata = [3]\<rparr>], buffered = 1\<rparr>, True)"
    by (simp add: push_def pushAfter_def storeAt_def newRecv_def Let_def)
  moreover have "at_stream [1, 2, 3] 2 [3]" by (simp add: at_stream_def)
  ultimately have "recv_step [1, 2, 3] 1 (newRecv, [], {})
      (\<lparr>roffset = 0, segments = [\<lparr>soff = 2, sdata = [3]\<rparr>], buffered = 1\<rparr>, [], {} \<union> {2..<2 + length [3 :: byte]})"
    by (intro recv_step.Push)
  from recv_run_step [OF recv_run_Nil this] show ?thesis by (simp add: eval_nat_numeral)
qed

text \<open>
  C16. The reassembled stream is the stream: whatever the order, overlap and repetition of the frames,
  what has been handed on is exactly the stream's first \<^verbatim>\<open>offset\<close> bytes, and every byte that arrived has
  been handed on or is held, each held byte once (\<^verbatim>\<open>buffered\<close> counts them).
\<close>

theorem recv_buffer_assembles:
  assumes "recv_run S limit r D A" and "length S < 2 ^ 62"
  shows "D = take (roffset r) S \<and> A = {..<roffset r} \<union> held_at (segments r) \<and>
    buffered r = int (sum_list (map (\<lambda>s. length (sdata s)) (segments r))) \<and>
    sorted_wrt (\<lambda>a b. soff a + length (sdata a) \<le> soff b) (segments r) \<and> (\<forall>s\<in>set (segments r). roffset r \<le> soff s)"
  using recv_run_assembled [OF assms] unfolding assembled_def recv_ok_def segs_ok_def by blast

theorem recv_buffer_assembles_witness:
  "recv_run [1, 2, 3] 10 \<lparr>roffset = 0, segments = [\<lparr>soff = 1, sdata = [2, 3]\<rparr>], buffered = 2\<rparr> [] {1..<3} \<and>
   {1..<3} = {..<0} \<union> held_at [\<lparr>soff = 1, sdata = [2, 3]\<rparr>]"
  using recv_buffer_assembles [OF recv_run_gap] recv_run_gap by simp

text \<open>
  C17. Nothing that can be delivered waits: \<^verbatim>\<open>pop\<close> returns nothing only while the next byte of the
  stream has not arrived, and once all of it has and \<^verbatim>\<open>pop\<close> has nothing left, all of it has been handed
  on.
\<close>

theorem recv_buffer_delivers:
  assumes "recv_run S limit r D A" and "length S < 2 ^ 62" and "pop r = (r', [])"
  shows "roffset r \<notin> A \<and> ({..<length S} \<subseteq> A \<longrightarrow> D = S)"
proof -
  have a: "assembled S limit r D A" by (rule recv_run_assembled [OF assms(1,2)])
  have ok: "recv_ok S r" "D = take (roffset r) S" "A = {..<roffset r} \<union> held_at (segments r)" using a by (auto simp: assembled_def)
  have "roffset r \<notin> held_at (segments r)"
  proof (cases "segments r")
    case (Cons s segs)
    then have s: "roffset r \<le> soff s" "sdata s \<noteq> []" "\<forall>t\<in>set segs. soff s + length (sdata s) \<le> soff t" using ok(1) by (auto simp: recv_ok_def)
    have "roffset r < soff s"
    proof (rule ccontr)
      assume "\<not> roffset r < soff s"
      then have "soff s = roffset r" using s(1) by simp
      then show False using assms(3) s(2) by (simp add: pop_def Cons Let_def)
    qed
    then show ?thesis using s(3) by (fastforce simp: Cons held_at_def)
  qed simp
  then have "roffset r \<notin> A" using ok(3) by simp
  moreover have "D = S" if "{..<length S} \<subseteq> A"
  proof -
    have "\<not> roffset r < length S" using that \<open>roffset r \<notin> A\<close> by auto
    then show ?thesis using ok(2) by simp
  qed
  ultimately show ?thesis by blast
qed

theorem recv_buffer_delivers_witness:
  "pop \<lparr>roffset = 0, segments = [\<lparr>soff = 1, sdata = [2, 3]\<rparr>], buffered = 2\<rparr> =
     (\<lparr>roffset = 0, segments = [\<lparr>soff = 1, sdata = [2, 3]\<rparr>], buffered = 2\<rparr>, []) \<and> 0 \<notin> {1..<3 :: nat}"
proof -
  have "pop \<lparr>roffset = 0, segments = [\<lparr>soff = 1, sdata = [2, 3]\<rparr>], buffered = 2\<rparr> =
     (\<lparr>roffset = 0, segments = [\<lparr>soff = 1, sdata = [2, 3]\<rparr>], buffered = 2\<rparr>, [])" by (simp add: pop_def)
  with recv_buffer_delivers [OF recv_run_gap _ this] show ?thesis by simp
qed

text \<open>
  C18. A peer cannot make the buffer keep more than \<^verbatim>\<open>limit\<close> segments, however it cuts its data; a frame
  is refused only when the limit is reached, and then leaves the buffer as it was.
\<close>

theorem recv_buffer_bounded:
  assumes "recv_run S limit r D A" and "length S < 2 ^ 62" and "at_stream S x data"
  shows "int (length (segments r)) \<le> max 0 limit \<and>
    (\<forall>r'. push r x data limit = (r', False) \<longrightarrow> r' = r \<and> limit \<le> int (length (segments r)))"
proof -
  have a: "assembled S limit r D A" by (rule recv_run_assembled [OF assms(1,2)])
  then have "recv_ok S r" by (simp add: assembled_def)
  from push_ok [OF this assms(3), of limit] a show ?thesis by (auto simp: stored_def assembled_def)
qed

theorem recv_buffer_bounded_witness:
  "\<exists>r. recv_run [1, 2, 3] 1 r [] {2..<3} \<and> push r 0 [1] 1 = (r, False) \<and>
    int (length (segments r)) \<le> max 0 1 \<and> 1 \<le> int (length (segments r))"
proof -
  let ?r = "\<lparr>roffset = 0, segments = [\<lparr>soff = 2, sdata = [3]\<rparr>], buffered = 1\<rparr>"
  have run: "recv_run [1, 2, 3] 1 ?r [] {2..<3}" by (rule recv_run_full)
  have at: "at_stream [1, 2, 3] 0 [1]" by (simp add: at_stream_def)
  have e: "send \<lparr>soff = 2, sdata = [3]\<rparr> = 3" by (simp add: send_def)
  have i: "sortSearch (Suc 0) (\<lambda>i. 0 < send ([\<lparr>soff = 2, sdata = [3]\<rparr>] ! i)) = 0"
    unfolding sortSearch_def by (subst searchFrom.simps) (simp add: e searchFrom.simps [of _ 0 0])
  have j: "coverLoop [\<lparr>soff = 2, sdata = [3]\<rparr>] (Suc 0) 0 = 0" by (subst coverLoop.simps) (simp add: e)
  have refused: "push ?r 0 [1] 1 = (?r, False)" by (simp add: push_def pushAfter_def storeAt_def i j Let_def)
  have "int (length (segments ?r)) \<le> max 0 1 \<and> 1 \<le> int (length (segments ?r))"
    using recv_buffer_bounded [OF run _ at] refused by auto
  then show ?thesis using run refused by blast
qed

end
