(* ===== verification/Quic_Ranges.thy ===== *)
theory Quic_Ranges
  imports Quic_Spans "HOL-Library.Code_Target_Nat"
begin

text \<open>
  The packet numbers received in a space, \<^verbatim>\<open>rangeSet\<close> of \<^verbatim>\<open>http3/quic/buffer.go\<close>: ascending, disjoint
  and non-adjacent ranges, at most \<^verbatim>\<open>maxAckRanges\<close> of them. A connection processes a packet only if
  \<^verbatim>\<open>add\<close> reports it new.
\<close>

record pnRange =
  lo :: nat
  hi :: nat

definition maxAckRanges :: nat where
  "maxAckRanges = 32"

text \<open>The three ways a packet number that is in no range goes in, at the first range that ends at it or after it.\<close>

definition insertPN :: "pnRange list \<Rightarrow> nat \<Rightarrow> nat \<Rightarrow> pnRange list" where
  "insertPN r i pn =
     (if i < length r \<and> add64 (hi (r ! i)) 1 = pn then
        (let r = r[i := (r ! i)\<lparr>hi := pn\<rparr>] in
         if i + 1 < length r \<and> lo (r ! (i + 1)) = add64 pn 1 then
           (let r = r[i := (r ! i)\<lparr>hi := hi (r ! (i + 1))\<rparr>] in take (i + 1) r @ drop (i + 2) r)
         else r)
      else if i < length r \<and> lo (r ! i) = add64 pn 1 then r[i := (r ! i)\<lparr>lo := pn\<rparr>]
      else take i r @ \<lparr>lo = pn, hi = pn\<rparr> # drop i r)"

definition rangeAdd :: "pnRange list \<Rightarrow> nat \<Rightarrow> pnRange list \<times> bool" where
  "rangeAdd r pn =
     (if length r > 0 \<and> pn < lo (r ! 0) \<and> length r = maxAckRanges then (r, False)
      else
        (let i = sortSearch (length r) (\<lambda>i. add64 (hi (r ! i)) 1 \<ge> pn) in
         if i < length r \<and> lo (r ! i) \<le> pn \<and> pn \<le> hi (r ! i) then (r, False)
         else
           (let r = insertPN r i pn in
            (if length r > maxAckRanges then drop 1 r else r, True))))"



subsection \<open>What a range set holds\<close>

definition pns :: "pnRange list \<Rightarrow> nat set" where
  "pns r = (\<Union>a\<in>set r. {lo a..hi a})"


lemma pns_simps [simp]: "pns [] = {}" "pns (a # r) = {lo a..hi a} \<union> pns r" "pns (xs @ ys) = pns xs \<union> pns ys"
  by (simp_all add: pns_def)












text \<open>
  Once an oldest range has been dropped, a later merge of two ranges makes room again, and \<^verbatim>\<open>add\<close> takes
  a number that was in the dropped range for new: with 10, 12, 14 and so on up to 72 received, 74 drops
  the range of 10, 13 joins two ranges, and a second packet 10 is then reported new.
\<close>

lemma range_set_readmits:
  "let r = map (\<lambda>i. \<lparr>lo = 10 + 2 * i, hi = 10 + 2 * i\<rparr>) [0..<32] in
   10 \<in> set (map lo r) \<and> snd (rangeAdd (fst (rangeAdd (fst (rangeAdd r 74)) 13)) 10)"
  by code_simp

end
