(* ===== verification/Ws_Utf8.thy ===== *)
theory Ws_Utf8
  imports Fib_Prelude
begin

text \<open>
  The incremental UTF-8 validator of the WebSocket parser, \<^verbatim>\<open>websocket/utf8.go\<close>, with the standard
  library's \<^verbatim>\<open>utf8.Valid\<close> it checks whole stretches with. The text is given in pieces of any size;
  the validator is shown to accept exactly the pieces of encoded Unicode scalar values.
\<close>

subsection \<open>The standard library's check\<close>

text \<open>
  \<^verbatim>\<open>utf8.Valid\<close> looks the first byte of a sequence up in a table, which gives the length of the
  sequence and the bounds of its second byte; the remaining bytes lie in \<^verbatim>\<open>0x80..0xbf\<close>.
\<close>

definition leadByte :: "byte \<Rightarrow> (nat \<times> byte \<times> byte) option" where
  "leadByte b =
     (if b < 0xc2 then None
      else if b \<le> 0xdf then Some (2, 0x80, 0xbf)
      else if b = 0xe0 then Some (3, 0xa0, 0xbf)
      else if b = 0xed then Some (3, 0x80, 0x9f)
      else if b \<le> 0xef then Some (3, 0x80, 0xbf)
      else if b = 0xf0 then Some (4, 0x90, 0xbf)
      else if b \<le> 0xf3 then Some (4, 0x80, 0xbf)
      else if b = 0xf4 then Some (4, 0x80, 0x8f)
      else None)"

definition cont :: "byte \<Rightarrow> bool" where
  "cont b \<longleftrightarrow> 0x80 \<le> b \<and> b \<le> 0xbf"

function utf8Valid :: "bytes \<Rightarrow> bool" where
  "utf8Valid [] = True"
| "utf8Valid (b # rest) =
     (if b < 0x80 then utf8Valid rest
      else
        (case leadByte b of
           None \<Rightarrow> False
         | Some (sz, l, h) \<Rightarrow>
             if Suc (length rest) < sz then False
             else if rest ! 0 < l \<or> h < rest ! 0 then False
             else if sz = 2 then utf8Valid (drop 1 rest)
             else if \<not> cont (rest ! 1) then False
             else if sz = 3 then utf8Valid (drop 2 rest)
             else if \<not> cont (rest ! 2) then False
             else utf8Valid (drop 3 rest)))"
  by pat_completeness auto
termination
  by (relation "measure length") auto

subsection \<open>The validator\<close>

record utf8Validator =
  need :: nat
  lo :: byte
  hi :: byte

definition freshValidator :: utf8Validator where
  "freshValidator = \<lparr>need = 0, lo = 0, hi = 0\<rparr>"

text \<open>\<^verbatim>\<open>step\<close> returns the changed validator and whether the byte may follow.\<close>

definition ustep :: "utf8Validator \<Rightarrow> byte \<Rightarrow> utf8Validator \<times> bool" where
  "ustep v b =
     (if need v \<noteq> 0 then
        if b < lo v \<or> hi v < b then (v, False)
        else (v\<lparr>need := need v - 1, lo := 0x80, hi := 0xbf\<rparr>, True)
      else
        (let v = v\<lparr>lo := 0x80, hi := 0xbf\<rparr> in
         if b < 0x80 then (v, True)
         else if 0xc2 \<le> b \<and> b \<le> 0xdf then (v\<lparr>need := 1\<rparr>, True)
         else if b = 0xe0 then (v\<lparr>need := 2, lo := 0xa0\<rparr>, True)
         else if b = 0xed then (v\<lparr>need := 2, hi := 0x9f\<rparr>, True)
         else if 0xe1 \<le> b \<and> b \<le> 0xef then (v\<lparr>need := 2\<rparr>, True)
         else if b = 0xf0 then (v\<lparr>need := 3, lo := 0x90\<rparr>, True)
         else if 0xf1 \<le> b \<and> b \<le> 0xf3 then (v\<lparr>need := 3\<rparr>, True)
         else if b = 0xf4 then (v\<lparr>need := 3, hi := 0x8f\<rparr>, True)
         else (v, False)))"

text \<open>The two loops of \<^verbatim>\<open>write\<close> that step: over the rest of a sequence cut off before, and over all of \<open>p\<close>.\<close>

fun needLoop :: "utf8Validator \<Rightarrow> bytes \<Rightarrow> utf8Validator \<times> bytes \<times> bool" where
  "needLoop v [] = (v, [], True)"
| "needLoop v (b # p) =
     (if need v = 0 then (v, b # p, True)
      else (case ustep v b of (v', ok) \<Rightarrow> if ok then needLoop v' p else (v', b # p, False)))"

fun stepAll :: "utf8Validator \<Rightarrow> bytes \<Rightarrow> utf8Validator \<times> bool" where
  "stepAll v [] = (v, True)"
| "stepAll v (b # p) = (case ustep v b of (v', ok) \<Rightarrow> if ok then stepAll v' p else (v', False))"

text \<open>
  The backward search for the start of a sequence cut off by the end of \<open>p\<close>, over the last \<open>k\<close>
  bytes that end at index \<open>i\<close>.
\<close>

fun tailLoop :: "bytes \<Rightarrow> nat \<Rightarrow> nat \<Rightarrow> nat" where
  "tailLoop p (Suc i) (Suc k) =
     (if (p ! i) AND 0xc0 \<noteq> 0x80 then (if 0xc0 \<le> p ! i then i else length p) else tailLoop p i k)"
| "tailLoop p _ _ = length p"

definition uwrite :: "utf8Validator \<Rightarrow> bytes \<Rightarrow> utf8Validator \<times> bool" where
  "uwrite v p =
     (case needLoop v p of
        (v, p, ok) \<Rightarrow>
          if \<not> ok then (v, False)
          else if need v \<noteq> 0 then (v, True)
          else
            (let tl = tailLoop p (length p) 3 in
             if \<not> utf8Valid (take tl p) then (v, False)
             else stepAll v (drop tl p)))"

definition complete :: "utf8Validator \<Rightarrow> bool" where
  "complete v \<longleftrightarrow> need v = 0"

definition ureset :: "utf8Validator \<Rightarrow> utf8Validator" where
  "ureset v = freshValidator"

subsection \<open>What the bounds hold\<close>

definition vok :: "utf8Validator \<Rightarrow> bool" where
  "vok v \<longleftrightarrow> need v \<le> 3 \<and> (need v \<noteq> 0 \<longrightarrow> 0x80 \<le> lo v \<and> lo v \<le> hi v \<and> hi v \<le> 0xbf)"

text \<open>Two validators that will treat every continuation alike: the bounds count only inside a sequence.\<close>

definition same :: "utf8Validator \<Rightarrow> utf8Validator \<Rightarrow> bool" where
  "same v w \<longleftrightarrow> need v = need w \<and> (need v \<noteq> 0 \<longrightarrow> lo v = lo w \<and> hi v = hi w)"

lemma same_refl [simp]: "same v v"
  by (simp add: same_def)

lemma same_sym: "same v w \<Longrightarrow> same w v"
  by (auto simp: same_def)

lemma same_trans: "same u v \<Longrightarrow> same v w \<Longrightarrow> same u w"
  by (auto simp: same_def)

lemma same_complete: "same v w \<Longrightarrow> complete v = complete w"
  by (simp add: same_def complete_def)

lemma fresh_ok [simp]: "vok freshValidator" "need freshValidator = 0"
  by (simp_all add: vok_def freshValidator_def)

text \<open>One step leaves equal states equal, whatever the bounds were.\<close>

lemma ustep_same:
  assumes "same v w"
  shows "snd (ustep v b) = snd (ustep w b)" and "snd (ustep v b) \<Longrightarrow> same (fst (ustep v b)) (fst (ustep w b))"
  using assms by (cases "need v = 0"; auto simp: ustep_def same_def Let_def)+

lemma stepAll_same:
  assumes "same v w"
  shows "snd (stepAll v p) = snd (stepAll w p) \<and> (snd (stepAll v p) \<longrightarrow> same (fst (stepAll v p)) (fst (stepAll w p)))"
  using assms
proof (induction p arbitrary: v w)
  case (Cons b p)
  from ustep_same [OF Cons.prems, of b] Cons.IH [of "fst (ustep v b)" "fst (ustep w b)"] show ?case
    by (auto split: prod.splits)
qed simp

lemma stepAll_append:
  "stepAll v (p @ q) = (case stepAll v p of (v', ok) \<Rightarrow> if ok then stepAll v' q else (v', False))"
  by (induction p arbitrary: v) (auto split: prod.splits)

lemma ustep_ok:
  assumes "vok v" and "ustep v b = (v', True)"
  shows "vok v'"
  using assms by (auto simp: ustep_def vok_def Let_def split: if_splits)

lemma stepAll_ok: "vok v \<Longrightarrow> stepAll v p = (v', True) \<Longrightarrow> vok v'"
  by (induction p arbitrary: v) (auto split: prod.splits if_splits dest: ustep_ok)


subsection \<open>The bulk check is stepping\<close>

lemma leadByte_step:
  assumes "need v = 0" and "\<not> b < 0x80"
  shows "leadByte b = None \<Longrightarrow> \<not> snd (ustep v b)"
    and "leadByte b = Some (k, l, h) \<Longrightarrow> ustep v b = (\<lparr>need = k - 1, lo = l, hi = h\<rparr>, True) \<and> 2 \<le> k \<and> k \<le> 4"
  using assms
  by (auto simp: leadByte_def ustep_def Let_def not_le not_less word_le_nat_alt word_less_nat_alt word_unat_eq_iff
      split: if_splits)

definition inSeq :: "nat \<Rightarrow> utf8Validator" where
  "inSeq n = \<lparr>need = n, lo = 0x80, hi = 0xbf\<rparr>"

lemma need_inSeq [simp]: "need (inSeq n) = n"
  by (simp add: inSeq_def)

lemma stepAll_second:
  "stepAll \<lparr>need = Suc n, lo = l, hi = h\<rparr> (b # p) =
     (if b < l \<or> h < b then (\<lparr>need = Suc n, lo = l, hi = h\<rparr>, False) else stepAll (inSeq n) p)"
  by (auto simp: ustep_def inSeq_def)

lemma stepAll_cont: "stepAll (inSeq (Suc n)) (b # p) = (if cont b then stepAll (inSeq n) p else (inSeq (Suc n), False))"
  by (auto simp: ustep_def inSeq_def cont_def not_less not_le)

lemma valid_stepAll:
  "need v = 0 \<Longrightarrow> utf8Valid p \<longleftrightarrow> snd (stepAll v p) \<and> need (fst (stepAll v p)) = 0"
proof (induction p arbitrary: v rule: utf8Valid.induct)
  case (2 b rest)
  show ?case
  proof (cases "b < 0x80")
    case True
    then have "ustep v b = (v\<lparr>lo := 0x80, hi := 0xbf\<rparr>, True)" using "2.prems" by (simp add: ustep_def)
    then show ?thesis using True "2.IH"(1) [OF True, of "v\<lparr>lo := 0x80, hi := 0xbf\<rparr>"] "2.prems" by simp
  next
    case big: False
    show ?thesis
    proof (cases "leadByte b")
      case None
      then show ?thesis using leadByte_step(1) [OF "2.prems" big] big by (auto split: prod.splits)
    next
      case (Some t)
      then obtain k l h where t: "leadByte b = Some (k, l, h)" by (cases t) auto
      note st = leadByte_step(2) [OF "2.prems" big t]
      have hd: "stepAll v (b # rest) = stepAll \<lparr>need = k - 1, lo = l, hi = h\<rparr> rest" using st by simp
      note IH = "2.IH"(2-4) [OF big t refl refl]
      consider "k = 2" | "k = 3" | "k = 4" using st by linarith
      then show ?thesis
      proof cases
        case 1
        then show ?thesis
          using t big IH(1) [of "inSeq 0"] unfolding hd
          by (cases rest) (auto simp: stepAll_second numeral_2_eq_2 simp del: stepAll.simps(2))
      next
        case 2
        then show ?thesis
          using t big IH(2) [of "inSeq 0"] unfolding hd
          by (cases rest; cases "tl rest")
            (auto simp: stepAll_second stepAll_cont numeral_eq_Suc simp del: stepAll.simps(2))
      next
        case 3
        then show ?thesis
          using t big IH(3) [of "inSeq 0"] unfolding hd
          by (cases rest; cases "tl rest"; cases "tl (tl rest)")
            (auto simp: stepAll_second stepAll_cont numeral_eq_Suc simp del: stepAll.simps(2))
      qed
    qed
  qed
qed simp


declare utf8Valid.simps(2) [simp del]

subsection \<open>Where a sequence can be cut off\<close>

lemma ustep_lead:
  assumes "ustep v b = (v', True)" and "vok v" and "need v = 0" and "need v' \<noteq> 0"
  shows "0xc0 \<le> b \<and> need v' \<le> 3"
  using assms by (auto simp: ustep_def Let_def word_le_nat_alt word_less_nat_alt split: if_splits)

lemma ustep_inside:
  assumes "ustep v b = (v', True)" and "need v \<noteq> 0" and "vok v"
  shows "need v' = need v - 1" and "cont b"
  using assms by (auto simp: ustep_def vok_def cont_def not_less split: if_splits intro: order_trans)

text \<open>Inside a sequence, its lead byte is among the last three, and continuation bytes follow it.\<close>

lemma cut_off_lead:
  assumes "need v = 0" and "vok v" and "stepAll v p = (v', True)" and "need v' \<noteq> 0"
  shows "\<exists>k. k + need v' \<le> 3 \<and> k < length p \<and> 0xc0 \<le> rev p ! k \<and> (\<forall>j<k. cont (rev p ! j))"
  using assms(3,4)
proof (induction p arbitrary: v' rule: rev_induct)
  case Nil
  then show ?case using assms(1) by simp
next
  case (snoc b p)
  from snoc.prems obtain u where u: "stepAll v p = (u, True)" and b: "ustep u b = (v', True)"
    by (auto simp: stepAll_append split: prod.splits if_splits)
  note ok = stepAll_ok [OF assms(2) u]
  show ?case
  proof (cases "need u = 0")
    case True
    from ustep_lead [OF b ok True snoc.prems(2)] show ?thesis by (intro exI [of _ 0]) simp
  next
    case False
    from snoc.IH [OF u False] obtain k where
      k: "k + need u \<le> 3" "k < length p" "0xc0 \<le> rev p ! k" "\<forall>j<k. cont (rev p ! j)" by blast
    note inside = ustep_inside [OF b False ok]
    have "\<forall>j<Suc k. cont (rev (p @ [b]) ! j)" using k(4) inside(2) by (auto simp: nth_Cons' less_Suc_eq_0_disj)
    then show ?thesis using k(1-3) inside(1) False by (intro exI [of _ "Suc k"]) simp
  qed
qed

lemma cont_bits: "(b :: byte) AND 0xc0 = 0x80 \<longleftrightarrow> cont b"
proof -
  have m: "(0xc0 :: byte) = push_bit 6 (mask 2)" by (simp add: mask_eq_exp_minus_1 push_bit_eq_mult)
  have "(b :: byte) AND 0xc0 = push_bit 6 (drop_bit 6 b)"
    unfolding m by (rule bit_word_eqI) (auto simp: bit_simps)
  moreover have "unat (push_bit 6 (drop_bit 6 b)) = unat b div 64 * 64"
    using unat_byte [of b] by (simp add: push_bit_eq_mult unat_mult_lem [THEN iffD1] unat_drop_bit)
  ultimately have "(b AND 0xc0 = 0x80) \<longleftrightarrow> unat b div 64 = 2" by (simp add: word_unat_eq_iff)
  also have "\<dots> \<longleftrightarrow> 128 \<le> unat b \<and> unat b \<le> 191" by linarith
  finally show ?thesis by (simp add: cont_def word_le_nat_alt)
qed


lemma tailLoop_lead:
  assumes "k < m" and "k < i" and "i \<le> length p" and "0xc0 \<le> p ! (i - 1 - k)" and "\<forall>j<k. cont (p ! (i - 1 - j))"
  shows "tailLoop p i m = i - 1 - k"
  using assms
proof (induction p i m arbitrary: k rule: tailLoop.induct)
  case (1 p i m)
  have nc: "0xc0 \<le> (x :: byte) \<Longrightarrow> \<not> cont x" for x by (simp add: cont_def word_le_nat_alt)
  show ?case
  proof (cases k)
    case 0
    then show ?thesis using "1.prems" nc [of "p ! i"] by (simp add: cont_bits)
  next
    case (Suc k')
    with "1.prems"(5) have "cont (p ! i)" by auto
    moreover have "\<forall>j<k'. cont (p ! (i - 1 - j))" using "1.prems"(5) Suc by auto
    ultimately show ?thesis using "1.prems" "1.IH" [of k'] Suc by (simp add: cont_bits)
  qed
qed auto

lemma tailLoop_bound: "i \<le> length p \<Longrightarrow> tailLoop p i m < length p \<or> tailLoop p i m = length p"
  by (induction p i m rule: tailLoop.induct) auto

lemma tailLoop_found: "i \<le> length p \<Longrightarrow> tailLoop p i m < length p \<Longrightarrow> 0xc0 \<le> p ! tailLoop p i m"
  by (induction p i m rule: tailLoop.induct) (auto split: if_splits)

lemma tail_full:
  assumes "need v = 0" and "vok v" and "stepAll v p = (v', True)" and "tailLoop p (length p) 3 = length p"
  shows "need v' = 0"
proof (rule ccontr)
  assume "need v' \<noteq> 0"
  from cut_off_lead [OF assms(1-3) this] obtain k where
    k: "k + need v' \<le> 3" "k < length p" "0xc0 \<le> rev p ! k" "\<forall>j<k. cont (rev p ! j)" by blast
  have "k < 3" using k(1) \<open>need v' \<noteq> 0\<close> by linarith
  moreover have "\<forall>j<k. cont (p ! (length p - 1 - j))" using k(2,4) by (auto simp: rev_nth)
  moreover have "0xc0 \<le> p ! (length p - 1 - k)" using k(2,3) by (simp add: rev_nth)
  ultimately have "tailLoop p (length p) 3 = length p - 1 - k" using k(2) by (intro tailLoop_lead) auto
  then show False using assms(4) k(2) by linarith
qed

lemma tail_lead:
  assumes "vok v" and "stepAll v p = (v', True)" and "stepAll v' (b # q) = (w, True)" and "0xc0 \<le> b"
  shows "need v' = 0"
proof (rule ccontr)
  assume "need v' \<noteq> 0"
  with assms(3) ustep_inside(2) [of v' b] stepAll_ok [OF assms(1,2)] have "cont b"
    by (auto split: prod.splits if_splits)
  with assms(4) show False by (simp add: cont_def word_le_nat_alt)
qed

subsection \<open>Writing is stepping through every byte\<close>

lemma needLoop_steps:
  assumes "needLoop v p = (v', q, ok)"
  shows "if ok then stepAll v p = stepAll v' q \<and> (need v' = 0 \<or> q = []) else \<not> snd (stepAll v p)"
  using assms by (induction v p rule: needLoop.induct) (auto split: prod.splits if_splits)

lemma needLoop_ok: "vok v \<Longrightarrow> needLoop v p = (v', q, True) \<Longrightarrow> vok v'"
  by (induction v p rule: needLoop.induct) (auto split: prod.splits if_splits dest: ustep_ok)

definition agrees :: "utf8Validator \<times> bool \<Rightarrow> utf8Validator \<times> bool \<Rightarrow> bool" where
  "agrees r s \<longleftrightarrow> snd r = snd s \<and> (snd s \<longrightarrow> same (fst r) (fst s))"

lemma bulk_steps:
  assumes "need v = 0" and "vok v" and "t = tailLoop p (length p) 3"
  shows "agrees (if \<not> utf8Valid (take t p) then (v, False) else stepAll v (drop t p)) (stepAll v p)"
proof (cases "utf8Valid (take t p)")
  case True
  with valid_stepAll [OF assms(1), of "take t p"] obtain u where
    u: "stepAll v (take t p) = (u, True)" "need u = 0" by (cases "stepAll v (take t p)") auto
  then have "stepAll v p = stepAll u (drop t p)"
    using stepAll_append [of v "take t p" "drop t p"] by simp
  moreover have "same v u" using u(2) assms(1) by (simp add: same_def)
  ultimately show ?thesis using True stepAll_same [of v u "drop t p"] by (simp add: agrees_def)
next
  case False
  have "\<not> snd (stepAll v p)"
  proof
    assume "snd (stepAll v p)"
    then obtain w where w: "stepAll v p = (w, True)" by (cases "stepAll v p") auto
    then obtain u where u: "stepAll v (take t p) = (u, True)" and uw: "stepAll u (drop t p) = (w, True)"
      using stepAll_append [of v "take t p" "drop t p"] by (auto split: prod.splits if_splits)
    have "need u = 0"
    proof (cases "t < length p")
      case True
      then have "drop t p = p ! t # drop (Suc t) p" by (simp add: Cons_nth_drop_Suc)
      moreover have "0xc0 \<le> p ! t" using tailLoop_found [of "length p" p 3] True assms(3) by simp
      ultimately show ?thesis using tail_lead [OF assms(2) u] uw by simp
    next
      case f: False
      with tailLoop_bound [of "length p" p 3] assms(3) have "t = length p" by simp
      then show ?thesis using tail_full [OF assms(1,2) w] assms(3) u w by simp
    qed
    with u False valid_stepAll [OF assms(1), of "take t p"] show False by simp
  qed
  then show ?thesis using False by (simp add: agrees_def)
qed

lemma uwrite_steps:
  assumes "vok v"
  shows "agrees (uwrite v p) (stepAll v p)"
proof -
  obtain v' q ok where n: "needLoop v p = (v', q, ok)" by (cases "needLoop v p") auto
  note steps = needLoop_steps [OF n]
  show ?thesis
  proof (cases "ok \<and> need v' = 0")
    case True
    then have "vok v'" using needLoop_ok [OF assms, of p v' q] n by simp
    with True bulk_steps [OF _ this refl] steps n show ?thesis by (simp add: uwrite_def Let_def)
  next
    case False
    then show ?thesis using steps n by (auto simp: uwrite_def agrees_def)
  qed
qed


subsection \<open>What is valid: encoded Unicode scalar values\<close>

definition scalar :: "nat \<Rightarrow> bool" where
  "scalar c \<longleftrightarrow> c < 0xd800 \<or> 0xe000 \<le> c \<and> c < 0x110000"

definition utf8_encode :: "nat \<Rightarrow> bytes" where
  "utf8_encode c =
     (if c < 0x80 then [of_nat c]
      else if c < 0x800 then [of_nat (0xc0 + c div 64), of_nat (0x80 + c mod 64)]
      else if c < 0x10000 then
        [of_nat (0xe0 + c div 4096), of_nat (0x80 + c div 64 mod 64), of_nat (0x80 + c mod 64)]
      else
        [of_nat (0xf0 + c div 262144), of_nat (0x80 + c div 4096 mod 64), of_nat (0x80 + c div 64 mod 64),
         of_nat (0x80 + c mod 64)])"

definition utf8_text :: "bytes \<Rightarrow> bool" where
  "utf8_text p \<longleftrightarrow> (\<exists>cs. (\<forall>c\<in>set cs. scalar c) \<and> p = concat (map utf8_encode cs))"

lemmas byte_nat = word_le_nat_alt word_less_nat_alt word_unat_eq_iff

lemma unat_of_byte: "n < 256 \<Longrightarrow> unat (of_nat n :: byte) = n"
  by (simp add: unat_of_nat)

lemma leadByte_big: "leadByte b = Some t \<Longrightarrow> \<not> b < 0x80"
  by (auto simp: leadByte_def byte_nat split: if_splits)

lemma valid_seq:
  "b < 0x80 \<Longrightarrow> utf8Valid (b # p) = utf8Valid p"
  "leadByte b = Some (2, l, h) \<Longrightarrow> utf8Valid (b # c # p) \<longleftrightarrow> l \<le> c \<and> c \<le> h \<and> utf8Valid p"
  "leadByte b = Some (3, l, h) \<Longrightarrow> utf8Valid (b # c # d # p) \<longleftrightarrow> l \<le> c \<and> c \<le> h \<and> cont d \<and> utf8Valid p"
  "leadByte b = Some (4, l, h) \<Longrightarrow>
    utf8Valid (b # c # d # e # p) \<longleftrightarrow> l \<le> c \<and> c \<le> h \<and> cont d \<and> cont e \<and> utf8Valid p"
  by (auto simp: leadByte_big not_less utf8Valid.simps(2) [of b])

text \<open>A scalar value's encoding in terms of the values of its bytes.\<close>

lemma valid_encode:
  assumes "scalar c"
  shows "utf8Valid (utf8_encode c @ p) = utf8Valid p"
proof -
  define y z w :: byte where "y = of_nat (0x80 + c div 4096 mod 64)" and "z = of_nat (0x80 + c div 64 mod 64)"
    and "w = of_nat (0x80 + c mod 64)"
  have y: "unat y = 0x80 + c div 4096 mod 64" and z: "unat z = 0x80 + c div 64 mod 64" and w: "unat w = 0x80 + c mod 64"
    unfolding y_def z_def w_def by (rule unat_of_byte; linarith)+
  have "unat z \<le> 0xbf" "unat w \<le> 0xbf" using z w by linarith+
  then have cs: "cont z" "cont w" using z w by (simp_all add: cont_def byte_nat)
  have digits: "c div 64 = 64 * (c div 4096) + c div 64 mod 64" "c div 4096 = 64 * (c div 262144) + c div 4096 mod 64"
    using div_mult2_eq [of c 64 64] div_mult2_eq [of c 4096 64] by simp_all
  consider "c < 0x80" | "0x80 \<le> c" "c < 0x800" | "0x800 \<le> c" "c < 0x10000" | "0x10000 \<le> c" "c < 0x110000"
    using assms unfolding scalar_def by linarith
  then show ?thesis
  proof cases
    case 1
    then show ?thesis by (simp add: utf8_encode_def valid_seq(1) byte_nat unat_of_byte)
  next
    case 2
    define x :: byte where "x = of_nat (0xc0 + c div 64)"
    have x: "unat x = 0xc0 + c div 64" unfolding x_def by (rule unat_of_byte) (use 2 in linarith)
    have "0xc2 \<le> unat x" "unat x \<le> 0xdf" using 2 x by linarith+
    then have "leadByte x = Some (2, 0x80, 0xbf)" by (simp add: leadByte_def byte_nat)
    moreover have "utf8_encode c = [x, w]" using 2 by (simp only: utf8_encode_def x_def w_def) simp
    ultimately show ?thesis using cs by (simp add: valid_seq cont_def)
  next
    case 3
    define x :: byte where "x = of_nat (0xe0 + c div 4096)"
    have x: "unat x = 0xe0 + c div 4096" unfolding x_def by (rule unat_of_byte) (use 3 in linarith)
    have e: "utf8_encode c = [x, z, w]" using 3 by (simp only: utf8_encode_def x_def z_def w_def) simp
    obtain l h where "leadByte x = Some (3, l, h)" and "l \<le> z" and "z \<le> h"
    proof -
      note found = that
      consider "c div 4096 = 0" | "c div 4096 = 13" | "c div 4096 \<noteq> 0" "c div 4096 \<noteq> 13" by blast
      then show ?thesis
      proof cases
        case 1
        then have "leadByte x = Some (3, 0xa0, 0xbf)" using x by (simp add: leadByte_def byte_nat)
        moreover have "0xa0 \<le> unat z" "unat z \<le> 0xbf" using 1 3 z digits by linarith+
        ultimately show ?thesis by (intro found [of "0xa0" "0xbf"]) (simp_all add: byte_nat)
      next
        case 2
        then have "leadByte x = Some (3, 0x80, 0x9f)" using x by (simp add: leadByte_def byte_nat)
        moreover have "0x80 \<le> unat z" "unat z \<le> 0x9f" using 2 assms z digits unfolding scalar_def by linarith+
        ultimately show ?thesis by (intro found [of "0x80" "0x9f"]) (simp_all add: byte_nat)
      next
        case n: 3
        then have "leadByte x = Some (3, 0x80, 0xbf)" using x 3 by (simp add: leadByte_def byte_nat)
        with cs show ?thesis by (intro found [of "0x80" "0xbf"]) (simp_all add: cont_def)
      qed
    qed
    then show ?thesis using cs e by (simp add: valid_seq)
  next
    case 4
    define x :: byte where "x = of_nat (0xf0 + c div 262144)"
    have x: "unat x = 0xf0 + c div 262144" unfolding x_def by (rule unat_of_byte) (use 4 in linarith)
    have e: "utf8_encode c = [x, y, z, w]" using 4 by (simp only: utf8_encode_def x_def y_def z_def w_def) simp
    obtain l h where "leadByte x = Some (4, l, h)" and "l \<le> y" and "y \<le> h"
    proof -
      note found = that
      consider "c div 262144 = 0" | "c div 262144 = 4" | "c div 262144 \<noteq> 0" "c div 262144 \<noteq> 4" by blast
      then show ?thesis
      proof cases
        case 1
        then have "leadByte x = Some (4, 0x90, 0xbf)" using x by (simp add: leadByte_def byte_nat)
        moreover have "0x90 \<le> unat y" "unat y \<le> 0xbf" using 1 4 y digits by linarith+
        ultimately show ?thesis by (intro found [of "0x90" "0xbf"]) (simp_all add: byte_nat)
      next
        case 2
        then have "leadByte x = Some (4, 0x80, 0x8f)" using x by (simp add: leadByte_def byte_nat)
        moreover have "0x80 \<le> unat y" "unat y \<le> 0x8f" using 2 4 y digits by linarith+
        ultimately show ?thesis by (intro found [of "0x80" "0x8f"]) (simp_all add: byte_nat)
      next
        case n: 3
        then have "leadByte x = Some (4, 0x80, 0xbf)" using x 4 by (simp add: leadByte_def byte_nat)
        moreover have "0x80 \<le> unat y" "unat y \<le> 0xbf" using y by linarith+
        ultimately show ?thesis by (intro found [of "0x80" "0xbf"]) (simp_all add: byte_nat)
      qed
    qed
    then show ?thesis using cs e by (simp add: valid_seq)
  qed
qed


text \<open>And a valid text starts with an encoded scalar value.\<close>

lemma valid_cases:
  assumes "utf8Valid (b # p)"
  obtains "b < 0x80"
  | l h c q where "leadByte b = Some (2, l, h)" "p = c # q" "l \<le> c" "c \<le> h" "utf8Valid q"
  | l h c d q where "leadByte b = Some (3, l, h)" "p = c # d # q" "l \<le> c" "c \<le> h" "cont d" "utf8Valid q"
  | l h c d e q where "leadByte b = Some (4, l, h)" "p = c # d # e # q" "l \<le> c" "c \<le> h" "cont d" "cont e" "utf8Valid q"
proof (cases "leadByte b")
  case None
  then show ?thesis using assms that(1) by (auto simp: utf8Valid.simps(2) split: if_splits)
next
  case (Some t)
  then obtain k l h where t: "leadByte b = Some (k, l, h)" by (cases t) auto
  then have big: "\<not> b < 0x80" by (rule leadByte_big)
  from leadByte_step(2) [OF fresh_ok(2) big t] have "k = 2 \<or> k = 3 \<or> k = 4" by auto
  moreover have len: "k \<le> Suc (length p)" using assms t big by (auto simp: utf8Valid.simps(2) split: if_splits)
  ultimately show ?thesis
  proof (elim disjE)
    assume k: "k = 2"
    with len obtain c q where "p = c # q" by (cases p) auto
    then show ?thesis using that(2) t k assms by (auto simp: valid_seq)
  next
    assume k: "k = 3"
    with len obtain c d q where "p = c # d # q" by (cases p; cases "tl p") auto
    then show ?thesis using that(3) t k assms by (auto simp: valid_seq)
  next
    assume k: "k = 4"
    with len obtain c d e q where "p = c # d # e # q" by (cases p; cases "tl p"; cases "tl (tl p)") auto
    then show ?thesis using that(4) t k assms by (auto simp: valid_seq)
  qed
qed

lemma of_nat_unat_byte: "n = unat b \<Longrightarrow> of_nat n = (b :: byte)"
  by simp

lemma encode2:
  assumes "leadByte b = Some (2, l, h)" and "l \<le> c" and "c \<le> h"
  shows "\<exists>x. scalar x \<and> utf8_encode x = [b, c]"
proof -
  define m n where "m = unat b - 0xc0" and "n = unat c - 0x80"
  have m: "unat b = 0xc0 + m" "2 \<le> m" "m < 32" and n: "unat c = 0x80 + n" "n < 64"
    using assms by (auto simp: m_def n_def leadByte_def byte_nat split: if_splits)
  define x where "x = 64 * m + n"
  have "0x80 \<le> x" "x < 0x800" "x div 64 = m" "x mod 64 = n" using m n unfolding x_def by auto
  moreover have "of_nat (0xc0 + m) = b" "of_nat (0x80 + n) = c" using m(1) n(1) by (auto intro: of_nat_unat_byte simp del: of_nat_add)
  ultimately show ?thesis by (intro exI [of _ x]) (simp add: scalar_def utf8_encode_def del: of_nat_add)
qed


lemma cont_val: "cont b \<Longrightarrow> \<exists>n<64. unat b = 0x80 + n"
  by (intro exI [of _ "unat b - 0x80"]) (auto simp: cont_def byte_nat)

lemma digit64: "k < 64 \<Longrightarrow> (64 * a + k) div 64 = a" "k < 64 \<Longrightarrow> (64 * a + k) mod 64 = k" for a k :: nat
  by simp_all

lemma encode3:
  assumes "leadByte b = Some (3, l, h)" and "l \<le> c" and "c \<le> h" and "cont d"
  shows "\<exists>x. scalar x \<and> utf8_encode x = [b, c, d]"
proof -
  define m n where "m = unat b - 0xe0" and "n = unat c - 0x80"
  have m: "unat b = 0xe0 + m" "m < 16" and n: "unat c = 0x80 + n" "n < 64"
    and lo: "m = 0 \<longrightarrow> 32 \<le> n" and hi: "m = 13 \<longrightarrow> n < 32"
    using assms by (auto simp: m_def n_def leadByte_def byte_nat split: if_splits)
  from cont_val [OF assms(4)] obtain k where k: "unat d = 0x80 + k" "k < 64" by auto
  define x where "x = 64 * (64 * m + n) + k"
  have x64: "x div 64 = 64 * m + n" "x mod 64 = k" unfolding x_def by (rule digit64 [OF k(2)])+
  have "x div 64 mod 64 = n" "x div 64 div 64 = m" unfolding x64 by (rule digit64 [OF n(2)])+
  then have "x div 4096 = m" "x div 64 mod 64 = n" using div_mult2_eq [of x 64 64] by simp_all
  moreover have "0x800 \<le> x" "x < 0x10000" using m n k lo unfolding x_def by (cases "m = 0"; simp)+
  moreover have "scalar x" using m(2) n(2) k(2) hi unfolding scalar_def x_def by (cases "m = 13") auto
  moreover have "of_nat (0xe0 + m) = b" "of_nat (0x80 + n) = c" "of_nat (0x80 + k) = d"
    using m(1) n(1) k(1) by (auto intro: of_nat_unat_byte simp del: of_nat_add)
  ultimately show ?thesis using x64(2) by (intro exI [of _ x]) (simp add: utf8_encode_def del: of_nat_add)
qed

lemma encode4:
  assumes "leadByte b = Some (4, l, h)" and "l \<le> c" and "c \<le> h" and "cont d" and "cont e"
  shows "\<exists>x. scalar x \<and> utf8_encode x = [b, c, d, e]"
proof -
  define m n where "m = unat b - 0xf0" and "n = unat c - 0x80"
  have m: "unat b = 0xf0 + m" "m < 5" and n: "unat c = 0x80 + n" "n < 64"
    and lo: "m = 0 \<longrightarrow> 16 \<le> n" and hi: "m = 4 \<longrightarrow> n < 16"
    using assms by (auto simp: m_def n_def leadByte_def byte_nat split: if_splits)
  from cont_val [OF assms(4)] obtain k where k: "unat d = 0x80 + k" "k < 64" by auto
  from cont_val [OF assms(5)] obtain j where j: "unat e = 0x80 + j" "j < 64" by auto
  define x where "x = 64 * (64 * (64 * m + n) + k) + j"
  have x64: "x div 64 = 64 * (64 * m + n) + k" "x mod 64 = j" unfolding x_def by (rule digit64 [OF j(2)])+
  have y: "x div 64 mod 64 = k" "x div 64 div 64 = 64 * m + n" unfolding x64 by (rule digit64 [OF k(2)])+
  have "x div 64 div 64 mod 64 = n" "x div 64 div 64 div 64 = m" unfolding y by (rule digit64 [OF n(2)])+
  then have "x div 262144 = m" "x div 4096 mod 64 = n" "x div 64 mod 64 = k"
    using div_mult2_eq [of x 64 64] div_mult2_eq [of x 4096 64] y by simp_all
  moreover have "0x10000 \<le> x" "x < 0x110000" using m n k j lo hi unfolding x_def by (cases "m = 0"; cases "m = 4"; simp)+
  moreover have "of_nat (0xf0 + m) = b" "of_nat (0x80 + n) = c" "of_nat (0x80 + k) = d" "of_nat (0x80 + j) = e"
    using m(1) n(1) k(1) j(1) by (auto intro: of_nat_unat_byte simp del: of_nat_add)
  ultimately show ?thesis using x64(2)
    by (intro exI [of _ x]) (simp add: scalar_def utf8_encode_def del: of_nat_add)
qed

lemma valid_head:
  assumes "utf8Valid (b # p)"
  shows "\<exists>x q. scalar x \<and> b # p = utf8_encode x @ q \<and> utf8Valid q"
  using assms
proof (cases rule: valid_cases)
  case 1
  then have "scalar (unat b)" "utf8_encode (unat b) = [b]" by (simp_all add: scalar_def utf8_encode_def byte_nat)
  moreover have "utf8Valid p" using assms 1 by (simp add: valid_seq)
  ultimately show ?thesis by (intro exI [of _ "unat b"] exI [of _ p]) simp
next
  case (2 l h c q)
  from encode2 [OF 2(1,3,4)] obtain x where "scalar x" "utf8_encode x = [b, c]" by blast
  then show ?thesis using 2 by (intro exI [of _ x] exI [of _ q]) simp
next
  case (3 l h c d q)
  from encode3 [OF 3(1,3-5)] obtain x where "scalar x" "utf8_encode x = [b, c, d]" by blast
  then show ?thesis using 3 by (intro exI [of _ x] exI [of _ q]) simp
next
  case (4 l h c d e q)
  from encode4 [OF 4(1,3-6)] obtain x where "scalar x" "utf8_encode x = [b, c, d, e]" by blast
  then show ?thesis using 4 by (intro exI [of _ x] exI [of _ q]) simp
qed

lemma encode_nonempty: "utf8_encode x \<noteq> []"
  by (simp add: utf8_encode_def)

lemma valid_concat: "(\<forall>c\<in>set cs. scalar c) \<Longrightarrow> utf8Valid (concat (map utf8_encode cs))"
  by (induction cs) (simp_all add: valid_encode)

lemma valid_iff_text: "utf8Valid p \<longleftrightarrow> utf8_text p"
proof
  show "utf8Valid p \<Longrightarrow> utf8_text p"
  proof (induction p rule: length_induct)
    case (1 p)
    show ?case
    proof (cases p)
      case Nil
      then show ?thesis unfolding utf8_text_def by (intro exI [of _ "[]"]) simp
    next
      case (Cons b r)
      with valid_head 1(2) obtain x q where x: "scalar x" "p = utf8_encode x @ q" "utf8Valid q" by blast
      then have "length q < length p" using encode_nonempty [of x] by simp
      with 1(1) x(3) have "utf8_text q" by blast
      then obtain cs where "\<forall>c\<in>set cs. scalar c" "q = concat (map utf8_encode cs)" unfolding utf8_text_def by blast
      then show ?thesis using x unfolding utf8_text_def by (intro exI [of _ "x # cs"]) simp
    qed
  qed
  show "utf8_text p \<Longrightarrow> utf8Valid p" unfolding utf8_text_def by (auto simp: valid_concat)
qed

subsection \<open>Any split of the text\<close>

text \<open>The pieces of a text written one after the other, stopping at the first refusal.\<close>

fun writeAll :: "utf8Validator \<Rightarrow> bytes list \<Rightarrow> utf8Validator \<times> bool" where
  "writeAll v [] = (v, True)"
| "writeAll v (p # ps) = (case uwrite v p of (v', ok) \<Rightarrow> if ok then writeAll v' ps else (v', False))"

lemma uwrite_ok:
  assumes "vok v" and "uwrite v p = (v', True)"
  shows "vok v'"
proof -
  have "agrees (v', True) (stepAll v p)" using uwrite_steps [OF assms(1), of p] assms(2) by simp
  then obtain w where w: "stepAll v p = (w, True)" and "same v' w" unfolding agrees_def by (cases "stepAll v p") auto
  then show ?thesis using stepAll_ok [OF assms(1) w] by (auto simp: vok_def same_def)
qed

lemma writeAll_steps:
  assumes "vok v"
  shows "agrees (writeAll v ps) (stepAll v (concat ps))"
  using assms
proof (induction ps arbitrary: v)
  case Nil
  then show ?case by (simp add: agrees_def)
next
  case (Cons p ps)
  obtain v' ok where w: "uwrite v p = (v', ok)" by fastforce
  obtain u ok' where s: "stepAll v p = (u, ok')" by fastforce
  have ag: "ok = ok'" "ok' \<longrightarrow> same v' u" using uwrite_steps [OF Cons.prems, of p] w s by (simp_all add: agrees_def)
  show ?case
  proof (cases ok)
    case True
    then have "vok v'" using uwrite_ok Cons.prems w by simp
    from Cons.IH [OF this] stepAll_same [of v' u "concat ps"] ag True show ?thesis
      using w s by (auto simp: agrees_def stepAll_append intro: same_trans)
  next
    case False
    then show ?thesis using ag w s by (simp add: agrees_def stepAll_append)
  qed
qed

text \<open>Inside a sequence there is a continuation: the lower bound, then \<^verbatim>\<open>0x80\<close> to the end.\<close>

lemma can_finish:
  assumes "vok v"
  shows "\<exists>q w. stepAll v q = (w, True) \<and> need w = 0"
  using assms
proof (induction "need v" arbitrary: v)
  case 0
  then show ?case by (intro exI [of _ "[]"]) simp
next
  case (Suc n)
  obtain v' where v': "ustep v (lo v) = (v', True)" using Suc by (auto simp: ustep_def vok_def not_less)
  then have "need v' = n" "vok v'" using Suc.hyps(2) Suc.prems ustep_ok [OF _ v'] ustep_inside(1) [OF v'] by simp_all
  with Suc.hyps(1) obtain q w where "stepAll v' q = (w, True)" "need w = 0" by blast
  then show ?case using v' by (intro exI [of _ "lo v # q"] exI [of _ w]) simp
qed

text \<open>
  C20. However a text is cut into pieces, the validator accepts them all exactly when they are the
  beginning of some sequence of encoded Unicode scalar values, so it refuses a piece as soon as no
  valid text can continue with it; and it is then complete exactly when the pieces together are
  such a sequence.
\<close>

theorem utf8_validator_exact:
  "(snd (writeAll freshValidator ps) \<longleftrightarrow> (\<exists>q. utf8_text (concat ps @ q))) \<and>
   (snd (writeAll freshValidator ps) \<and> complete (fst (writeAll freshValidator ps)) \<longleftrightarrow> utf8_text (concat ps))"
proof -
  let ?p = "concat ps"
  have ag: "snd (writeAll freshValidator ps) = snd (stepAll freshValidator ?p)"
    "snd (stepAll freshValidator ?p) \<Longrightarrow> complete (fst (writeAll freshValidator ps)) = (need (fst (stepAll freshValidator ?p)) = 0)"
    using writeAll_steps [OF fresh_ok(1), of ps] by (auto simp: agrees_def same_def complete_def)
  have "snd (stepAll freshValidator ?p) \<longleftrightarrow> (\<exists>q. utf8_text (?p @ q))"
  proof
    assume "snd (stepAll freshValidator ?p)"
    then obtain u where u: "stepAll freshValidator ?p = (u, True)" by (cases "stepAll freshValidator ?p") auto
    from can_finish [OF stepAll_ok [OF fresh_ok(1) u]] obtain q w where "stepAll u q = (w, True)" "need w = 0" by blast
    then have "utf8Valid (?p @ q)" using u valid_stepAll [OF fresh_ok(2), of "?p @ q"] by (simp add: stepAll_append)
    then show "\<exists>q. utf8_text (?p @ q)" by (auto simp: valid_iff_text)
  next
    assume "\<exists>q. utf8_text (?p @ q)"
    then show "snd (stepAll freshValidator ?p)"
      using valid_stepAll [OF fresh_ok(2)] by (auto simp: valid_iff_text [symmetric] stepAll_append case_prod_unfold split: if_splits)
  qed
  moreover have "utf8_text ?p \<longleftrightarrow> snd (stepAll freshValidator ?p) \<and> need (fst (stepAll freshValidator ?p)) = 0"
    using valid_stepAll [OF fresh_ok(2)] by (simp add: valid_iff_text)
  ultimately show ?thesis using ag by blast
qed

end
