(* ===== verification/Ws_Mask.thy ===== *)
theory Ws_Mask
  imports Big_Endian
begin

text \<open>
  Masking of WebSocket payloads, \<^verbatim>\<open>applyMask\<close> of \<^verbatim>\<open>websocket/frame.go\<close>: eight bytes at a time through
  64-bit words, four of them to a step, then the rest byte by byte. It is shown to be the byte-wise
  masking of RFC 6455 section 5.3.
\<close>

text \<open>\<^verbatim>\<open>binary.LittleEndian\<close>: the bytes of a word, least significant first.\<close>

definition le_read :: "bytes \<Rightarrow> 'a::len word" where
  "le_read bs = be_read (rev bs)"

definition le_bytes :: "nat \<Rightarrow> 'a::len word \<Rightarrow> bytes" where
  "le_bytes k v = rev (be_bytes k v)"

text \<open>What \<^verbatim>\<open>PutUint64(b, Uint64(b)^mask64)\<close> makes of the first eight bytes of \<open>b\<close>.\<close>

definition maskWord :: "uint64 \<Rightarrow> bytes \<Rightarrow> bytes" where
  "maskWord m b = le_bytes 8 (le_read (take 8 b) XOR m)"

text \<open>The loop over the bytes from the \<open>i\<close>-th on, which also masks them one by one.\<close>

fun maskTail :: "nat \<Rightarrow> bytes \<Rightarrow> bytes \<Rightarrow> bytes" where
  "maskTail i key [] = []"
| "maskTail i key (b # bs) = (b XOR key ! (i AND 3)) # maskTail (Suc i) key bs"

function maskWords :: "uint64 \<Rightarrow> bytes \<Rightarrow> bytes \<Rightarrow> bytes" where
  "maskWords m key b =
     (if 8 \<le> length b then maskWord m b @ maskWords m key (drop 8 b) else maskTail 0 key b)"
  by pat_completeness auto
termination
  by (relation "measure (\<lambda>(m, key, b). length b)") auto

function maskBlocks :: "uint64 \<Rightarrow> bytes \<Rightarrow> bytes \<Rightarrow> bytes" where
  "maskBlocks m key b =
     (if 32 \<le> length b then
        maskWord m b @ maskWord m (drop 8 b) @ maskWord m (drop 16 b) @ maskWord m (drop 24 b) @
        maskBlocks m key (drop 32 b)
      else maskWords m key b)"
  by pat_completeness auto
termination
  by (relation "measure (\<lambda>(m, key, b). length b)") auto

definition applyMask :: "bytes \<Rightarrow> bytes \<Rightarrow> bytes" where
  "applyMask b key =
     (let mask32 = le_read (take 4 key) :: uint32;
          mask64 = ucast mask32 OR push_bit 32 (ucast mask32) in
      maskBlocks mask64 key b)"

declare maskWords.simps [simp del] maskBlocks.simps [simp del]

subsection \<open>Words are bytes\<close>

lemma be_bytes_xor: "be_bytes k (v XOR w) = map2 (XOR) (be_bytes k v) (be_bytes k w)" for v w :: "'a::len word"
proof -
  have "ucast (drop_bit n (v XOR w)) = (ucast (drop_bit n v) XOR ucast (drop_bit n w) :: byte)" for n
    by (rule bit_word_eqI) (auto simp: bit_simps)
  then show ?thesis by (induction k) (simp_all add: be_bytes_Suc)
qed

lemma le_bytes_xor: "le_bytes k (v XOR w) = map2 (XOR) (le_bytes k v) (le_bytes k w)" for v w :: "'a::len word"
  unfolding le_bytes_def be_bytes_xor by (simp add: rev_map zip_rev)


lemma le_bytes_read: "8 * length bs \<le> LENGTH('a) \<Longrightarrow> le_bytes (length bs) (le_read bs :: 'a::len word) = bs"
  using be_bytes_read [of "rev bs", where 'a = 'a] by (simp add: le_bytes_def le_read_def)

lemma be_bytes_twice:
  fixes m :: uint32
  shows "be_bytes 8 (ucast m OR push_bit 32 (ucast m) :: uint64) = be_bytes 4 m @ be_bytes 4 m"
proof -
  have "ucast (drop_bit (8 * i) (ucast m OR push_bit 32 (ucast m) :: uint64)) = (ucast (drop_bit (8 * (i mod 4)) m) :: byte)"
    if "i < 8" for i
  proof (rule bit_word_eqI)
    fix n assume "n < LENGTH(8)"
    then have n: "n < 8" by simp
    show "bit (ucast (drop_bit (8 * i) (ucast m OR push_bit 32 (ucast m) :: uint64)) :: byte) n
        = bit (ucast (drop_bit (8 * (i mod 4)) m) :: byte) n"
    proof (cases "i < 4")
      case True
      then show ?thesis using n by (auto simp: bit_simps)
    next
      case False
      define j where "j = i - 4"
      have j: "i = 4 + j" "j < 4" using that False by (simp_all add: j_def)
      then show ?thesis using n bit_imp_le_length [of m "8 * (4 + j) + n"] by (auto simp: bit_simps algebra_simps)
    qed
  qed
  then have "be_bytes 8 (ucast m OR push_bit 32 (ucast m) :: uint64)
      = map (\<lambda>i. ucast (drop_bit (8 * (i mod 4)) m)) (rev [0..<8])"
    unfolding be_bytes_def by (intro map_cong refl) (simp only: set_rev set_upt atLeastLessThan_iff)
  also have "\<dots> = be_bytes 4 m @ be_bytes 4 m" by (simp add: be_bytes_def upt_rec)
  finally show ?thesis .
qed

text \<open>Masking byte by byte from position \<open>i\<close> of the payload on.\<close>

lemma and_3: "i AND 3 = i mod (4 :: nat)"
  using take_bit_eq_mask [of 2 i] by (simp add: take_bit_eq_mod mask_eq_exp_minus_1)

lemma length_maskTail [simp]: "length (maskTail i key b) = length b"
  by (induction i key b rule: maskTail.induct) simp_all

lemma nth_maskTail: "j < length b \<Longrightarrow> maskTail i key b ! j = b ! j XOR key ! ((i + j) mod 4)"
  by (induction i key b arbitrary: j rule: maskTail.induct) (auto simp: nth_Cons' and_3)

lemma maskTail_append: "maskTail i key (a @ b) = maskTail i key a @ maskTail (i + length a) key b"
  by (induction i key a rule: maskTail.induct) simp_all

lemma maskTail_mod: "i mod 4 = j mod 4 \<Longrightarrow> maskTail i key b = maskTail j key b"
proof (induction b arbitrary: i j)
  case (Cons x b)
  then have "Suc i mod 4 = Suc j mod 4" by (metis mod_Suc_eq)
  from Cons.IH [OF this] Cons.prems show ?case by (simp only: maskTail.simps and_3)
qed simp

lemma maskTail_twice: "maskTail i key (maskTail i key b) = b"
  by (induction b arbitrary: i) (simp_all add: xor.assoc)

lemma maskWord_tail:
  assumes "length key = 4" and "8 \<le> length b"
  shows "maskWord (ucast (le_read key :: uint32) OR push_bit 32 (ucast (le_read key :: uint32))) b = maskTail 0 key (take 8 b)"
proof -
  let ?m = "ucast (le_read key :: uint32) OR push_bit 32 (ucast (le_read key :: uint32)) :: uint64"
  have "le_bytes 4 (le_read key :: uint32) = key" using le_bytes_read [of key, where 'a = 32] assms(1) by simp
  then have k: "le_bytes 8 ?m = key @ key" unfolding le_bytes_def be_bytes_twice by simp
  have "le_bytes 8 (le_read (take 8 b) :: uint64) = take 8 b"
    using le_bytes_read [of "take 8 b", where 'a = 64] assms(2) by simp
  then have "maskWord ?m b = map2 (XOR) (take 8 b) (key @ key)" unfolding maskWord_def le_bytes_xor k by simp
  also have "\<dots> = maskTail 0 key (take 8 b)"
    using assms by (intro nth_equalityI) (auto simp: nth_maskTail nth_append mod_if)
  finally show ?thesis .
qed

lemma maskWords_tail:
  assumes "length key = 4" and "m = ucast (le_read key :: uint32) OR push_bit 32 (ucast (le_read key :: uint32))"
  shows "maskWords m key b = maskTail 0 key b"
proof (induction b rule: length_induct)
  case (1 b)
  show ?case
  proof (cases "8 \<le> length b")
    case True
    then have "maskWords m key (drop 8 b) = maskTail 8 key (drop 8 b)"
      using 1 maskTail_mod [of 0 8] by simp
    moreover have "maskWord m b = maskTail 0 key (take 8 b)" unfolding assms(2) by (rule maskWord_tail [OF assms(1) True])
    ultimately show ?thesis using True maskTail_append [of 0 key "take 8 b" "drop 8 b"]
      by (simp add: maskWords.simps [of m key b])
  qed (simp add: maskWords.simps)
qed

lemma take_drop_append: "take n (drop m b) @ drop n (drop m b) = drop m b"
  by (rule append_take_drop_id)

lemma maskBlocks_tail:
  assumes "length key = 4" and m: "m = ucast (le_read key :: uint32) OR push_bit 32 (ucast (le_read key :: uint32))"
  shows "maskBlocks m key b = maskTail 0 key b"
proof (induction b rule: length_induct)
  case (1 b)
  show ?case
  proof (cases "32 \<le> length b")
    case True
    then have w: "maskWord m (drop n b) = maskTail n key (take 8 (drop n b))" if "n = 0 \<or> n = 8 \<or> n = 16 \<or> n = 24" for n
      using maskWord_tail [OF assms(1), of "drop n b"] maskTail_mod [of 0 n] that unfolding m by auto
    have "maskBlocks m key (drop 32 b) = maskTail 32 key (drop 32 b)" using 1 True maskTail_mod [of 0 32] by simp
    then have "maskBlocks m key b = maskTail 0 key (take 8 b) @ maskTail 8 key (take 8 (drop 8 b)) @
        maskTail 16 key (take 8 (drop 16 b)) @ maskTail 24 key (take 8 (drop 24 b)) @ maskTail 32 key (drop 32 b)"
      using True w [of 0] w [of 8] w [of 16] w [of 24] by (simp add: maskBlocks.simps [of m key b])
    also have "\<dots> = maskTail 0 key (take 8 b @ take 8 (drop 8 b) @ take 8 (drop 16 b) @ take 8 (drop 24 b) @ drop 32 b)"
      using True by (simp add: maskTail_append)
    also have "take 8 b @ take 8 (drop 8 b) @ take 8 (drop 16 b) @ take 8 (drop 24 b) @ drop 32 b = b"
      using take_drop_append [of 8 0 b] take_drop_append [of 8 8 b] take_drop_append [of 8 16 b] take_drop_append [of 8 24 b] by simp
    finally show ?thesis .
  qed (simp add: maskBlocks.simps maskWords_tail [OF assms])
qed

lemma applyMask_tail: "length key = 4 \<Longrightarrow> applyMask b key = maskTail 0 key b"
  by (simp add: applyMask_def Let_def maskBlocks_tail)

text \<open>
  C21. Masking a word at a time is masking every byte with the key's byte at its position modulo
  four, and masking twice restores the payload.
\<close>

theorem apply_mask_exact:
  assumes "length key = 4"
  shows "applyMask b key = map (\<lambda>i. b ! i XOR key ! (i mod 4)) [0..<length b] \<and> applyMask (applyMask b key) key = b"
proof -
  have "maskTail 0 key b = map (\<lambda>i. b ! i XOR key ! (i mod 4)) [0..<length b]"
    by (rule nth_equalityI) (simp_all add: nth_maskTail)
  then show ?thesis using assms maskTail_twice [of 0 key b] by (simp add: applyMask_tail)
qed

theorem apply_mask_exact_witness:
  "length [1, 2, 3, 4 :: byte] = 4 \<and> applyMask [5, 6, 7, 8, 9] [1, 2, 3, 4] = [4, 4, 4, 12, 8]"
  using apply_mask_exact [of "[1, 2, 3, 4]" "[5, 6, 7, 8, 9]"] by (simp add: upt_rec nth_Cons' mod_if)

end
