(* ===== verification/Buffer_Pool.thy ===== *)
theory Buffer_Pool
  imports Fib_Prelude
begin

text \<open>
  The size classes of the shared buffer pool, \<^verbatim>\<open>bufferpool/bufferpool.go\<close>, and the operations its
  users call: \<^verbatim>\<open>Get\<close>, \<^verbatim>\<open>Put\<close>, \<^verbatim>\<open>Grow\<close>, \<^verbatim>\<open>Append\<close> and \<^verbatim>\<open>Join\<close>. A buffer is a slice: the lease it came
  under, its bytes and its capacity. Every \<^verbatim>\<open>Get\<close> that does not return nil opens a new lease, and
  \<^verbatim>\<open>Put\<close> of a pooled capacity ends it; the order in which leases end is kept, so that a user that
  ends one twice, or uses a buffer after its lease ended, shows.
\<close>

subsection \<open>Size classes\<close>

definition minShift :: nat where "minShift = 6"
definition maxShift :: nat where "maxShift = 26"
definition MinSize :: nat where "MinSize = 2 ^ minShift"
definition MaxSize :: nat where "MaxSize = 2 ^ maxShift"
definition numClasses :: nat where "numClasses = maxShift - minShift + 1"

text \<open>\<^verbatim>\<open>bits.Len\<close>: how many bits a number takes.\<close>

fun bitsLen :: "nat \<Rightarrow> nat" where
  "bitsLen n = (if n = 0 then 0 else Suc (bitsLen (n div 2)))"

declare bitsLen.simps [simp del]

text \<open>A size may be negative; a capacity is not.\<close>

definition Align :: "int \<Rightarrow> int" where
  "Align sz =
     (if sz \<le> int MinSize then (if sz \<le> 0 then 0 else int MinSize)
      else if sz > int MaxSize then sz
      else 2 ^ bitsLen (nat (sz - 1)))"

definition classUp :: "int \<Rightarrow> nat" where
  "classUp sz = (if sz \<le> int MinSize then 0 else bitsLen (nat (sz - 1)) - minShift)"

definition classDown :: "nat \<Rightarrow> nat" where
  "classDown capacity = bitsLen capacity - 1 - minShift"

definition classSize :: "nat \<Rightarrow> nat" where
  "classSize i = MinSize * 2 ^ i"

subsection \<open>Buffers and leases\<close>

record slice =
  sid :: "nat option"
  sbytes :: bytes
  scap :: nat

abbreviation slen :: "slice \<Rightarrow> nat" where
  "slen s \<equiv> length (sbytes s)"

definition nilSlice :: slice where
  "nilSlice = \<lparr>sid = None, sbytes = [], scap = 0\<rparr>"

text \<open>A slice of memory that is not the pool's, such as a read buffer lent by a caller.\<close>

definition lent :: "bytes \<Rightarrow> slice" where
  "lent b = \<lparr>sid = None, sbytes = b, scap = length b\<rparr>"

record leases =
  opened :: nat
  ended :: "nat list"

text \<open>
  \<^verbatim>\<open>Get\<close> gives a buffer of the length asked for whose bytes are whatever the last user left there.
  They are zeros here: every caller writes before it reads.
\<close>

definition Get :: "leases \<Rightarrow> int \<Rightarrow> leases \<times> slice" where
  "Get l sz =
     (if sz \<le> 0 then (l, nilSlice)
      else (l\<lparr>opened := Suc (opened l)\<rparr>,
            \<lparr>sid = Some (opened l), sbytes = replicate (nat sz) 0,
             scap = nat (if sz > int MaxSize then sz else int (classSize (classUp sz)))\<rparr>))"

definition Put :: "leases \<Rightarrow> slice \<Rightarrow> leases" where
  "Put l s =
     (if scap s < MinSize \<or> MaxSize < scap s then l
      else (case sid s of None \<Rightarrow> l | Some i \<Rightarrow> l\<lparr>ended := i # ended l\<rparr>))"

definition regrow :: "leases \<Rightarrow> slice \<Rightarrow> nat \<Rightarrow> leases \<times> slice" where
  "regrow l s capacity =
     (case Get l (int capacity) of
        (l, grown) \<Rightarrow> (Put l s, grown\<lparr>sbytes := sbytes s\<rparr>))"

definition Grow :: "leases \<Rightarrow> slice \<Rightarrow> nat \<Rightarrow> leases \<times> slice" where
  "Grow l s capacity = (if capacity \<le> scap s then (l, s) else regrow l s capacity)"

definition AppendPool :: "leases \<Rightarrow> slice \<Rightarrow> bytes \<Rightarrow> leases \<times> slice" where
  "AppendPool l s data =
     (case Grow l s (slen s + length data) of (l, s) \<Rightarrow> (l, s\<lparr>sbytes := sbytes s @ data\<rparr>))"

definition Join :: "leases \<Rightarrow> slice \<Rightarrow> bytes list \<Rightarrow> leases \<times> slice" where
  "Join l s parts =
     (let n = foldl (\<lambda>n part. n + length part) (slen s) parts in
      case (if scap s < n then regrow l s n else (l, s)) of
        (l, s) \<Rightarrow> (l, foldl (\<lambda>s part. s\<lparr>sbytes := sbytes s @ part\<rparr>) s parts))"

subsection \<open>What the classes hold\<close>

lemma bitsLen_0 [simp]: "bitsLen 0 = 0"
  by (simp add: bitsLen.simps)

lemma bitsLen_pos: "n \<noteq> 0 \<Longrightarrow> bitsLen n = Suc (bitsLen (n div 2))"
  by (subst bitsLen.simps) simp

lemma bitsLen_less: "n < 2 ^ bitsLen n"
proof (induction n rule: bitsLen.induct)
  case (1 n)
  show ?case
  proof (cases "n = 0")
    case False
    then have "n div 2 < 2 ^ bitsLen (n div 2)" using 1 by simp
    then show ?thesis using False by (simp add: bitsLen_pos)
  qed simp
qed

lemma bitsLen_ge: "n \<noteq> 0 \<Longrightarrow> 2 ^ (bitsLen n - 1) \<le> n"
proof (induction n rule: bitsLen.induct)
  case (1 n)
  show ?case
  proof (cases "n div 2 = 0")
    case True
    then show ?thesis using 1 by (simp add: bitsLen_pos)
  next
    case False
    then have "2 ^ (bitsLen (n div 2) - 1) \<le> n div 2" using 1 by simp
    moreover have "bitsLen (n div 2) \<noteq> 0" using False by (simp add: bitsLen_pos)
    then have "2 ^ (bitsLen n - 1) = 2 * (2 :: nat) ^ (bitsLen (n div 2) - 1)"
      using 1(2) by (cases "bitsLen (n div 2)") (simp_all add: bitsLen_pos)
    ultimately show ?thesis by linarith
  qed
qed

lemma bitsLen_mono: "m \<le> n \<Longrightarrow> bitsLen m \<le> bitsLen n"
proof (cases "m = 0")
  case False
  assume "m \<le> n"
  then have "2 ^ (bitsLen m - 1) < (2 :: nat) ^ bitsLen n"
    using bitsLen_ge [OF False] bitsLen_less [of n] by linarith
  then have "bitsLen m - 1 < bitsLen n" by (simp add: power_less_imp_less_exp)
  then show ?thesis by linarith
qed simp

lemma bitsLen_power: "bitsLen (2 ^ k) = Suc k"
proof -
  have "2 ^ (bitsLen (2 ^ k) - 1) \<le> (2 :: nat) ^ k" by (rule bitsLen_ge) simp
  then have "bitsLen (2 ^ k) - 1 \<le> k" by (simp add: power_le_imp_le_exp)
  moreover have "(2 :: nat) ^ k < 2 ^ bitsLen (2 ^ k)" by (rule bitsLen_less)
  then have "k < bitsLen (2 ^ k)" by (rule power_less_imp_less_exp [rotated]) simp
  ultimately show ?thesis by linarith
qed


lemmas pool_consts = MinSize_def MaxSize_def minShift_def maxShift_def numClasses_def

text \<open>Above the smallest class, the class that serves a size is the least power of two that holds it.\<close>

lemma bitsLen_class:
  assumes "int MinSize < sz" and "sz \<le> int MaxSize"
  shows "minShift < bitsLen (nat (sz - 1))" and "bitsLen (nat (sz - 1)) \<le> maxShift"
    and "sz \<le> 2 ^ bitsLen (nat (sz - 1))" and "2 ^ bitsLen (nat (sz - 1)) < 2 * sz"
proof -
  let ?n = "nat (sz - 1)"
  have n: "2 ^ 6 \<le> ?n" "?n < 2 ^ 26" "?n \<noteq> 0" using assms by (auto simp: pool_consts)
  have "bitsLen (2 ^ 6) \<le> bitsLen ?n" using n(1) by (rule bitsLen_mono)
  then show "minShift < bitsLen ?n" by (simp only: bitsLen_power minShift_def)
  have "2 ^ (bitsLen ?n - 1) < (2 :: nat) ^ 26" using bitsLen_ge [OF n(3)] n(2) by linarith
  then have "bitsLen ?n - 1 < 26" by (rule power_less_imp_less_exp [rotated]) simp
  then show "bitsLen ?n \<le> maxShift" by (simp add: maxShift_def)
  have "int ?n < 2 ^ bitsLen ?n" using bitsLen_less [of ?n] by (metis of_nat_less_numeral_power_cancel_iff)
  then show "sz \<le> 2 ^ bitsLen ?n" using n(3) by linarith
  have "(2 :: nat) ^ bitsLen ?n = 2 * 2 ^ (bitsLen ?n - 1)" using n(3) by (simp add: bitsLen_pos)
  then have "2 ^ bitsLen ?n \<le> 2 * ?n" using bitsLen_ge [OF n(3)] by linarith
  then have "int (2 ^ bitsLen ?n) \<le> int (2 * ?n)" by (rule of_nat_mono)
  then show "2 ^ bitsLen ?n < 2 * sz" using n(3) by simp
qed

lemma class_of_size:
  assumes "0 < sz" and "sz \<le> int MaxSize"
  shows "int (classSize (classUp sz)) = Align sz" and "classUp sz < numClasses"
    and "sz \<le> Align sz" and "Align sz = int MinSize \<or> Align sz < 2 * sz"
proof -
  have "int (classSize (classUp sz)) = Align sz \<and> classUp sz < numClasses \<and> sz \<le> Align sz \<and>
        (Align sz = int MinSize \<or> Align sz < 2 * sz)"
  proof (cases "sz \<le> int MinSize")
    case True
    then show ?thesis using assms by (simp add: classSize_def classUp_def Align_def numClasses_def)
  next
    case False
    then have "int MinSize < sz" by simp
    note b = bitsLen_class [OF this assms(2)]
    have "(2 :: nat) ^ minShift * 2 ^ (bitsLen (nat (sz - 1)) - minShift) = 2 ^ bitsLen (nat (sz - 1))"
      using b(1) by (simp flip: power_add)
    then have "classSize (classUp sz) = 2 ^ bitsLen (nat (sz - 1))"
      using False unfolding classSize_def classUp_def MinSize_def by simp
    then have "int (classSize (classUp sz)) = 2 ^ bitsLen (nat (sz - 1))" by simp
    moreover have "Align sz = 2 ^ bitsLen (nat (sz - 1))" using False assms(2) by (simp add: Align_def)
    ultimately show ?thesis using b False assms(2) by (simp add: classUp_def numClasses_def diff_le_mono less_Suc_eq_le)
  qed
  then show "int (classSize (classUp sz)) = Align sz" and "classUp sz < numClasses"
    and "sz \<le> Align sz" and "Align sz = int MinSize \<or> Align sz < 2 * sz" by blast+
qed

lemma class_of_capacity:
  assumes "MinSize \<le> c" and "c \<le> MaxSize"
  shows "classDown c < numClasses" and "classSize (classDown c) \<le> c" and "c < 2 * classSize (classDown c)"
proof -
  have c: "c \<noteq> 0" "2 ^ 6 \<le> c" "c \<le> 2 ^ 26" using assms by (auto simp: pool_consts)
  have "bitsLen (2 ^ 6) \<le> bitsLen c" "bitsLen c \<le> bitsLen (2 ^ 26)" using c by (auto intro: bitsLen_mono)
  then have b: "7 \<le> bitsLen c" "bitsLen c \<le> 27" unfolding bitsLen_power by simp_all
  then show "classDown c < numClasses" by (simp add: classDown_def pool_consts)
  have "classSize (classDown c) = 2 ^ (6 + (bitsLen c - 1 - 6))"
    unfolding classSize_def classDown_def MinSize_def minShift_def power_add by simp
  also have "6 + (bitsLen c - 1 - 6) = bitsLen c - 1" using b by simp
  finally have s: "classSize (classDown c) = 2 ^ (bitsLen c - 1)" .
  then show "classSize (classDown c) \<le> c" using bitsLen_ge [OF c(1)] by simp
  have "2 * (2 :: nat) ^ (bitsLen c - 1) = 2 ^ bitsLen c" using b by (cases "bitsLen c") simp_all
  then show "c < 2 * classSize (classDown c)" using s bitsLen_less [of c] by simp
qed

lemma class_of_class: "i < numClasses \<Longrightarrow> classDown (classSize i) = i"
proof -
  have "classSize i = 2 ^ (minShift + i)" by (simp add: classSize_def MinSize_def power_add)
  then show ?thesis by (simp add: classDown_def bitsLen_power)
qed

subsection \<open>Growing through the pool\<close>

lemma Get_cap: "0 < sz \<Longrightarrow> Get l sz = (l', s) \<Longrightarrow> sz \<le> int (scap s)"
  using class_of_size(1,3) [of sz] by (auto simp: Get_def split: if_splits)

lemma AppendPool_bytes [simp]: "sbytes (snd (AppendPool l s data)) = sbytes s @ data"
  by (simp add: AppendPool_def Grow_def regrow_def split: prod.splits)

lemma AppendPool_fits:
  assumes "slen s \<le> scap s"
  shows "slen s + length data \<le> scap (snd (AppendPool l s data))"
proof -
  have "slen s + length data \<le> scap (snd (Get l (int (slen s + length data))))" if "0 < slen s + length data"
    using Get_cap [of "int (slen s + length data)" l] that by (cases "Get l (int (slen s + length data))") (auto simp: prod_eq_iff)
  then show ?thesis using assms by (cases "0 < slen s + length data") (auto simp: AppendPool_def Grow_def regrow_def split: prod.splits)
qed

end
