(* ===== verification/Ws_Frame.thy ===== *)
theory Ws_Frame
  imports Ws_Utf8 Ws_Mask Buffer_Pool
begin

text \<open>
  The WebSocket frame parser and the framing of what is sent, \<^verbatim>\<open>websocket/frame.go\<close>, with the
  inflation of \<^verbatim>\<open>websocket/deflate.go\<close> it calls. The DEFLATE decoder itself (\<^verbatim>\<open>compress/flate\<close>) is an
  argument, the first part of \<open>flate\<close>: given the history and the compressed bytes, what each of its reads
  returns and whether they end with \<^verbatim>\<open>io.EOF\<close>. The second part is the capacity of the array \<^verbatim>\<open>slices.Grow\<close>
  has grown to, from an array of some capacity, by the time it holds a message, which Go leaves open.

  The parser's buffers are slices with the pool lease they came under; the leases of the shared
  pool are a field \<open>pool\<close> of the parser. A buffer lent by the caller has no lease. The array behind
  \<^verbatim>\<open>inflated\<close>, which Go's allocator makes and the parser puts into the pool when it is done with it, opens
  a lease when it is made. Where the code unmasks a lent payload in place, the model rewrites the
  buffer. \<^verbatim>\<open>parserExtra.frameMessage\<close>, which only gives \<^verbatim>\<open>fragment\<close> something to point at, is not a field
  of its own.
\<close>

definition Continuation :: byte where "Continuation = 0x0"
definition Text :: byte where "Text = 0x1"
definition Binary :: byte where "Binary = 0x2"
definition Close :: byte where "Close = 0x8"
definition Ping :: byte where "Ping = 0x9"
definition Pong :: byte where "Pong = 0xa"

datatype ws_error = ErrProtocol | ErrMessageTooBig | ErrInvalidPayload

definition maxRetainedFrameBuffer :: nat where "maxRetainedFrameBuffer = 64 * 1024"

record Event =
  Opcode :: byte
  Payload :: bytes
  Fin :: bool

record fragmentedMessage =
  fmOpcode :: byte
  fmCompressed :: bool
  fmData :: bytes

record parserExtra =
  fragment :: "fragmentedMessage option"
  utext :: utf8Validator
  textChecked :: nat
  window :: bytes
  inflated :: slice

record Parser =
  maxMessageBytes :: nat
  buffer :: slice
  owned :: slice
  borrowedTail :: bytes
  pendingConsume :: nat
  extra :: "parserExtra option"
  fromServer :: bool
  borrowedBuffer :: bool
  perFrame :: bool
  deflate :: bool
  contextTakeover :: bool
  pool :: leases

abbreviation pbytes :: "Parser \<Rightarrow> bytes" where
  "pbytes p \<equiv> sbytes (buffer p)"

definition newExtra :: parserExtra where
  "newExtra = \<lparr>fragment = None, utext = freshValidator, textChecked = 0, window = [], inflated = nilSlice\<rparr>"

text \<open>\<^verbatim>\<open>more\<close>: the extra state, new for the first message that needs it.\<close>

definition moreExtra :: "Parser \<Rightarrow> parserExtra" where
  "moreExtra p = (case extra p of None \<Rightarrow> newExtra | Some e \<Rightarrow> e)"

definition fragmentOf :: "Parser \<Rightarrow> fragmentedMessage option" where
  "fragmentOf p = (case extra p of None \<Rightarrow> None | Some e \<Rightarrow> fragment e)"

definition NewParser :: "leases \<Rightarrow> int \<Rightarrow> Parser" where
  "NewParser l m =
     \<lparr>maxMessageBytes = nat (if m \<le> 0 then 16 * 2 ^ 20 else m), buffer = nilSlice, owned = nilSlice,
      borrowedTail = [], pendingConsume = 0, extra = None, fromServer = False, borrowedBuffer = False,
      perFrame = False, deflate = False, contextTakeover = False, pool = l\<rparr>"

definition NewServerFrameParser :: "leases \<Rightarrow> int \<Rightarrow> Parser" where
  "NewServerFrameParser l m = (NewParser l m)\<lparr>fromServer := True\<rparr>"

definition SetPerFrame :: "bool \<Rightarrow> Parser \<Rightarrow> Parser" where
  "SetPerFrame on p = p\<lparr>perFrame := on\<rparr>"

subsection \<open>The buffers\<close>

definition releaseOwned :: "Parser \<Rightarrow> Parser" where
  "releaseOwned p = p\<lparr>pool := Put (pool p) (owned p), owned := nilSlice\<rparr>"

definition releaseInflated :: "Parser \<Rightarrow> Parser" where
  "releaseInflated p =
     (case extra p of
        Some e \<Rightarrow>
          if inflated e \<noteq> nilSlice
          then p\<lparr>pool := Put (pool p) (inflated e), extra := Some (e\<lparr>inflated := nilSlice\<rparr>)\<rparr>
          else p
      | None \<Rightarrow> p)"

definition dropExtra :: "Parser \<Rightarrow> Parser" where
  "dropExtra p = (releaseInflated p)\<lparr>extra := None\<rparr>"

definition keepOwned :: "Parser \<Rightarrow> Parser" where
  "keepOwned p = (if borrowedBuffer p \<or> scap (buffer p) < scap (owned p) then p else p\<lparr>owned := buffer p\<rparr>)"

definition frameHeaderSize :: "bytes \<Rightarrow> nat" where
  "frameHeaderSize data =
     (if length data < 2 then 2
      else
        (let sz = (if (data ! 1) AND 0x80 \<noteq> 0 then 2 + 4 else 2); n = (data ! 1) AND 0x7f in
         if n = 126 then sz + 2 else if n = 127 then sz + 8 else sz))"

text \<open>A frame's whole size, once its header is there; none as well for one no \<^verbatim>\<open>int\<close> holds.\<close>

definition frameSize :: "bytes \<Rightarrow> nat option" where
  "frameSize data =
     (let headerSize = frameHeaderSize data in
      if length data < headerSize then None
      else
        (let n = unat ((data ! 1) AND 0x7f);
             payloadLen =
               (if n = 126 then unat (be_read (take 2 (drop 2 data)) :: uint16)
                else if n = 127 then unat (be_read (take 8 (drop 2 data)) :: uint64) else n) in
         if payloadLen > 2 ^ 63 - 1 - headerSize then None else Some (headerSize + payloadLen)))"

text \<open>
  The room \<^verbatim>\<open>adopt\<close> asks for: the whole frame once its size is known, up to the size worth keeping.
\<close>

definition adoptCapacity :: "Parser \<Rightarrow> nat" where
  "adoptCapacity p =
     (let capacity = length (pbytes p) in
      case frameSize (pbytes p) of
        Some frameEnd \<Rightarrow>
          if frameEnd > capacity \<and> frameEnd \<le> maxMessageBytes p + 14
          then (let frameEnd = (if frameEnd > maxRetainedFrameBuffer then maxRetainedFrameBuffer else frameEnd) in
                if frameEnd > capacity then frameEnd else capacity)
          else capacity
      | None \<Rightarrow> capacity)"

definition adoptOwned :: "Parser \<Rightarrow> Parser" where
  "adoptOwned p =
     (let capacity = adoptCapacity p;
          p = (if scap (owned p) < capacity
               then (let g = Get (Put (pool p) (owned p)) (int capacity) in p\<lparr>pool := fst g, owned := snd g\<rparr>)
               else p);
          p = p\<lparr>owned := (owned p)\<lparr>sbytes := pbytes p\<rparr>\<rparr> in
      p\<lparr>buffer := owned p, borrowedBuffer := False\<rparr>)"

text \<open>\<^verbatim>\<open>appendCurrentFrame\<close>: every round but the last completes the header so far.\<close>

function appendCurrentFrame :: "leases \<Rightarrow> slice \<Rightarrow> bytes \<Rightarrow> leases \<times> slice \<times> bytes" where
  "appendCurrentFrame l b data =
     (case frameSize (sbytes b) of
        Some frameEnd \<Rightarrow>
          if frameEnd \<le> slen b \<or> frameEnd - slen b \<ge> length data
          then (case AppendPool l b data of (l, b) \<Rightarrow> (l, b, []))
          else (case AppendPool l b (take (frameEnd - slen b) data) of
                  (l, b') \<Rightarrow> (l, b', drop (frameEnd - slen b) data))
      | None \<Rightarrow>
          (let hs = frameHeaderSize (sbytes b) in
           if hs \<le> slen b \<or> hs - slen b \<ge> length data
           then (case AppendPool l b data of (l, b) \<Rightarrow> (l, b, []))
           else (case AppendPool l b (take (hs - slen b) data) of
                   (l, b') \<Rightarrow> appendCurrentFrame l b' (drop (hs - slen b) data))))"
  by pat_completeness auto
termination
  by (relation "measure (\<lambda>(l, b, data). length data)") (auto simp: not_le)

definition consume :: "nat \<Rightarrow> Parser \<Rightarrow> Parser" where
  "consume n p =
     (if n = length (pbytes p) then
        (let p =
           (if borrowedBuffer p then p\<lparr>buffer := nilSlice\<rparr>
            else if scap (buffer p) > maxRetainedFrameBuffer then (releaseOwned p)\<lparr>buffer := nilSlice\<rparr>
            else p\<lparr>buffer := (buffer p)\<lparr>sbytes := []\<rparr>\<rparr>) in
         p\<lparr>borrowedBuffer := False\<rparr>)
      else if borrowedBuffer p then p\<lparr>buffer := lent (drop n (pbytes p))\<rparr>
      else p\<lparr>buffer := (buffer p)\<lparr>sbytes := drop n (pbytes p)\<rparr>\<rparr>)"

definition finishFrame :: "nat \<Rightarrow> bool \<Rightarrow> Parser \<Rightarrow> Parser" where
  "finishFrame frameEnd borrowed p = (if borrowed then p\<lparr>pendingConsume := frameEnd\<rparr> else consume frameEnd p)"

definition Reset :: "Parser \<Rightarrow> Parser" where
  "Reset p =
     (let p = (if borrowedBuffer p then p\<lparr>buffer := nilSlice\<rparr> else p\<lparr>buffer := (buffer p)\<lparr>sbytes := []\<rparr>\<rparr>);
          p = (dropExtra p)\<lparr>pendingConsume := 0, borrowedBuffer := False, borrowedTail := []\<rparr> in
      if length (pbytes p) = 0 then releaseOwned (p\<lparr>buffer := nilSlice\<rparr>) else p)"

definition applyPending :: "Parser \<Rightarrow> Parser" where
  "applyPending p = (if pendingConsume p \<noteq> 0 then (consume (pendingConsume p) p)\<lparr>pendingConsume := 0\<rparr> else p)"

definition ReleaseBorrowed :: "Parser \<Rightarrow> Parser" where
  "ReleaseBorrowed p =
     (let p = applyPending p;
          p = releaseInflated (p\<lparr>borrowedTail := []\<rparr>);
          p = (if borrowedBuffer p then p\<lparr>buffer := nilSlice, borrowedBuffer := False\<rparr> else p) in
      if length (pbytes p) = 0 then releaseOwned (p\<lparr>buffer := nilSlice\<rparr>) else p)"

subsection \<open>Inflation\<close>

type_synonym flate = "(bytes \<Rightarrow> bytes \<Rightarrow> bytes list \<times> bool) \<times> (nat \<Rightarrow> bytes \<Rightarrow> nat)"

definition deflateTail :: bytes where
  "deflateTail = [0x00, 0x00, 0xff, 0xff, 0x01, 0x00, 0x00, 0xff, 0xff]"

definition maxWindowSize :: nat where "maxWindowSize = 2 ^ 15"

text \<open>The loop of \<^verbatim>\<open>decompressMessage\<close> over what the decoder's reads return.\<close>

fun inflateLoop :: "bytes list \<Rightarrow> bool \<Rightarrow> nat \<Rightarrow> nat \<Rightarrow> bytes \<Rightarrow> ws_error + bytes" where
  "inflateLoop [] eof start limit dst = (if eof then Inr dst else Inl ErrInvalidPayload)"
| "inflateLoop (r # reads) eof start limit dst =
     (let dst = dst @ r in
      if limit < length dst - start then Inl ErrMessageTooBig else inflateLoop reads eof start limit dst)"

definition decompressMessage :: "flate \<Rightarrow> bytes \<Rightarrow> bytes \<Rightarrow> bytes \<Rightarrow> nat \<Rightarrow> ws_error + bytes" where
  "decompressMessage flate dst compressed dict limit =
     (case fst flate dict (compressed @ deflateTail) of
        (reads, eof) \<Rightarrow> inflateLoop reads eof (length dst) limit dst)"

definition keepWindow :: "bytes \<Rightarrow> bytes \<Rightarrow> bytes" where
  "keepWindow w message =
     (if length message \<ge> maxWindowSize then drop (length message - maxWindowSize) message
      else
        (let w = (if length w + length message > maxWindowSize
                  then drop (length w + length message - maxWindowSize) w else w) in
         w @ message))"

text \<open>
  The array a message is inflated into: \<^verbatim>\<open>decompressMessage\<close> fills the one it is given, and grows into a
  new one only once a read finds more than it holds.
\<close>

definition inflateInto :: "flate \<Rightarrow> leases \<Rightarrow> slice \<Rightarrow> bytes \<Rightarrow> leases \<times> slice" where
  "inflateInto flate l s message =
     (if length message \<le> scap s then (l, s\<lparr>sbytes := message\<rparr>)
      else (l\<lparr>opened := Suc (opened l)\<rparr>,
            \<lparr>sid = Some (opened l), sbytes = message, scap = max (length message) (snd flate (scap s) message)\<rparr>))"

definition inflate :: "flate \<Rightarrow> Parser \<Rightarrow> bytes \<Rightarrow> bool \<Rightarrow> Parser \<times> (ws_error + bytes)" where
  "inflate flate p compressed borrowed =
     (let e = moreExtra p;
          win = (if contextTakeover p then window e else []) in
      case decompressMessage flate [] compressed win (maxMessageBytes p) of
        Inl err \<Rightarrow> (p\<lparr>extra := Some e\<rparr>, Inl err)
      | Inr message \<Rightarrow>
          (let (l, arr) = (if borrowed then inflateInto flate (pool p) (inflated e) message else (pool p, inflated e));
               e = e\<lparr>inflated := arr\<rparr>;
               e = (if contextTakeover p then e\<lparr>window := keepWindow (window e) message\<rparr> else e) in
           (p\<lparr>pool := l, extra := Some e\<rparr>, Inr message)))"

subsection \<open>Text that arrives in pieces\<close>

text \<open>The loop of \<^verbatim>\<open>checkPartialText\<close> that unmasks 512 bytes at a time, from position \<open>i\<close>.\<close>

function partialLoop :: "utf8Validator \<Rightarrow> bytes \<Rightarrow> bytes \<Rightarrow> nat \<Rightarrow> utf8Validator \<times> bool" where
  "partialLoop v key available i =
     (if i < length available then
        (let chunk = take 512 (drop i available) in
         case uwrite v (maskTail i key chunk) of
           (v, ok) \<Rightarrow> if ok then partialLoop v key available (i + length chunk) else (v, False))
      else (v, True))"
  by pat_completeness auto
termination
  by (relation "measure (\<lambda>(v, key, available, i). length available - i)") auto

definition checkPartialText :: "Parser \<Rightarrow> bytes \<Rightarrow> bytes option \<Rightarrow> Parser \<times> bool" where
  "checkPartialText p available key =
     (let checked = (case extra p of None \<Rightarrow> 0 | Some e \<Rightarrow> textChecked e) in
      if length available \<le> checked then (p, True)
      else
        (let e = moreExtra p in
         case (case key of
                 None \<Rightarrow> uwrite (utext e) (drop checked available)
               | Some key \<Rightarrow> partialLoop (utext e) key available checked) of
           (v, ok) \<Rightarrow>
             if ok then (p\<lparr>extra := Some (e\<lparr>utext := v, textChecked := length available\<rparr>)\<rparr>, True)
             else (p\<lparr>extra := Some (e\<lparr>utext := v\<rparr>)\<rparr>, False)))"

subsection \<open>One frame\<close>

definition validCloseCode :: "uint16 \<Rightarrow> bool" where
  "validCloseCode code =
     (if 1000 \<le> code \<and> code \<le> 1014 then code \<noteq> 1004 \<and> code \<noteq> 1005 \<and> code \<noteq> 1006
      else 3000 \<le> code \<and> code \<le> 4999)"

text \<open>
  What \<^verbatim>\<open>next\<close> returns: an error, that the frame is not complete, that a frame was taken and emits
  nothing, or an event.
\<close>

datatype next_result = Fail ws_error | Incomplete | Skipped | Emit Event

text \<open>What of a parser the reading of a header depends on, besides the message in progress.\<close>

record wscfg =
  cMax :: nat
  cFromServer :: bool
  cPerFrame :: bool
  cDeflate :: bool
  cTakeover :: bool

definition cfg :: "Parser \<Rightarrow> wscfg" where
  "cfg p = \<lparr>cMax = maxMessageBytes p, cFromServer = fromServer p, cPerFrame = perFrame p,
            cDeflate = deflate p, cTakeover = contextTakeover p\<rparr>"

text \<open>The checks of the first two bytes.\<close>

definition headerError :: "wscfg \<Rightarrow> fragmentedMessage option \<Rightarrow> byte \<Rightarrow> byte \<Rightarrow> bool" where
  "headerError c frag first second =
     (let fin = (first AND 0x80 \<noteq> 0); opcode = first AND 0x0f; masked = (second AND 0x80 \<noteq> 0);
          compressed = (first AND 0x40 \<noteq> 0) in
      if first AND 0x30 \<noteq> 0 \<or> masked = cFromServer c \<or>
         (compressed \<and> (\<not> cDeflate c \<or> (opcode \<noteq> Text \<and> opcode \<noteq> Binary))) then True
      else if 0x8 \<le> opcode \<and> (\<not> fin \<or> second AND 0x7f > 125) then True
      else if opcode = Continuation then frag = None
      else if opcode = Text \<or> opcode = Binary then frag \<noteq> None
      else \<not> (opcode = Close \<or> opcode = Ping \<or> opcode = Pong))"

text \<open>The length of the payload and where the header goes on.\<close>

datatype len_result = LenMore | LenBad | LenOk nat nat

definition readLength :: "bytes \<Rightarrow> byte \<Rightarrow> len_result" where
  "readLength buf second =
     (let offset = 2; payloadLen = unat (second AND 0x7f) in
      if payloadLen = 126 then
        if length buf < offset + 2 then LenMore
        else
          (let payloadLen = unat (be_read (take 2 (drop offset buf)) :: uint16) in
           if payloadLen < 126 then LenBad else LenOk payloadLen (offset + 2))
      else if payloadLen = 127 then
        if length buf < offset + 8 then LenMore
        else
          (let payloadLen = be_read (take 8 (drop offset buf)) :: uint64 in
           if payloadLen < 65536 \<or> drop_bit 63 payloadLen \<noteq> 0 then LenBad else LenOk (unat payloadLen) (offset + 8))
      else LenOk payloadLen offset)"

definition finishControl :: "bool \<Rightarrow> Parser \<Rightarrow> byte \<Rightarrow> bytes \<Rightarrow> nat \<Rightarrow> Parser \<times> next_result" where
  "finishControl borrow p opcode payload frameEnd =
     (if opcode = Close \<and>
         (length payload = 1 \<or> (2 \<le> length payload \<and> \<not> validCloseCode (be_read (take 2 payload)))) then
        (p, Fail ErrProtocol)
      else if opcode = Close \<and> 2 < length payload \<and> \<not> utf8Valid (drop 2 payload) then (p, Fail ErrInvalidPayload)
      else (finishFrame frameEnd borrow p, Emit \<lparr>Opcode = opcode, Payload = payload, Fin = True\<rparr>))"

text \<open>
  The first frame of a data message. The text of an unfragmented frame is checked whole unless some
  of it was checked as it arrived, in which case there is extra state.
\<close>

definition finishData ::
  "flate \<Rightarrow> bool \<Rightarrow> Parser \<Rightarrow> byte \<Rightarrow> bool \<Rightarrow> bool \<Rightarrow> bool \<Rightarrow> nat \<Rightarrow> bytes \<Rightarrow> nat \<Rightarrow> Parser \<times> next_result" where
  "finishData flate borrow p opcode fin compressed istext checked payload frameEnd =
     (if fin \<and> compressed then
        (case inflate flate p payload borrow of
           (p, Inl err) \<Rightarrow> (p, Fail err)
         | (p, Inr payload) \<Rightarrow>
             if opcode = Text \<and> \<not> utf8Valid payload then (p, Fail ErrInvalidPayload)
             else (finishFrame frameEnd borrow p, Emit \<lparr>Opcode = opcode, Payload = payload, Fin = True\<rparr>))
      else if fin then
        (let (p, ok) =
           (if istext then
              (let (p, ok) =
                 (if checked = 0 then (p, utf8Valid payload)
                  else
                    (let e = moreExtra p; (v, ok) = uwrite (utext e) (drop checked payload) in
                     (p\<lparr>extra := Some (e\<lparr>utext := v\<rparr>)\<rparr>, ok \<and> complete v))) in
               if ok then
                 (case extra p of
                    None \<Rightarrow> p
                  | Some e \<Rightarrow> p\<lparr>extra := Some (e\<lparr>utext := ureset (utext e)\<rparr>)\<rparr>, True)
               else (p, False))
            else (p, True)) in
         if ok then (finishFrame frameEnd borrow p, Emit \<lparr>Opcode = opcode, Payload = payload, Fin = True\<rparr>)
         else (p, Fail ErrInvalidPayload))
      else
        (let e = moreExtra p;
             (v, ok) = (if istext then uwrite (utext e) (drop checked payload) else (utext e, True));
             e = e\<lparr>utext := v\<rparr> in
         if \<not> ok then (p\<lparr>extra := Some e\<rparr>, Fail ErrInvalidPayload)
         else if perFrame p \<and> \<not> compressed then
           (let e = e\<lparr>fragment := Some \<lparr>fmOpcode = opcode, fmCompressed = False, fmData = []\<rparr>\<rparr> in
            (finishFrame frameEnd borrow (p\<lparr>extra := Some e\<rparr>),
             Emit \<lparr>Opcode = opcode, Payload = payload, Fin = False\<rparr>))
         else
           (let e = e\<lparr>fragment := Some \<lparr>fmOpcode = opcode, fmCompressed = compressed, fmData = payload\<rparr>\<rparr> in
            (consume frameEnd (p\<lparr>extra := Some e\<rparr>), Skipped))))"

text \<open>A continuation of the message \<open>f\<close>, which lives in the extra state.\<close>

definition finishContinuation ::
  "flate \<Rightarrow> bool \<Rightarrow> Parser \<Rightarrow> fragmentedMessage \<Rightarrow> bool \<Rightarrow> bool \<Rightarrow> nat \<Rightarrow> bytes \<Rightarrow> nat \<Rightarrow> Parser \<times> next_result" where
  "finishContinuation flate borrow p f fin istext checked payload frameEnd =
     (let e = moreExtra p;
          (v, ok) = (if istext then uwrite (utext e) (drop checked payload) else (utext e, True));
          e = e\<lparr>utext := v\<rparr> in
      if istext \<and> (\<not> ok \<or> (fin \<and> \<not> complete v)) then (p\<lparr>extra := Some e\<rparr>, Fail ErrInvalidPayload)
      else if perFrame p \<and> \<not> fmCompressed f then
        (let e = (if fin then e\<lparr>utext := ureset (utext e), fragment := None\<rparr> else e) in
         (finishFrame frameEnd borrow (p\<lparr>extra := Some e\<rparr>),
          Emit \<lparr>Opcode = fmOpcode f, Payload = payload, Fin = fin\<rparr>))
      else
        (let f = f\<lparr>fmData := fmData f @ payload\<rparr>;
             p = consume frameEnd (p\<lparr>extra := Some (e\<lparr>fragment := Some f\<rparr>)\<rparr>) in
         if \<not> fin then (p, Skipped)
         else
           (case (if fmCompressed f then
                    (case inflate flate p (fmData f) borrow of
                       (p, Inl err) \<Rightarrow> (p, Inl err)
                     | (p, Inr message) \<Rightarrow>
                         if fmOpcode f = Text \<and> \<not> utf8Valid message then (p, Inl ErrInvalidPayload)
                         else (p, Inr message))
                  else (p, Inr (fmData f))) of
              (p, Inl err) \<Rightarrow> (p, Fail err)
            | (p, Inr message) \<Rightarrow>
                (let e = moreExtra p in
                 (p\<lparr>extra := Some (e\<lparr>utext := ureset (utext e), fragment := None\<rparr>)\<rparr>,
                  Emit \<lparr>Opcode = fmOpcode f, Payload = message, Fin = True\<rparr>)))))"

text \<open>
  The part of \<^verbatim>\<open>next\<close> from where the whole frame is there: the payload is unmasked, in place when it
  is lent to the caller. A continuation has a message it continues, by the check of the header.
\<close>

definition takeChecked :: "Parser \<Rightarrow> nat \<times> Parser" where
  "takeChecked p =
     (case extra p of
        None \<Rightarrow> (0, p)
      | Some e \<Rightarrow> (textChecked e, p\<lparr>extra := Some (e\<lparr>textChecked := 0\<rparr>)\<rparr>))"

definition unmaskPayload :: "bytes option \<Rightarrow> bytes \<Rightarrow> bytes" where
  "unmaskPayload key raw = (case key of None \<Rightarrow> raw | Some key \<Rightarrow> applyMask raw key)"

definition lendPayload :: "bool \<Rightarrow> Parser \<Rightarrow> nat \<Rightarrow> bytes \<Rightarrow> Parser" where
  "lendPayload borrow p offset payload =
     (if borrow then
        p\<lparr>buffer := (buffer p)\<lparr>sbytes :=
          take offset (pbytes p) @ payload @ drop (offset + length payload) (pbytes p)\<rparr>\<rparr>
      else p)"

definition takeFrame ::
  "flate \<Rightarrow> bool \<Rightarrow> Parser \<Rightarrow> byte \<Rightarrow> nat \<Rightarrow> nat \<Rightarrow> bytes option \<Rightarrow> bool \<Rightarrow> Parser \<times> next_result" where
  "takeFrame flate borrow p first payloadLen offset key istext =
     (let fin = (first AND 0x80 \<noteq> 0); opcode = first AND 0x0f; compressed = (first AND 0x40 \<noteq> 0);
          frag = fragmentOf p;
          frameEnd = offset + payloadLen;
          (checked, p) = takeChecked p;
          payload = unmaskPayload key (take payloadLen (drop offset (pbytes p)));
          p = lendPayload borrow p offset payload in
      if 0x8 \<le> opcode then finishControl borrow p opcode payload frameEnd
      else if opcode = Text \<or> opcode = Binary then
        finishData flate borrow p opcode fin compressed istext checked payload frameEnd
      else
        (case frag of
           None \<Rightarrow> (p, Fail ErrProtocol)
         | Some f \<Rightarrow> finishContinuation flate borrow p f fin istext checked payload frameEnd))"

text \<open>
  The header: not all there, refused, or a frame whose payload of \<open>n\<close> bytes starts at \<open>offset\<close> and is
  masked with \<open>key\<close>; the last field tells whether it is text to be checked as it arrives.
\<close>

datatype frame_head = HeadMore | HeadBad ws_error | Head byte nat nat "bytes option" bool

definition frameHead :: "wscfg \<Rightarrow> fragmentedMessage option \<Rightarrow> bytes \<Rightarrow> frame_head" where
  "frameHead c frag buf =
     (if length buf < 2 then HeadMore
      else
        (let first = buf ! 0; second = buf ! 1;
             opcode = first AND 0x0f; masked = (second AND 0x80 \<noteq> 0); compressed = (first AND 0x40 \<noteq> 0) in
         if headerError c frag first second then HeadBad ErrProtocol
         else
           (case readLength buf second of
              LenMore \<Rightarrow> HeadMore
            | LenBad \<Rightarrow> HeadBad ErrProtocol
            | LenOk payloadLen offset \<Rightarrow>
                (let control = (0x8 \<le> opcode);
                     current = (case frag of None \<Rightarrow> 0 | Some f \<Rightarrow> length (fmData f)) in
                 if \<not> control \<and> (payloadLen > cMax c \<or> current > cMax c - payloadLen) then HeadBad ErrMessageTooBig
                 else if masked \<and> length buf < offset + 4 then HeadMore
                 else
                   (let key = (if masked then Some (take 4 (drop offset buf)) else None);
                        offset = (if masked then offset + 4 else offset);
                        istext = (opcode = Text \<and> \<not> compressed \<or>
                               opcode = Continuation \<and>
                                 (case frag of None \<Rightarrow> False | Some f \<Rightarrow> fmOpcode f = Text \<and> \<not> fmCompressed f)) in
                    Head first payloadLen offset key istext)))))"

definition next_frame :: "flate \<Rightarrow> bool \<Rightarrow> Parser \<Rightarrow> Parser \<times> next_result" where
  "next_frame flate borrow p =
     (case frameHead (cfg p) (fragmentOf p) (pbytes p) of
        HeadMore \<Rightarrow> (p, Incomplete)
      | HeadBad err \<Rightarrow> (p, Fail err)
      | Head first payloadLen offset key istext \<Rightarrow>
          if payloadLen > length (pbytes p) - offset then
            (if istext then
               (case checkPartialText p (drop offset (pbytes p)) key of
                  (p, ok) \<Rightarrow> if ok then (p, Incomplete) else (p, Fail ErrInvalidPayload))
             else (p, Incomplete))
          else takeFrame flate borrow p first payloadLen offset key istext)"

subsection \<open>Feeding\<close>

datatype feed_result = Failed ws_error | NoEvent | Got Event

lemma consume_bytes: "pbytes (consume n p) = drop n (pbytes p)"
  by (auto simp: consume_def releaseOwned_def nilSlice_def lent_def Let_def)

lemma consume_simps [simp]:
  "borrowedTail (consume n p) = borrowedTail p" "extra (consume n p) = extra p"
  "pendingConsume (consume n p) = pendingConsume p"
  "maxMessageBytes (consume n p) = maxMessageBytes p" "fromServer (consume n p) = fromServer p"
  "perFrame (consume n p) = perFrame p" "deflate (consume n p) = deflate p"
  "contextTakeover (consume n p) = contextTakeover p"
  by (simp_all add: consume_def releaseOwned_def Let_def)

lemma inflate_keeps:
  assumes "inflate flate p c b = (p', r)"
  shows "\<exists>e l. p' = p\<lparr>pool := l, extra := Some e\<rparr> \<and> fragment e = fragment (moreExtra p) \<and>
             utext e = utext (moreExtra p) \<and> textChecked e = textChecked (moreExtra p)"
proof (cases p)
  case (fields maxMessageBytes buffer owned borrowedTail pendingConsume extra fromServer borrowedBuffer perFrame deflate contextTakeover pool)
  then show ?thesis using assms by (auto simp: inflate_def Let_def split: sum.splits prod.splits if_splits)
qed

lemma checkPartialText_keeps: "checkPartialText p a k = (p', ok) \<Longrightarrow> \<exists>e. p' = p\<lparr>extra := e\<rparr>"
proof (cases p)
  case (fields maxMessageBytes buffer owned borrowedTail pendingConsume extra fromServer borrowedBuffer perFrame deflate contextTakeover pool)
  then show "checkPartialText p a k = (p', ok) \<Longrightarrow> \<exists>e. p' = p\<lparr>extra := e\<rparr>"
    by (auto simp: checkPartialText_def Let_def split: prod.splits if_splits)
qed

text \<open>A frame that emits nothing was a whole one.\<close>

lemma finish_skipped:
  "finishControl b p oc pl n \<noteq> (p', Skipped)"
  "finishData fl b p oc fin c t ch pl n = (p', Skipped) \<Longrightarrow> \<exists>e. p' = consume n (p\<lparr>extra := e\<rparr>)"
  "finishContinuation fl b p f fin t ch pl n = (p', Skipped) \<Longrightarrow> \<exists>e. p' = consume n (p\<lparr>extra := e\<rparr>)"
  by (auto simp: finishControl_def finishData_def finishContinuation_def Let_def
      split: if_splits prod.splits sum.splits option.splits)


lemma readLength_offset: "readLength buf second = LenOk n off \<Longrightarrow> 2 \<le> off \<and> off \<le> length buf \<and> n < 2 ^ 63"
  if "2 \<le> length buf"
proof -
  have w: "drop_bit 63 w = 0 \<Longrightarrow> unat w < 2 ^ 63" for w :: uint64
    using unat_drop_bit [of 63 w] by (simp add: div_eq_0_iff)
  have "unat (v :: uint16) < 2 ^ 63" "unat (b :: byte) < 2 ^ 63" for v b
    by (rule less_trans [OF unsigned_less]; simp)+
  with w that show "readLength buf second = LenOk n off \<Longrightarrow> 2 \<le> off \<and> off \<le> length buf \<and> n < 2 ^ 63"
    by (auto simp: readLength_def Let_def split: if_splits)
qed

lemma frameHead_facts:
  assumes "frameHead c frag buf = Head first n off key istext"
  shows "2 \<le> off" and "off \<le> length buf" and "n < 2 ^ 63" and "first = buf ! 0"
    and "\<And>k. key = Some k \<Longrightarrow> length k = 4"
proof -
  have "2 \<le> length buf" using assms by (simp add: frameHead_def split: if_splits)
  note rl = readLength_offset [OF this, of "buf ! 1"]
  show "first = buf ! 0" using assms by (simp add: frameHead_def Let_def split: if_splits len_result.splits)
  show "2 \<le> off" "n < 2 ^ 63"
    using assms rl by (auto simp: frameHead_def Let_def split: if_splits len_result.splits)
  show "off \<le> length buf"
    using assms rl by (auto simp: frameHead_def Let_def split: if_splits len_result.splits)
  show "length k = 4" if "key = Some k" for k
    using assms that by (auto simp: frameHead_def Let_def split: if_splits len_result.splits)
qed

lemma takeChecked_simps [simp]:
  "buffer (snd (takeChecked p)) = buffer p" "borrowedTail (snd (takeChecked p)) = borrowedTail p"
  "owned (snd (takeChecked p)) = owned p" "pendingConsume (snd (takeChecked p)) = pendingConsume p"
  "borrowedBuffer (snd (takeChecked p)) = borrowedBuffer p" "pool (snd (takeChecked p)) = pool p"
  "maxMessageBytes (snd (takeChecked p)) = maxMessageBytes p" "fromServer (snd (takeChecked p)) = fromServer p"
  "perFrame (snd (takeChecked p)) = perFrame p" "deflate (snd (takeChecked p)) = deflate p"
  "contextTakeover (snd (takeChecked p)) = contextTakeover p"
  by (simp_all add: takeChecked_def split: option.splits)

lemma lendPayload_simps [simp]:
  "extra (lendPayload b p off pl) = extra p" "borrowedTail (lendPayload b p off pl) = borrowedTail p"
  "owned (lendPayload b p off pl) = owned p" "pendingConsume (lendPayload b p off pl) = pendingConsume p"
  "borrowedBuffer (lendPayload b p off pl) = borrowedBuffer p" "pool (lendPayload b p off pl) = pool p"
  "maxMessageBytes (lendPayload b p off pl) = maxMessageBytes p" "fromServer (lendPayload b p off pl) = fromServer p"
  "perFrame (lendPayload b p off pl) = perFrame p" "deflate (lendPayload b p off pl) = deflate p"
  "contextTakeover (lendPayload b p off pl) = contextTakeover p"
  "sid (buffer (lendPayload b p off pl)) = sid (buffer p)" "scap (buffer (lendPayload b p off pl)) = scap (buffer p)"
  by (simp_all add: lendPayload_def)

lemma lendPayload_bytes:
  assumes "off + length pl \<le> length (pbytes p)"
  shows "length (pbytes (lendPayload b p off pl)) = length (pbytes p)"
    and "drop (off + length pl) (pbytes (lendPayload b p off pl)) = drop (off + length pl) (pbytes p)"
  using assms by (auto simp: lendPayload_def)

lemma length_unmask: "(\<And>k. key = Some k \<Longrightarrow> length k = 4) \<Longrightarrow> length (unmaskPayload key raw) = length raw"
  by (auto simp: unmaskPayload_def applyMask_tail split: option.splits)

lemma takeFrame_skipped:
  assumes "takeFrame fl b p first n off key t = (p', Skipped)" and "off + n \<le> length (pbytes p)"
    and "\<And>k. key = Some k \<Longrightarrow> length k = 4"
  shows "length (pbytes p') = length (pbytes p) - (off + n) \<and> borrowedTail p' = borrowedTail p \<and>
    pendingConsume p' = pendingConsume p"
proof -
  define pl where "pl = unmaskPayload key (take n (drop off (pbytes p)))"
  have len: "length pl = n" using assms(2,3) by (simp add: pl_def length_unmask)
  define q where "q = lendPayload b (snd (takeChecked p)) off pl"
  have "\<exists>e. p' = consume (off + n) (q\<lparr>extra := e\<rparr>)"
  proof -
    let ?op = "first AND 0x0f"
    consider "0x8 \<le> ?op" | "\<not> 0x8 \<le> ?op" "?op = Text \<or> ?op = Binary" | "\<not> 0x8 \<le> ?op" "\<not> (?op = Text \<or> ?op = Binary)"
      by blast
    then show ?thesis
      using assms(1)
      unfolding takeFrame_def Let_def case_prod_unfold takeChecked_simps pl_def [symmetric] q_def [symmetric]
      by cases (auto simp: finish_skipped(1) dest: finish_skipped(2,3) split: option.splits)
  qed
  then obtain e where "p' = consume (off + n) (q\<lparr>extra := e\<rparr>)" by blast
  moreover have "length (pbytes q) = length (pbytes p)" "borrowedTail q = borrowedTail p" "pendingConsume q = pendingConsume p"
    using lendPayload_bytes [of off pl "snd (takeChecked p)"] assms(2) len by (simp_all add: q_def)
  ultimately show ?thesis using assms(2) by (simp add: consume_bytes)
qed

lemma next_skipped:
  assumes "next_frame fl b p = (p', Skipped)"
  shows "length (pbytes p') < length (pbytes p) \<and> borrowedTail p' = borrowedTail p \<and> pendingConsume p' = pendingConsume p"
proof (cases "frameHead (cfg p) (fragmentOf p) (pbytes p)")
  case (Head first n off key istext)
  note facts = frameHead_facts [OF Head]
  have n: "\<not> length (pbytes p) - off < n" and tf: "takeFrame fl b p first n off key istext = (p', Skipped)"
    using assms Head by (auto simp: next_frame_def split: if_splits prod.splits)
  then have "off + n \<le> length (pbytes p)" using facts(2) by linarith
  from takeFrame_skipped [OF tf this facts(5)] this facts(1) show ?thesis by linarith
qed (use assms in \<open>auto simp: next_frame_def\<close>)


definition failParser :: "Parser \<Rightarrow> Parser" where
  "failParser p =
     dropExtra ((releaseOwned (p\<lparr>buffer := nilSlice\<rparr>))\<lparr>borrowedBuffer := False, borrowedTail := []\<rparr>)"

text \<open>Taking up the bytes that followed a frame in the same read.\<close>

definition takeTail :: "Parser \<Rightarrow> Parser" where
  "takeTail p = p\<lparr>buffer := lent (borrowedTail p), borrowedTail := [], borrowedBuffer := True\<rparr>"

text \<open>The loop of \<^verbatim>\<open>feedOne\<close>: every round takes a frame or the rest of the read.\<close>

lemma finish_complete:
  "finishControl b p oc pl n \<noteq> (p', Incomplete)"
  "finishData fl b p oc fin c t ch pl n \<noteq> (p', Incomplete)"
  "finishContinuation fl b p f fin t ch pl n \<noteq> (p', Incomplete)"
  by (auto simp: finishControl_def finishData_def finishContinuation_def Let_def
      split: if_splits prod.splits sum.splits option.splits)

lemma takeFrame_complete: "takeFrame fl b p first n off key istext \<noteq> (q, Incomplete)"
  by (simp add: takeFrame_def Let_def case_prod_unfold finish_complete split: option.split)

lemma next_incomplete:
  assumes "next_frame fl b p = (p', Incomplete)"
  shows "\<exists>e. p' = p\<lparr>extra := e\<rparr>"
proof (cases "frameHead (cfg p) (fragmentOf p) (pbytes p)")
  case (Head first n off key istext)
  have self: "\<exists>e. p = p\<lparr>extra := e\<rparr>" by (intro exI [of _ "extra p"]) simp
  show ?thesis
    using assms Head self
    by (auto simp: next_frame_def takeFrame_complete split: if_splits prod.splits dest: checkPartialText_keeps)
qed (use assms in \<open>auto simp: next_frame_def intro: exI [of _ "extra p"]\<close>)

function feedLoop :: "flate \<Rightarrow> bool \<Rightarrow> Parser \<Rightarrow> Parser \<times> feed_result" where
  "feedLoop flate borrow p =
     (case next_frame flate borrow p of
        (p', Fail err) \<Rightarrow> (failParser p', Failed err)
      | (p', Incomplete) \<Rightarrow>
          if pbytes p' = [] \<and> borrowedTail p' \<noteq> [] then feedLoop flate borrow (takeTail p')
          else if borrowedBuffer p' \<and> pbytes p' \<noteq> [] then (adoptOwned p', NoEvent)
          else (p', NoEvent)
      | (p', Emit event) \<Rightarrow> (p', Got event)
      | (p', Skipped) \<Rightarrow> feedLoop flate borrow p')"
  by pat_completeness auto
termination
proof (relation "inv_image (less_than <*lex*> less_than)
    (\<lambda>(fl, b, p). (length (pbytes p) + length (borrowedTail p), length (borrowedTail p)))", goal_cases)
  case (2 fl b p p' r)
  then obtain e where "p' = p\<lparr>extra := e\<rparr>" using next_incomplete [of fl b p p'] by auto
  with 2 show ?case by (auto simp: takeTail_def lent_def)
next
  case (3 fl b p p' r)
  then show ?case using next_skipped [of fl b p p'] by auto
qed auto

definition feedOne :: "flate \<Rightarrow> Parser \<Rightarrow> bytes \<Rightarrow> bool \<Rightarrow> Parser \<times> feed_result" where
  "feedOne flate p data borrow =
     (let p = applyPending p;
          p = (if pbytes p = [] \<and> borrowedTail p \<noteq> [] then takeTail p else p);
          p = (if borrow \<and> pbytes p = [] \<and> data \<noteq> [] then p\<lparr>buffer := lent data, borrowedBuffer := True\<rparr>
               else if borrow \<and> \<not> borrowedBuffer p \<and> pbytes p \<noteq> [] \<and> data \<noteq> [] then
                 (case appendCurrentFrame (pool p) (buffer p) data of
                    (l, b, tail) \<Rightarrow> keepOwned (p\<lparr>pool := l, buffer := b, borrowedTail := tail\<rparr>))
               else
                 (let p = (if borrowedBuffer p \<and> data \<noteq> [] then adoptOwned p else p) in
                  case AppendPool (pool p) (buffer p) data of
                    (l, b) \<Rightarrow> keepOwned (p\<lparr>pool := l, buffer := b\<rparr>))) in
      feedLoop flate borrow p)"

definition FeedOne :: "flate \<Rightarrow> Parser \<Rightarrow> bytes \<Rightarrow> Parser \<times> feed_result" where
  "FeedOne flate p data = feedOne flate p data False"

definition FeedOneBorrowed :: "flate \<Rightarrow> Parser \<Rightarrow> bytes \<Rightarrow> Parser \<times> feed_result" where
  "FeedOneBorrowed flate p data = feedOne flate p data True"

declare feedLoop.simps [simp del]

subsection \<open>Sending\<close>

definition sendOpcode :: "byte \<Rightarrow> bool" where
  "sendOpcode opcode \<longleftrightarrow> opcode = Text \<or> opcode = Binary \<or> opcode = Close \<or> opcode = Ping \<or> opcode = Pong"

text \<open>The header \<^verbatim>\<open>frameHeader\<close> writes to the front of its buffer.\<close>

definition frameHeader :: "byte \<Rightarrow> nat \<Rightarrow> ws_error + bytes" where
  "frameHeader opcode payloadLen =
     (if \<not> sendOpcode opcode then Inl ErrProtocol
      else if 0x8 \<le> opcode \<and> payloadLen > 125 then Inl ErrProtocol
      else if payloadLen < 126 then Inr [0x80 OR opcode, of_nat payloadLen]
      else if payloadLen \<le> 65535 then Inr ([0x80 OR opcode, 126] @ be_bytes 2 (of_nat payloadLen :: uint16))
      else Inr ([0x80 OR opcode, 127] @ be_bytes 8 (of_nat payloadLen :: uint64)))"

definition MarshalFrame :: "byte \<Rightarrow> bytes \<Rightarrow> ws_error + bytes" where
  "MarshalFrame opcode payload =
     (if \<not> sendOpcode opcode then Inl ErrProtocol
      else if 0x8 \<le> opcode \<and> length payload > 125 then Inl ErrProtocol
      else
        Inr ((0x80 OR opcode) #
          (if length payload < 126 then [of_nat (length payload)]
           else if length payload \<le> 65535 then 126 # be_bytes 2 (of_nat (length payload) :: uint16)
           else 127 # be_bytes 8 (of_nat (length payload) :: uint64)) @ payload))"

text \<open>
  \<^verbatim>\<open>buildFrame\<close> of \<^verbatim>\<open>websocket/prepared.go\<close>, also what \<^verbatim>\<open>sendFrame\<close> of \<^verbatim>\<open>websocket/handler.go\<close> hands to the
  connection of a server, and \<^verbatim>\<open>sendMaskedFrame\<close> for a client, whose key \<^verbatim>\<open>crypto/rand\<close> gives.
\<close>

definition sendFrame :: "byte \<Rightarrow> bytes \<Rightarrow> bool \<Rightarrow> ws_error + bytes" where
  "sendFrame opcode payload compressed =
     (case frameHeader opcode (length payload) of
        Inl err \<Rightarrow> Inl err
      | Inr header \<Rightarrow>
          (let header = (if compressed then header[0 := header ! 0 OR 0x40] else header) in Inr (header @ payload)))"

definition sendMaskedFrame :: "bytes \<Rightarrow> byte \<Rightarrow> bytes \<Rightarrow> bool \<Rightarrow> ws_error + bytes" where
  "sendMaskedFrame key opcode payload compressed =
     (case frameHeader opcode (length payload) of
        Inl err \<Rightarrow> Inl err
      | Inr header \<Rightarrow>
          (let header = (if compressed then header[0 := header ! 0 OR 0x40] else header);
               header = header[1 := header ! 1 OR 0x80] in
           Inr (header @ key @ applyMask payload key)))"

end
