(* ===== verification/Ws_Spec.thy ===== *)
theory Ws_Spec
  imports Ws_Frame
begin

text \<open>
  What the frame parser computes, without its buffers: the meaning of a stream of bytes as a
  sequence of events. The state between frames is the message in progress, how far its text was
  validated, and the history of decompressed messages. The meaning of a stream does not depend on
  where it is cut.
\<close>

record mstate =
  mfrag :: "fragmentedMessage option"
  mutf :: utf8Validator
  mwin :: bytes

definition mstart :: mstate where
  "mstart = \<lparr>mfrag = None, mutf = freshValidator, mwin = []\<rparr>"

definition spec_inflate :: "flate \<Rightarrow> wscfg \<Rightarrow> bytes \<Rightarrow> bytes \<Rightarrow> ws_error + bytes \<times> bytes" where
  "spec_inflate flate c win payload =
     (case decompressMessage flate [] payload (if cTakeover c then win else []) (cMax c) of
        Inl e \<Rightarrow> Inl e
      | Inr m \<Rightarrow> Inr (m, if cTakeover c then keepWindow win m else win))"

definition spec_text :: "bool \<Rightarrow> utf8Validator \<Rightarrow> bytes \<Rightarrow> utf8Validator \<times> bool" where
  "spec_text istext v payload = (if istext then stepAll v payload else (v, True))"

definition spec_control :: "mstate \<Rightarrow> byte \<Rightarrow> bytes \<Rightarrow> ws_error + Event option \<times> mstate" where
  "spec_control st opcode payload =
     (if opcode = Close \<and>
         (length payload = 1 \<or> (2 \<le> length payload \<and> \<not> validCloseCode (be_read (take 2 payload)))) then Inl ErrProtocol
      else if opcode = Close \<and> 2 < length payload \<and> \<not> utf8Valid (drop 2 payload) then Inl ErrInvalidPayload
      else Inr (Some \<lparr>Opcode = opcode, Payload = payload, Fin = True\<rparr>, st))"

definition spec_data ::
  "flate \<Rightarrow> wscfg \<Rightarrow> mstate \<Rightarrow> byte \<Rightarrow> bool \<Rightarrow> bool \<Rightarrow> bool \<Rightarrow> bytes \<Rightarrow> ws_error + Event option \<times> mstate" where
  "spec_data flate c st opcode fin compressed istext payload =
     (if fin \<and> compressed then
        (case spec_inflate flate c (mwin st) payload of
           Inl e \<Rightarrow> Inl e
         | Inr (m, w) \<Rightarrow>
             if opcode = Text \<and> \<not> utf8Valid m then Inl ErrInvalidPayload
             else Inr (Some \<lparr>Opcode = opcode, Payload = m, Fin = True\<rparr>, st\<lparr>mwin := w\<rparr>))
      else if fin then
        if istext \<and> \<not> utf8Valid payload then Inl ErrInvalidPayload
        else Inr (Some \<lparr>Opcode = opcode, Payload = payload, Fin = True\<rparr>, st)
      else
        (case spec_text istext (mutf st) payload of
           (v, ok) \<Rightarrow>
             if \<not> ok then Inl ErrInvalidPayload
             else if cPerFrame c \<and> \<not> compressed then
               Inr (Some \<lparr>Opcode = opcode, Payload = payload, Fin = False\<rparr>,
                    st\<lparr>mfrag := Some \<lparr>fmOpcode = opcode, fmCompressed = False, fmData = []\<rparr>, mutf := v\<rparr>)
             else
               Inr (None, st\<lparr>mfrag := Some \<lparr>fmOpcode = opcode, fmCompressed = compressed, fmData = payload\<rparr>, mutf := v\<rparr>)))"

definition spec_continuation ::
  "flate \<Rightarrow> wscfg \<Rightarrow> mstate \<Rightarrow> fragmentedMessage \<Rightarrow> bool \<Rightarrow> bool \<Rightarrow> bytes \<Rightarrow> ws_error + Event option \<times> mstate" where
  "spec_continuation flate c st f fin istext payload =
     (case spec_text istext (mutf st) payload of
        (v, ok) \<Rightarrow>
          if istext \<and> (\<not> ok \<or> (fin \<and> \<not> complete v)) then Inl ErrInvalidPayload
          else if cPerFrame c \<and> \<not> fmCompressed f then
            Inr (Some \<lparr>Opcode = fmOpcode f, Payload = payload, Fin = fin\<rparr>,
                 if fin then st\<lparr>mfrag := None, mutf := freshValidator\<rparr> else st\<lparr>mutf := v\<rparr>)
          else if \<not> fin then Inr (None, st\<lparr>mfrag := Some (f\<lparr>fmData := fmData f @ payload\<rparr>), mutf := v\<rparr>)
          else if fmCompressed f then
            (case spec_inflate flate c (mwin st) (fmData f @ payload) of
               Inl e \<Rightarrow> Inl e
             | Inr (m, w) \<Rightarrow>
                 if fmOpcode f = Text \<and> \<not> utf8Valid m then Inl ErrInvalidPayload
                 else Inr (Some \<lparr>Opcode = fmOpcode f, Payload = m, Fin = True\<rparr>,
                           \<lparr>mfrag = None, mutf = freshValidator, mwin = w\<rparr>))
          else
            Inr (Some \<lparr>Opcode = fmOpcode f, Payload = fmData f @ payload, Fin = True\<rparr>,
                 st\<lparr>mfrag := None, mutf := freshValidator\<rparr>))"

definition spec_frame ::
  "flate \<Rightarrow> wscfg \<Rightarrow> mstate \<Rightarrow> byte \<Rightarrow> bool \<Rightarrow> bytes \<Rightarrow> ws_error + Event option \<times> mstate" where
  "spec_frame flate c st first istext payload =
     (let fin = (first AND 0x80 \<noteq> 0); opcode = first AND 0x0f; compressed = (first AND 0x40 \<noteq> 0) in
      if 0x8 \<le> opcode then spec_control st opcode payload
      else if opcode = Text \<or> opcode = Binary then spec_data flate c st opcode fin compressed istext payload
      else
        (case mfrag st of
           None \<Rightarrow> Inl ErrProtocol
         | Some f \<Rightarrow> spec_continuation flate c st f fin istext payload))"

text \<open>One frame from the front of the stream: not there yet, refused, or taken with its length.\<close>

datatype spec_result = SWait | SErr ws_error | SStep "Event option" mstate nat

definition spec_step :: "flate \<Rightarrow> wscfg \<Rightarrow> mstate \<Rightarrow> bytes \<Rightarrow> spec_result" where
  "spec_step flate c st bs =
     (case frameHead c (mfrag st) bs of
        HeadMore \<Rightarrow> SWait
      | HeadBad e \<Rightarrow> SErr e
      | Head first n off key istext \<Rightarrow>
          if n > length bs - off then
            (if snd (spec_text istext (mutf st) (unmaskPayload key (drop off bs))) then SWait else SErr ErrInvalidPayload)
          else
            (case spec_frame flate c st first istext (unmaskPayload key (take n (drop off bs))) of
               Inl e \<Rightarrow> SErr e
             | Inr (ev, st') \<Rightarrow> SStep ev st' (off + n)))"

lemma spec_step_pos: "spec_step fl c st bs = SStep ev st' n \<Longrightarrow> 0 < n \<and> n \<le> length bs"
proof -
  assume "spec_step fl c st bs = SStep ev st' n"
  then obtain first k off key istext where "frameHead c (mfrag st) bs = Head first k off key istext"
    "n = off + k" "\<not> length bs - off < k"
    by (auto simp: spec_step_def split: frame_head.splits if_splits sum.splits)
  then show ?thesis using frameHead_facts(1,2) [of c "mfrag st" bs] by fastforce
qed

function spec_run :: "flate \<Rightarrow> wscfg \<Rightarrow> mstate \<Rightarrow> bytes \<Rightarrow> Event list \<times> (ws_error + mstate \<times> bytes)" where
  "spec_run fl c st bs =
     (case spec_step fl c st bs of
        SWait \<Rightarrow> ([], Inr (st, bs))
      | SErr e \<Rightarrow> ([], Inl e)
      | SStep ev st' n \<Rightarrow>
          (case spec_run fl c st' (drop n bs) of (evs, r) \<Rightarrow> ((case ev of None \<Rightarrow> evs | Some e \<Rightarrow> e # evs), r)))"
  by pat_completeness auto
termination
  by (relation "measure (\<lambda>(fl, c, st, bs). length bs)") (auto dest: spec_step_pos)

declare spec_run.simps [simp del]

subsection \<open>More bytes do not change what was decided\<close>

lemma readLength_append:
  assumes "2 \<le> length buf"
  shows "readLength buf s = LenOk n off \<Longrightarrow> readLength (buf @ x) s = LenOk n off"
    and "readLength buf s = LenBad \<Longrightarrow> readLength (buf @ x) s = LenBad"
  using assms by (auto simp: readLength_def Let_def split: if_splits)

lemma frameHead_append:
  assumes "frameHead c frag buf \<noteq> HeadMore"
  shows "frameHead c frag (buf @ x) = frameHead c frag buf"
proof -
  have len: "2 \<le> length buf" using assms by (auto simp: frameHead_def split: if_splits)
  then have nth: "(buf @ x) ! 0 = buf ! 0" "(buf @ x) ! 1 = buf ! 1" by (auto simp: nth_append)
  show ?thesis
  proof (cases "readLength buf (buf ! 1)")
    case (LenOk n off)
    note off = readLength_offset [OF len LenOk]
    show ?thesis
      using assms len nth LenOk readLength_append(1) [OF len LenOk, of x] off
      by (auto simp: frameHead_def Let_def split: if_splits)
  next
    case LenBad
    then show ?thesis using len nth readLength_append(2) [OF len LenBad, of x] by (simp add: frameHead_def Let_def)
  next
    case LenMore
    then show ?thesis using assms len nth by (auto simp: frameHead_def Let_def split: if_splits)
  qed
qed

lemma unmask_take:
  assumes "\<And>k. key = Some k \<Longrightarrow> length k = 4"
  shows "unmaskPayload key (take n b) = take n (unmaskPayload key b)"
proof -
  have "maskTail i k (take n b) = take n (maskTail i k b)" for i k
    by (rule nth_equalityI) (auto simp: nth_maskTail)
  then show ?thesis using assms by (auto simp: unmaskPayload_def applyMask_tail split: option.splits)
qed

text \<open>Between messages no text is in progress.\<close>

definition mok :: "mstate \<Rightarrow> bool" where
  "mok st \<longleftrightarrow> vok (mutf st) \<and> (mfrag st = None \<longrightarrow> need (mutf st) = 0)"

lemma mstart_ok [simp]: "mok mstart"
  by (simp add: mok_def mstart_def)

lemma spec_text_prefix: "snd (spec_text t v (a @ b)) \<Longrightarrow> snd (spec_text t v a)"
  by (auto simp: spec_text_def stepAll_append split: prod.splits if_splits)


lemma spec_text_ok: "vok v \<Longrightarrow> spec_text t v pl = (v', True) \<Longrightarrow> vok v'"
  by (auto simp: spec_text_def stepAll_ok split: if_splits)

lemma spec_control_ok: "mok st \<Longrightarrow> spec_control st oc pl = Inr (ev, st') \<Longrightarrow> mok st'"
  by (auto simp: spec_control_def split: if_splits)

lemma spec_data_ok: "mok st \<Longrightarrow> spec_data fl c st oc fin cm t pl = Inr (ev, st') \<Longrightarrow> mok st'"
  by (auto simp: spec_data_def mok_def spec_text_ok split: if_splits sum.splits prod.splits)

lemma spec_continuation_ok:
  assumes "mok st" and "mfrag st = Some f" and "spec_continuation fl c st f fin t pl = Inr (ev, st')"
  shows "mok st'"
proof -
  obtain v ok where v: "spec_text t (mutf st) pl = (v, ok)" by fastforce
  have "vok v" if "\<not> (t \<and> \<not> ok)"
    using that v assms(1) spec_text_ok [of "mutf st" t pl v] by (cases t) (auto simp: mok_def spec_text_def)
  with assms v show ?thesis
    by (auto simp: spec_continuation_def mok_def split: if_splits sum.splits prod.splits)
qed

lemma spec_frame_ok: "mok st \<Longrightarrow> spec_frame fl c st first t pl = Inr (ev, st') \<Longrightarrow> mok st'"
  by (auto simp: spec_frame_def Let_def split: if_splits option.splits
      dest: spec_control_ok spec_data_ok spec_continuation_ok)

lemma spec_step_ok: "mok st \<Longrightarrow> spec_step fl c st bs = SStep ev st' n \<Longrightarrow> mok st'"
  by (auto simp: spec_step_def split: frame_head.splits if_splits sum.splits dest: spec_frame_ok)

text \<open>A text refused before its frame is complete is refused with the frame.\<close>

definition textFrame :: "fragmentedMessage option \<Rightarrow> byte \<Rightarrow> bool" where
  "textFrame frag first \<longleftrightarrow> first AND 0x0f = Text \<and> first AND 0x40 = 0 \<or>
    first AND 0x0f = Continuation \<and> (case frag of None \<Rightarrow> False | Some f \<Rightarrow> fmOpcode f = Text \<and> \<not> fmCompressed f)"

lemma frameHead_header:
  assumes "frameHead c frag bs = Head first n off key t"
  shows "\<not> headerError c frag first (bs ! 1)" and "t = textFrame frag first"
  using assms by (auto simp: frameHead_def textFrame_def Let_def split: if_splits len_result.splits)

lemmas opcodes = Text_def Binary_def Continuation_def Close_def Ping_def Pong_def

lemma header_opcode:
  assumes "\<not> headerError c frag first second"
  shows "first AND 0x0f = Continuation \<longleftrightarrow> \<not> 0x8 \<le> first AND 0x0f \<and> frag \<noteq> None"
    and "first AND 0x0f = Text \<or> first AND 0x0f = Binary \<longleftrightarrow> \<not> 0x8 \<le> first AND 0x0f \<and> frag = None"
    and "0x8 \<le> first AND 0x0f \<longleftrightarrow> first AND 0x0f = Close \<or> first AND 0x0f = Ping \<or> first AND 0x0f = Pong"
proof -
  obtain oc where oc: "first AND 0x0f = oc" by blast
  have le: "\<not> 8 \<le> Text" "\<not> 8 \<le> Binary" "\<not> 8 \<le> Continuation" "8 \<le> Close" "8 \<le> Ping" "8 \<le> Pong"
    by (simp_all add: opcodes word_le_nat_alt)
  have ne: "Continuation \<noteq> Text" "Continuation \<noteq> Binary" by (simp_all add: opcodes)
  have h: "if oc = Continuation then frag \<noteq> None else if oc = Text \<or> oc = Binary then frag = None
      else oc = Close \<or> oc = Ping \<or> oc = Pong"
    using assms unfolding headerError_def Let_def oc by (auto split: if_splits)
  show "first AND 0x0f = Continuation \<longleftrightarrow> \<not> 0x8 \<le> first AND 0x0f \<and> frag \<noteq> None"
    and "first AND 0x0f = Text \<or> first AND 0x0f = Binary \<longleftrightarrow> \<not> 0x8 \<le> first AND 0x0f \<and> frag = None"
    and "0x8 \<le> first AND 0x0f \<longleftrightarrow> first AND 0x0f = Close \<or> first AND 0x0f = Ping \<or> first AND 0x0f = Pong"
    unfolding oc using h le ne by (auto split: if_splits)
qed

lemma spec_frame_text:
  assumes "mok st" and "frameHead c (mfrag st) bs = Head first n off key t"
    and "\<not> snd (spec_text t (mutf st) pl)"
  shows "spec_frame fl c st first t pl = Inl ErrInvalidPayload"
proof -
  have t: t "\<not> snd (stepAll (mutf st) pl)" using assms(3) by (auto simp: spec_text_def split: if_splits)
  note hd = frameHead_header [OF assms(2)]
  have tf: "textFrame (mfrag st) first" using t hd by simp
  note op = header_opcode [OF hd(1)]
  show ?thesis
  proof (cases "mfrag st")
    case None
    then have "need (mutf st) = 0" using assms(1) by (simp add: mok_def)
    then have "\<not> utf8Valid pl" using valid_stepAll [of "mutf st" pl] t(2) by blast
    moreover have "first AND 0x0f = Text" "first AND 0x40 = 0" using tf None by (auto simp: textFrame_def)
    moreover have "\<not> 0x8 \<le> first AND 0x0f" using op(2) \<open>first AND 0x0f = Text\<close> by blast
    ultimately show ?thesis using t by (auto simp: spec_frame_def spec_data_def spec_text_def Let_def split: prod.splits)
  next
    case (Some f)
    then have "first AND 0x0f = Continuation" "\<not> 0x8 \<le> first AND 0x0f" "\<not> (first AND 0x0f = Text \<or> first AND 0x0f = Binary)"
      using op tf by (auto simp: textFrame_def)
    with Some t show ?thesis by (auto simp: spec_frame_def spec_continuation_def spec_text_def Let_def split: prod.splits)
  qed
qed


lemma spec_step_append:
  assumes "mok st" and "spec_step fl c st a \<noteq> SWait"
  shows "spec_step fl c st (a @ b) = spec_step fl c st a"
proof (cases "frameHead c (mfrag st) a")
  case HeadMore
  then show ?thesis using assms(2) by (simp add: spec_step_def)
next
  case (HeadBad e)
  then show ?thesis using frameHead_append [of c "mfrag st" a b] by (simp add: spec_step_def)
next
  case (Head first n off key t)
  have hd: "frameHead c (mfrag st) (a @ b) = Head first n off key t"
    using frameHead_append [of c "mfrag st" a b] Head by simp
  note facts = frameHead_facts [OF Head]
  show ?thesis
  proof (cases "length a - off < n")
    case False
    then have "take n (drop off (a @ b)) = take n (drop off a)" using facts(2) by simp
    moreover have "\<not> length (a @ b) - off < n" using False by simp
    ultimately show ?thesis using False Head hd unfolding spec_step_def by (simp del: take_append drop_append length_append)
  next
    case True
    let ?pre = "unmaskPayload key (drop off a)"
    have bad: "\<not> snd (spec_text t (mutf st) ?pre)" using assms(2) Head True by (auto simp: spec_step_def)
    have ext: "\<exists>q. unmaskPayload key (take k (drop off (a @ b))) = ?pre @ q" if "length a - off \<le> k" for k
    proof -
      have "take (length a - off) (take k (drop off (a @ b))) = drop off a" using facts(2) that by simp
      then have "take (length a - off) (unmaskPayload key (take k (drop off (a @ b)))) = ?pre"
        using unmask_take [OF facts(5), where n = "length a - off"] by metis
      then show ?thesis by (metis append_take_drop_id)
    qed
    have bad': "\<not> snd (spec_text t (mutf st) (unmaskPayload key (take k (drop off (a @ b)))))" if "length a - off \<le> k" for k
      using ext [OF that] bad spec_text_prefix by metis
    show ?thesis
    proof (cases "length (a @ b) - off < n")
      case inc: True
      have "\<not> snd (spec_text t (mutf st) (unmaskPayload key (drop off (a @ b))))"
        using bad' [of "length (drop off (a @ b))"] by simp
      then show ?thesis using inc True Head hd bad by (simp add: spec_step_def)
    next
      case full: False
      have "spec_frame fl c st first t (unmaskPayload key (take n (drop off (a @ b)))) = Inl ErrInvalidPayload"
        using bad' [of n] True by (intro spec_frame_text [OF assms(1) hd]) simp
      then show ?thesis using full True Head hd bad by (simp add: spec_step_def)
    qed
  qed
qed

text \<open>The meaning of a stream cut in two is that of its parts, the second starting where the first left off.\<close>

lemma spec_run_append:
  assumes "mok st"
  shows "spec_run fl c st (a @ b) =
    (case spec_run fl c st a of
       (evs, Inl e) \<Rightarrow> (evs, Inl e)
     | (evs, Inr (st', r)) \<Rightarrow> (case spec_run fl c st' (r @ b) of (evs', res) \<Rightarrow> (evs @ evs', res)))"
  using assms
proof (induction fl c st a rule: spec_run.induct)
  case (1 fl c st a)
  show ?case
  proof (cases "spec_step fl c st a")
    case SWait
    then show ?thesis by (simp add: spec_run.simps [of fl c st a])
  next
    case (SErr e)
    then show ?thesis using spec_step_append [OF 1(2), of fl c a b]
      by (simp add: spec_run.simps [of fl c st a] spec_run.simps [of fl c st "a @ b"])
  next
    case (SStep ev st' n)
    have n: "n \<le> length a" using spec_step_pos [OF SStep] by simp
    obtain evs r where r: "spec_run fl c st' (drop n a) = (evs, r)" by fastforce
    have "spec_step fl c st (a @ b) = SStep ev st' n" using spec_step_append [OF 1(2), of fl c a b] SStep by simp
    then show ?thesis
      using n r SStep 1(1) [OF SStep spec_step_ok [OF 1(2) SStep]]
      by (cases r; cases ev)
        (simp_all add: spec_run.simps [of fl c st a] spec_run.simps [of fl c st "a @ b"] split: prod.splits)
  qed
qed

end
