(* ===== verification/Ws_Parser.thy ===== *)
theory Ws_Parser
  imports Ws_Spec
begin

text \<open>
  The frame parser refines the meaning of the stream: whatever the calls it is fed with, and
  whether payloads are lent or copied, it delivers the events of the bytes it was given.
\<close>

subsection \<open>One frame\<close>

text \<open>The extra state between frames: nothing of the next frame's text was checked.\<close>

definition relE :: "parserExtra option \<Rightarrow> mstate \<Rightarrow> bool" where
  "relE x st \<longleftrightarrow> (let e = (case x of None \<Rightarrow> newExtra | Some e \<Rightarrow> e) in
     mfrag st = fragment e \<and> mwin st = window e \<and> textChecked e = 0 \<and> same (utext e) (mutf st))"

lemma relE_Some: "relE (Some e) st \<longleftrightarrow>
    mfrag st = fragment e \<and> mwin st = window e \<and> textChecked e = 0 \<and> same (utext e) (mutf st)"
  by (simp add: relE_def)

lemma relE_more: "relE (extra p) st \<longleftrightarrow>
    mfrag st = fragment (moreExtra p) \<and> mwin st = window (moreExtra p) \<and> textChecked (moreExtra p) = 0 \<and>
    same (utext (moreExtra p)) (mutf st)"
  by (simp add: relE_def moreExtra_def Let_def)

lemma fragmentOf_more: "fragmentOf p = fragment (moreExtra p)"
  by (simp add: fragmentOf_def moreExtra_def newExtra_def split: option.split)

text \<open>What a completed frame leaves: the frame consumed or about to be, and the new extra state.\<close>

definition taken :: "bool \<Rightarrow> nat \<Rightarrow> Parser \<Rightarrow> Parser \<Rightarrow> bool" where
  "taken b n q p' \<longleftrightarrow> p' = (consume n q)\<lparr>pool := pool p', extra := extra p'\<rparr> \<or>
     b \<and> p' = q\<lparr>pool := pool p', extra := extra p', pendingConsume := n\<rparr>"

lemma consume_elsewhere:
  "consume n (q\<lparr>pool := l, extra := e\<rparr>) = (consume n q)\<lparr>pool := pool (consume n (q\<lparr>pool := l, extra := e\<rparr>)), extra := e\<rparr>"
  by (cases q) (simp add: consume_def releaseOwned_def Let_def)

lemma consume_with_extra: "consume n (q\<lparr>extra := e\<rparr>) = (consume n q)\<lparr>extra := e\<rparr>"
  by (cases q) (simp add: consume_def releaseOwned_def Let_def)

lemma taken_finish: "taken b n q (finishFrame n b (q\<lparr>pool := l, extra := e\<rparr>))"
  using consume_elsewhere [where n = n and q = q and l = l and e = e] by (simp add: taken_def finishFrame_def)

lemma taken_finish_extra: "taken b n q (finishFrame n b (q\<lparr>extra := e\<rparr>))"
  using taken_finish [where l = "pool q" and b = b and n = n and q = q and e = e] by simp

lemma taken_finish_self: "taken b n q (finishFrame n b q)"
  using taken_finish_extra [of b n q "extra q"] by simp

lemma taken_consume: "taken b n q (consume n (q\<lparr>extra := e\<rparr>))"
  by (simp add: taken_def consume_with_extra)

lemma taken_consume_pool: "taken b n q ((consume n (q\<lparr>extra := e\<rparr>))\<lparr>pool := l, extra := e'\<rparr>)"
  "taken b n q ((consume n (q\<lparr>extra := e\<rparr>))\<lparr>extra := e'\<rparr>)"
  by (simp_all add: taken_def consume_with_extra)

lemmas taken_intros = taken_finish taken_finish_extra taken_finish_self taken_consume taken_consume_pool

lemma extra_finish [simp]: "extra (finishFrame n b p) = extra p"
  by (simp add: finishFrame_def)

definition frame_rel :: "bool \<Rightarrow> nat \<Rightarrow> Parser \<Rightarrow> Parser \<times> next_result \<Rightarrow> ws_error + Event option \<times> mstate \<Rightarrow> bool" where
  "frame_rel b n q res spec \<longleftrightarrow>
     (case spec of
        Inl e \<Rightarrow> snd res = Fail e
      | Inr (None, st') \<Rightarrow> snd res = Skipped \<and> relE (extra (fst res)) st' \<and> fst res = consume n (q\<lparr>extra := extra (fst res)\<rparr>)
      | Inr (Some ev, st') \<Rightarrow> snd res = Emit ev \<and> relE (extra (fst res)) st' \<and> taken b n q (fst res))"

lemma finishControl_refines:
  assumes "relE (extra q) st"
  shows "frame_rel b n q (finishControl b q oc pl n) (spec_control st oc pl)"
  using assms by (auto simp: finishControl_def spec_control_def frame_rel_def taken_intros)

lemma inflate_refines:
  assumes "relE (extra q) st"
  shows "case spec_inflate fl (cfg q) (mwin st) pl of
      Inl e \<Rightarrow> snd (inflate fl q pl b) = Inl e
    | Inr (m, w) \<Rightarrow> snd (inflate fl q pl b) = Inr m \<and>
        (\<exists>e l. fst (inflate fl q pl b) = q\<lparr>pool := l, extra := Some e\<rparr> \<and> relE (Some e) (st\<lparr>mwin := w\<rparr>) \<and>
             fragment e = fragment (moreExtra q) \<and> utext e = utext (moreExtra q))"
proof -
  define win where "win = (if contextTakeover q then window (moreExtra q) else [])"
  have win: "(if cTakeover (cfg q) then mwin st else []) = win" using assms by (simp add: win_def cfg_def relE_more)
  show ?thesis
  proof (cases "decompressMessage fl [] pl win (maxMessageBytes q)")
    case (Inl e)
    then show ?thesis unfolding spec_inflate_def win by (simp add: inflate_def cfg_def Let_def flip: win_def)
  next
    case (Inr m)
    obtain l arr where g: "(if b then inflateInto fl (pool q) (inflated (moreExtra q)) m else (pool q, inflated (moreExtra q))) = (l, arr)"
      by fastforce
    define e where "e = (if contextTakeover q then (moreExtra q)\<lparr>inflated := arr, window := keepWindow (window (moreExtra q)) m\<rparr>
      else (moreExtra q)\<lparr>inflated := arr\<rparr>)"
    have "inflate fl q pl b = (q\<lparr>pool := l, extra := Some e\<rparr>, Inr m)"
      using Inr g by (simp add: inflate_def Let_def e_def flip: win_def)
    moreover have "spec_inflate fl (cfg q) (mwin st) pl = Inr (m, window e)"
      unfolding spec_inflate_def win using assms Inr by (simp add: cfg_def relE_more e_def)
    moreover have "relE (Some e) (st\<lparr>mwin := window e\<rparr>)" "fragment e = fragment (moreExtra q)" "utext e = utext (moreExtra q)"
      using assms by (simp_all add: relE_more relE_Some e_def)
    ultimately show ?thesis by auto
  qed
qed

text \<open>How much of a frame's text was checked before, and what is left to check.\<close>

definition text_left :: "bool \<Rightarrow> parserExtra \<Rightarrow> nat \<Rightarrow> mstate \<Rightarrow> bytes \<Rightarrow> bool" where
  "text_left t e checked st pl \<longleftrightarrow>
     (checked = 0 \<longrightarrow> same (utext e) (mutf st)) \<and> (\<not> t \<longrightarrow> checked = 0) \<and>
     (t \<longrightarrow> agrees (uwrite (utext e) (drop checked pl)) (stepAll (mutf st) pl))"

text \<open>The extra state while a frame is taken: its text state may be ahead of the stream's.\<close>

definition relF :: "Parser \<Rightarrow> mstate \<Rightarrow> bool" where
  "relF q st \<longleftrightarrow> mfrag st = fragment (moreExtra q) \<and> mwin st = window (moreExtra q) \<and> textChecked (moreExtra q) = 0"

lemma relF_same: "relF q st \<Longrightarrow> same (utext (moreExtra q)) (mutf st) \<Longrightarrow> relE (extra q) st"
  by (simp add: relF_def relE_more)

lemma same_need: "need v = 0 \<Longrightarrow> need w = 0 \<Longrightarrow> same v w"
  by (simp add: same_def)

lemma need_reset [simp]: "need (ureset v) = 0"
  by (simp add: ureset_def)


lemma text_left_valid:
  assumes "text_left True e checked st pl" and "need (mutf st) = 0"
  shows "snd (uwrite (utext e) (drop checked pl)) \<and> complete (fst (uwrite (utext e) (drop checked pl))) \<longleftrightarrow> utf8Valid pl"
  using assms valid_stepAll [OF assms(2), of pl]
  by (auto simp: text_left_def agrees_def same_def complete_def)

lemma finishData_inflated:
  assumes "relF q st" and "text_left t (moreExtra q) checked st pl" and "\<not> t"
  shows "frame_rel b n q (finishData fl b q oc True True t checked pl n) (spec_data fl (cfg q) st oc True True t pl)"
proof -
  have "relE (extra q) st" using assms by (intro relF_same) (auto simp: text_left_def)
  from inflate_refines [OF this, of fl pl b] show ?thesis
    by (auto simp: finishData_def spec_data_def frame_rel_def taken_intros split: sum.splits prod.splits)
qed

lemma finishData_whole:
  assumes "relF q st" and "mok st" and "mfrag st = None" and tl: "text_left t (moreExtra q) checked st pl"
  shows "frame_rel b n q (finishData fl b q oc True False t checked pl n) (spec_data fl (cfg q) st oc True False t pl)"
proof -
  have need: "need (mutf st) = 0" using assms(2,3) by (simp add: mok_def)
  show ?thesis
  proof (cases t)
    case False
    then have "relE (extra q) st" using assms(1) tl by (intro relF_same) (auto simp: text_left_def)
    with False show ?thesis by (simp add: finishData_def spec_data_def frame_rel_def taken_intros)
  next
    case t: True
    show ?thesis
    proof (cases "checked = 0")
      case True
      then have "relE (extra q) st" using assms(1) tl by (intro relF_same) (auto simp: text_left_def)
      moreover have "extra q = Some e \<Longrightarrow> relE (Some (e\<lparr>utext := ureset (utext e)\<rparr>)) st" for e
        using assms(1) need by (auto simp: relF_def relE_Some moreExtra_def intro: same_need)
      ultimately show ?thesis using t True
        by (cases "extra q") (auto simp: finishData_def spec_data_def frame_rel_def taken_intros)
    next
      case False
      have "relE (Some ((moreExtra q)\<lparr>utext := ureset v\<rparr>)) st" for v
        using assms(1) need by (auto simp: relF_def relE_Some intro: same_need)
      then show ?thesis using t False text_left_valid [OF _ need, of "moreExtra q" checked pl] tl
        by (auto simp: finishData_def spec_data_def frame_rel_def taken_intros Let_def split: prod.splits)
    qed
  qed
qed

lemma text_left_step:
  assumes "text_left t e checked st pl"
  shows "agrees (if t then uwrite (utext e) (drop checked pl) else (utext e, True)) (spec_text t (mutf st) pl)"
  using assms by (auto simp: text_left_def spec_text_def agrees_def)

lemma finishData_first:
  assumes "relF q st" and tl: "text_left t (moreExtra q) checked st pl"
  shows "frame_rel b n q (finishData fl b q oc False c t checked pl n) (spec_data fl (cfg q) st oc False c t pl)"
proof -
  obtain v ok where v: "(if t then uwrite (utext (moreExtra q)) (drop checked pl) else (utext (moreExtra q), True)) = (v, ok)"
    by fastforce
  obtain u ok' where u: "spec_text t (mutf st) pl = (u, ok')" by fastforce
  have ag: "ok = ok'" "ok' \<Longrightarrow> same v u" using text_left_step [OF tl] v u by (simp_all add: agrees_def)
  show ?thesis
    using assms(1) ag u
    unfolding finishData_def spec_data_def v Let_def
    by (auto simp: frame_rel_def taken_intros relF_def relE_Some cfg_def)
qed

lemma finishData_refines:
  assumes "relF q st" and "mok st" and "mfrag st = None" and "text_left t (moreExtra q) checked st pl"
    and "t \<longrightarrow> \<not> c"
  shows "frame_rel b n q (finishData fl b q oc fin c t checked pl n) (spec_data fl (cfg q) st oc fin c t pl)"
proof (cases fin)
  case True
  then show ?thesis using finishData_inflated [OF assms(1,4)] finishData_whole [OF assms(1-4)] assms(5) by (cases c) auto
next
  case False
  then show ?thesis using finishData_first [OF assms(1,4)] by simp
qed

lemma extra_consume_rel [simp]: "moreExtra (consume n p) = moreExtra p"
  by (simp add: moreExtra_def)

lemma consume_extra [simp]: "(consume n (q\<lparr>extra := x\<rparr>))\<lparr>extra := y\<rparr> = consume n (q\<lparr>extra := y\<rparr>)"
  by (simp add: consume_def releaseOwned_def Let_def)

lemma more_update [simp]: "moreExtra (q\<lparr>extra := Some e\<rparr>) = e"
  by (simp add: moreExtra_def)

lemma cfg_consume [simp]: "cfg (consume n p) = cfg p" "cfg (p\<lparr>extra := x\<rparr>) = cfg p"
  by (simp_all add: cfg_def)

lemma finishContinuation_refines:
  assumes "relF q st" and "mok st" and "mfrag st = Some f" and "text_left t (moreExtra q) checked st pl"
    and "fmCompressed f \<longrightarrow> \<not> t"
  shows "frame_rel b n q (finishContinuation fl b q f fin t checked pl n) (spec_continuation fl (cfg q) st f fin t pl)"
proof -
  obtain v ok where v: "(if t then uwrite (utext (moreExtra q)) (drop checked pl) else (utext (moreExtra q), True)) = (v, ok)"
    by fastforce
  obtain u ok' where u: "spec_text t (mutf st) pl = (u, ok')" by fastforce
  have ag: "ok = ok'" "ok' \<Longrightarrow> same v u" using text_left_step [OF assms(4)] v u by (simp_all add: agrees_def)
  then have bad: "t \<and> (\<not> ok \<or> fin \<and> \<not> complete v) \<longleftrightarrow> t \<and> (\<not> ok' \<or> fin \<and> \<not> complete u)"
    using same_complete by blast
  have nt: "\<not> t \<Longrightarrow> ok \<and> ok'" using v u by (auto simp: spec_text_def)
  define e where "e = (moreExtra q)\<lparr>utext := v\<rparr>"
  have e: "fragment e = Some f" "window e = mwin st" "textChecked e = 0" "utext e = v"
    using assms(1,3) by (simp_all add: e_def relF_def)
  show ?thesis
  proof (cases "t \<and> (\<not> ok \<or> fin \<and> \<not> complete v)")
    case True
    then show ?thesis using bad u unfolding finishContinuation_def spec_continuation_def v Let_def
      by (simp add: frame_rel_def)
  next
    case False
    then have ok: "ok" "ok'" "same v u" using nt ag by auto
    note bad' = False [unfolded bad]
    show ?thesis
    proof (cases "perFrame q \<and> \<not> fmCompressed f")
      case True
      then show ?thesis using assms(3) False bad' u ok e unfolding finishContinuation_def spec_continuation_def v Let_def
        by (auto simp: frame_rel_def taken_intros relE_Some cfg_def e_def intro: same_need)
    next
      case whole: False
      show ?thesis
      proof (cases "fin \<and> fmCompressed f")
        case True
        let ?d = "fmData f @ pl"
        let ?q = "consume n (q\<lparr>extra := Some (e\<lparr>fragment := Some (f\<lparr>fmData := ?d\<rparr>)\<rparr>)\<rparr>)"
        let ?st = "st\<lparr>mfrag := Some (f\<lparr>fmData := ?d\<rparr>), mutf := u\<rparr>"
        have "relE (extra ?q) ?st" using e ok(3) by (simp add: relE_Some)
        note inf = inflate_refines [OF this, of fl ?d b]
        have "finishContinuation fl b q f fin t checked pl n =
            (case inflate fl ?q ?d b of
               (p, Inl err) \<Rightarrow> (p, Fail err)
             | (p, Inr message) \<Rightarrow>
                 if fmOpcode f = Text \<and> \<not> utf8Valid message then (p, Fail ErrInvalidPayload)
                 else (p\<lparr>extra := Some ((moreExtra p)\<lparr>utext := ureset (utext (moreExtra p)), fragment := None\<rparr>)\<rparr>,
                       Emit \<lparr>Opcode = fmOpcode f, Payload = message, Fin = True\<rparr>))"
          using True False whole unfolding finishContinuation_def v Let_def e_def
          by (auto split: prod.splits sum.splits)
        note fc = this
        have sc: "spec_continuation fl (cfg q) st f fin t pl =
            (case spec_inflate fl (cfg ?q) (mwin ?st) ?d of
               Inl e \<Rightarrow> Inl e
             | Inr (m, w) \<Rightarrow>
                 if fmOpcode f = Text \<and> \<not> utf8Valid m then Inl ErrInvalidPayload
                 else Inr (Some \<lparr>Opcode = fmOpcode f, Payload = m, Fin = True\<rparr>,
                           \<lparr>mfrag = None, mutf = freshValidator, mwin = w\<rparr>))"
          using True bad' whole u unfolding spec_continuation_def by (auto simp: cfg_def)
        show ?thesis
        proof (cases "spec_inflate fl (cfg ?q) (mwin ?st) ?d")
          case (Inl err)
          then show ?thesis using inf unfolding fc sc by (cases "inflate fl ?q ?d b") (simp add: frame_rel_def)
        next
          case (Inr mw)
          then obtain m w where mw: "spec_inflate fl (cfg ?q) (mwin ?st) ?d = Inr (m, w)" by (cases mw) auto
          with inf obtain e' l where "inflate fl ?q ?d b = (?q\<lparr>pool := l, extra := Some e'\<rparr>, Inr m)" "relE (Some e') (?st\<lparr>mwin := w\<rparr>)"
            by (cases "inflate fl ?q ?d b") auto
          then show ?thesis unfolding fc sc mw
            by (auto simp: frame_rel_def taken_intros relE_Some intro: same_need)
        qed
      next
        case plain: False
        then show ?thesis using assms(3) False bad' whole u ok e unfolding finishContinuation_def spec_continuation_def v Let_def
          by (auto simp: frame_rel_def taken_intros relE_Some cfg_def e_def intro: same_need)
      qed
    qed
  qed
qed


subsection \<open>Text that arrives in pieces\<close>

lemma vok_same: "same v w \<Longrightarrow> vok v = vok w"
  by (auto simp: same_def vok_def)

lemma agrees_trans: "agrees a b \<Longrightarrow> agrees b c \<Longrightarrow> agrees a c"
  by (auto simp: agrees_def intro: same_trans)

lemma agrees_same: "same v w \<Longrightarrow> agrees (stepAll v p) (stepAll w p)"
  using stepAll_same [of v w p] by (simp add: agrees_def)

lemma uwrite_same: "same v w \<Longrightarrow> vok w \<Longrightarrow> agrees (uwrite v p) (stepAll w p)"
  using uwrite_steps [of v p] agrees_same [of v w p] vok_same [of v w] agrees_trans by blast

lemma drop_maskTail: "drop n (maskTail i key b) = maskTail (i + n) key (drop n b)"
proof (cases "n \<le> length b")
  case True
  then show ?thesis using maskTail_append [of i key "take n b" "drop n b"] by simp
qed simp

lemma drop_chunk: "drop i b = take m (drop i b) @ drop (i + length (take m (drop i b))) b"
proof -
  have "xs = take m xs @ drop (length (take m xs)) xs" for xs :: "'a list" by (cases "m \<le> length xs") simp_all
  then show ?thesis by (metis drop_drop add.commute)
qed

lemma partialLoop_steps:
  assumes "vok v"
  shows "agrees (partialLoop v key b i) (stepAll v (maskTail i key (drop i b)))"
  using assms
proof (induction v key b i rule: partialLoop.induct)
  case (1 v key b i)
  show ?case
  proof (cases "i < length b")
    case True
    define chunk where "chunk = take 512 (drop i b)"
    obtain u ok where u: "uwrite v (maskTail i key chunk) = (u, ok)" by fastforce
    obtain w ok' where w: "stepAll v (maskTail i key chunk) = (w, ok')" by fastforce
    have ag: "ok = ok'" "ok' \<Longrightarrow> same u w" using uwrite_steps [OF 1(2), of "maskTail i key chunk"] u w by (simp_all add: agrees_def)
    have "drop i b = chunk @ drop (i + length chunk) b"
      unfolding chunk_def by (rule drop_chunk)
    then have split: "maskTail i key (drop i b) = maskTail i key chunk @ maskTail (i + length chunk) key (drop (i + length chunk) b)"
      by (metis maskTail_append)
    show ?thesis
    proof (cases ok)
      case t: True
      then have "vok u" using uwrite_ok [OF 1(2)] u by simp
      from 1(1) [OF True chunk_def u [symmetric] t this]
      have "agrees (partialLoop u key b (i + length chunk)) (stepAll u (maskTail (i + length chunk) key (drop (i + length chunk) b)))" .
      moreover have "agrees (stepAll u q) (stepAll w q)" for q using ag t by (intro agrees_same) simp
      ultimately have "agrees (partialLoop u key b (i + length chunk)) (stepAll w (maskTail (i + length chunk) key (drop (i + length chunk) b)))"
        using agrees_trans by blast
      then show ?thesis using True t u w ag split
        by (simp add: partialLoop.simps [of v key b i] stepAll_append chunk_def [symmetric])
    next
      case False
      then show ?thesis using True u w ag split
        by (simp add: partialLoop.simps [of v key b i] stepAll_append chunk_def [symmetric] agrees_def)
    qed
  qed (simp add: partialLoop.simps [of v key b i] agrees_def)
qed


text \<open>
  The parser's text state: that of the stream, or ahead of it by the \<open>k\<close> bytes of the frame at the
  front that were checked as they arrived.
\<close>

definition text_rel :: "Parser \<Rightarrow> mstate \<Rightarrow> bool" where
  "text_rel p st \<longleftrightarrow>
     (let e = moreExtra p; k = textChecked e in
      if k = 0 then same (utext e) (mutf st)
      else pendingConsume p = 0 \<and>
        (\<exists>first n off key v. frameHead (cfg p) (mfrag st) (pbytes p) = Head first n off key True \<and>
           k < n \<and> k \<le> length (pbytes p) - off \<and>
           stepAll (mutf st) (take k (unmaskPayload key (drop off (pbytes p)))) = (v, True) \<and> same (utext e) v))"

definition prel :: "Parser \<Rightarrow> mstate \<Rightarrow> bool" where
  "prel p st \<longleftrightarrow> mok st \<and> mfrag st = fragment (moreExtra p) \<and> mwin st = window (moreExtra p) \<and> text_rel p st"

lemma prel_relE: "relE (extra p) st \<Longrightarrow> mok st \<Longrightarrow> prel p st"
  by (simp add: prel_def relE_more text_rel_def Let_def)

lemma text_ahead:
  assumes "prel p st" and "textChecked (moreExtra p) = k" and "k \<noteq> 0"
    and "frameHead (cfg p) (mfrag st) (pbytes p) = Head first n off key t"
  obtains v where "t" "k < n" "k \<le> length (pbytes p) - off"
    "stepAll (mutf st) (take k (unmaskPayload key (drop off (pbytes p)))) = (v, True)" "same (utext (moreExtra p)) v"
  using assms by (auto simp: prel_def text_rel_def Let_def)

lemma text_left_head:
  assumes "prel p st" and hd: "frameHead (cfg p) (mfrag st) (pbytes p) = Head first n off key t"
    and full: "n \<le> length (pbytes p) - off"
  shows "text_left t (moreExtra p) (textChecked (moreExtra p)) st (unmaskPayload key (take n (drop off (pbytes p))))"
proof -
  let ?e = "moreExtra p" and ?k = "textChecked (moreExtra p)"
  let ?pl = "unmaskPayload key (take n (drop off (pbytes p)))"
  have mv: "vok (mutf st)" using assms(1) by (simp add: prel_def mok_def)
  show ?thesis
  proof (cases "?k = 0")
    case True
    then have "same (utext ?e) (mutf st)" using assms(1) by (simp add: prel_def text_rel_def)
    then show ?thesis using True mv uwrite_same by (auto simp: text_left_def)
  next
    case False
    from text_ahead [OF assms(1) refl False hd] obtain v where v: "t" "?k < n"
      "stepAll (mutf st) (take ?k (unmaskPayload key (drop off (pbytes p)))) = (v, True)" "same (utext ?e) v" by blast
    have "take ?k ?pl = take ?k (unmaskPayload key (drop off (pbytes p)))"
      using unmask_take [of key n "drop off (pbytes p)"] frameHead_facts(5) [OF hd] v(2) by simp
    then have s: "stepAll (mutf st) (take ?k ?pl) = (v, True)" using v(3) by simp
    then have "stepAll (mutf st) ?pl = stepAll v (drop ?k ?pl)"
      using stepAll_append [of "mutf st" "take ?k ?pl" "drop ?k ?pl"] by simp
    moreover have "vok v" using stepAll_ok [OF mv s] .
    ultimately show ?thesis using v False uwrite_same [OF v(4)] by (auto simp: text_left_def)
  qed
qed

lemma checkPartialText_refines:
  assumes "prel p st" and pc: "pendingConsume p = 0"
    and hd: "frameHead (cfg p) (mfrag st) (pbytes p) = Head first n off key True"
    and part: "length (pbytes p) - off < n"
  shows "if snd (stepAll (mutf st) (unmaskPayload key (drop off (pbytes p))))
    then \<exists>x. checkPartialText p (drop off (pbytes p)) key = (p\<lparr>extra := x\<rparr>, True) \<and> prel (p\<lparr>extra := x\<rparr>) st
    else \<not> snd (checkPartialText p (drop off (pbytes p)) key)"
proof -
  let ?e = "moreExtra p" and ?k = "textChecked (moreExtra p)"
  let ?av = "drop off (pbytes p)" let ?pl = "unmaskPayload key (drop off (pbytes p))"
  have mv: "vok (mutf st)" using assms(1) by (simp add: prel_def mok_def)
  have ck: "(case extra p of None \<Rightarrow> 0 | Some e \<Rightarrow> textChecked e) = ?k"
    by (simp add: moreExtra_def newExtra_def split: option.split)
  obtain v where v: "stepAll (mutf st) (take ?k ?pl) = (v, True)" "same (utext ?e) v" "?k \<le> length ?av"
  proof (cases "?k = 0")
    case True
    then show ?thesis using assms(1) by (intro that [of "mutf st"]) (simp_all add: prel_def text_rel_def)
  next
    case False
    from text_ahead [OF assms(1) refl False hd] show ?thesis using that by auto
  qed
  have all: "stepAll (mutf st) ?pl = stepAll v (drop ?k ?pl)"
    using stepAll_append [of "mutf st" "take ?k ?pl" "drop ?k ?pl"] v(1) by simp
  have vv: "vok v" using stepAll_ok [OF mv v(1)] .
  have lk: "length ?pl = length ?av" by (simp add: length_unmask [OF frameHead_facts(5) [OF hd]])
  show ?thesis
  proof (cases "length ?av \<le> ?k")
    case True
    then have "drop ?k ?pl = []" using lk by simp
    then show ?thesis using True all assms(1) ck
      by (auto simp: checkPartialText_def intro!: exI [of _ "extra p"])
  next
    case False
    define r where "r = (case key of None \<Rightarrow> uwrite (utext ?e) (drop ?k ?av)
      | Some key \<Rightarrow> partialLoop (utext ?e) key ?av ?k)"
    have "agrees r (stepAll (utext ?e) (drop ?k ?pl))"
    proof (cases key)
      case None
      then show ?thesis using uwrite_steps vok_same [OF v(2)] vv by (simp add: r_def unmaskPayload_def)
    next
      case (Some kk)
      then have "length kk = 4" using frameHead_facts(5) [OF hd] by blast
      then show ?thesis using Some partialLoop_steps [of "utext ?e" kk ?av ?k] vok_same [OF v(2)] vv
        by (simp add: r_def unmaskPayload_def applyMask_tail drop_maskTail)
    qed
    then have ag: "agrees r (stepAll (mutf st) ?pl)" using agrees_same [OF v(2)] all agrees_trans by metis
    obtain w ok where w: "r = (w, ok)" by fastforce
    have cp: "checkPartialText p ?av key =
        (if ok then (p\<lparr>extra := Some (?e\<lparr>utext := w, textChecked := length ?av\<rparr>)\<rparr>, True)
         else (p\<lparr>extra := Some (?e\<lparr>utext := w\<rparr>)\<rparr>, False))"
      using False w unfolding checkPartialText_def Let_def ck r_def [symmetric] by simp
    show ?thesis
    proof (cases ok)
      case True
      then obtain u where u: "stepAll (mutf st) ?pl = (u, True)" "same w u"
        using ag w by (cases "stepAll (mutf st) ?pl") (auto simp: agrees_def)
      let ?x = "Some (?e\<lparr>utext := w, textChecked := length ?av\<rparr>)"
      have "text_rel (p\<lparr>extra := ?x\<rparr>) st"
        using False pc hd part u lk unfolding text_rel_def Let_def by (auto simp: not_le)
      then have "prel (p\<lparr>extra := ?x\<rparr>) st" using assms(1) by (simp add: prel_def)
      then show ?thesis using True cp u by auto
    next
      case False
      then show ?thesis using cp ag w by (simp add: agrees_def)
    qed
  qed
qed


text \<open>The parser after a frame of \<open>n\<close> bytes: they are gone, or will go with the next call.\<close>

definition after :: "bool \<Rightarrow> nat \<Rightarrow> Parser \<Rightarrow> Parser \<Rightarrow> bool" where
  "after b n p q \<longleftrightarrow> borrowedTail q = borrowedTail p \<and> cfg q = cfg p \<and>
     (pendingConsume q = 0 \<and> pbytes q = drop n (pbytes p) \<or>
      b \<and> pendingConsume q = n \<and> drop n (pbytes q) = drop n (pbytes p) \<and> length (pbytes q) = length (pbytes p))"

lemma cfg_frame [simp]: "cfg (lendPayload b p off pl) = cfg p" "cfg (snd (takeChecked p)) = cfg p"
  "cfg (p\<lparr>pendingConsume := m\<rparr>) = cfg p"
  by (simp_all add: cfg_def)

lemma more_takeChecked: "moreExtra (snd (takeChecked p)) = (moreExtra p)\<lparr>textChecked := 0\<rparr>"
  "fst (takeChecked p) = textChecked (moreExtra p)"
  by (auto simp: takeChecked_def moreExtra_def newExtra_def split: option.splits)

lemma more_lend [simp]: "moreExtra (lendPayload b p off pl) = moreExtra p"
  by (simp add: moreExtra_def)

lemma taken_after:
  assumes "taken b n (lendPayload b' (snd (takeChecked p)) off pl) q"
    and "n = off + length pl" and "n \<le> length (pbytes p)" and "pendingConsume p = 0"
  shows "after b n p q"
proof -
  let ?q = "lendPayload b' (snd (takeChecked p)) off pl"
  note lb = lendPayload_bytes [of off pl "snd (takeChecked p)" b', folded assms(2), unfolded takeChecked_simps, OF assms(3)]
  from assms(1) consider "q = (consume n ?q)\<lparr>pool := pool q, extra := extra q\<rparr>"
    | "b" "q = ?q\<lparr>pool := pool q, extra := extra q, pendingConsume := n\<rparr>"
    unfolding taken_def by blast
  then show ?thesis
  proof cases
    case 1
    have "pbytes ((consume n ?q)\<lparr>pool := pool q, extra := extra q\<rparr>) = drop n (pbytes ?q)"
      by (simp add: consume_bytes)
    moreover have "borrowedTail ((consume n ?q)\<lparr>pool := pool q, extra := extra q\<rparr>) = borrowedTail p"
      "pendingConsume ((consume n ?q)\<lparr>pool := pool q, extra := extra q\<rparr>) = 0"
      "cfg ((consume n ?q)\<lparr>pool := pool q, extra := extra q\<rparr>) = cfg p"
      using assms(4) by (simp_all add: cfg_def)
    ultimately show ?thesis unfolding after_def 1 [symmetric] using lb by simp
  next
    case 2
    have "buffer (?q\<lparr>pool := pool q, extra := extra q, pendingConsume := n\<rparr>) = buffer ?q" "borrowedTail (?q\<lparr>pool := pool q, extra := extra q, pendingConsume := n\<rparr>) = borrowedTail p"
      "pendingConsume (?q\<lparr>pool := pool q, extra := extra q, pendingConsume := n\<rparr>) = n" "cfg (?q\<lparr>pool := pool q, extra := extra q, pendingConsume := n\<rparr>) = cfg p"
      by (simp_all add: cfg_def)
    then show ?thesis unfolding after_def 2(2) [symmetric] using lb 2(1) by simp
  qed
qed

lemma takeFrame_refines:
  assumes "prel p st" and hd: "frameHead (cfg p) (mfrag st) (pbytes p) = Head first n off key t"
    and full: "n \<le> length (pbytes p) - off"
  shows "frame_rel b (off + n) (lendPayload b (snd (takeChecked p)) off (unmaskPayload key (take n (drop off (pbytes p)))))
    (takeFrame fl b p first n off key t)
    (spec_frame fl (cfg p) st first t (unmaskPayload key (take n (drop off (pbytes p)))))"
proof -
  let ?pl = "unmaskPayload key (take n (drop off (pbytes p)))"
  let ?q = "lendPayload b (snd (takeChecked p)) off ?pl"
  let ?oc = "first AND 0x0f"
  have "mok st" using assms(1) by (simp add: prel_def)
  note tl = text_left_head [OF assms]
  note hdr = frameHead_header [OF hd] note op = header_opcode [OF hdr(1)]
  have rF: "relF ?q st" using assms(1) by (simp add: relF_def prel_def more_takeChecked)
  have tl': "text_left t (moreExtra ?q) (textChecked (moreExtra p)) st ?pl"
    using tl by (simp add: text_left_def more_takeChecked)
  have frag: "fragmentOf p = mfrag st" using assms(1) by (simp add: prel_def fragmentOf_more)
  note unf = takeFrame_def spec_frame_def Let_def case_prod_unfold takeChecked_simps more_takeChecked frag
  show ?thesis
  proof (cases "0x8 \<le> ?oc")
    case True
    then have "\<not> t" using hdr(2) op by (auto simp: textFrame_def)
    then have "relE (extra ?q) st" using tl' rF by (intro relF_same) (simp_all add: text_left_def)
    from finishControl_refines [OF this] show ?thesis using True unfolding unf by simp
  next
    case False
    show ?thesis
    proof (cases "mfrag st")
      case None
      have "t \<longrightarrow> \<not> (first AND 0x40 \<noteq> 0)" using hdr(2) None by (auto simp: textFrame_def)
      from finishData_refines [OF rF \<open>mok st\<close> None tl' this] show ?thesis
        using False None op unfolding unf by simp
    next
      case (Some f)
      have "fmCompressed f \<longrightarrow> \<not> t" using hdr(2) Some op by (auto simp: textFrame_def)
      from finishContinuation_refines [OF rF \<open>mok st\<close> Some tl' this] show ?thesis
        using False Some op unfolding unf by simp
    qed
  qed
qed


lemma next_refines:
  assumes "prel p st" and pc: "pendingConsume p = 0"
  shows "case spec_step fl (cfg p) st (pbytes p) of
      SWait \<Rightarrow> \<exists>x. next_frame fl b p = (p\<lparr>extra := x\<rparr>, Incomplete) \<and> prel (p\<lparr>extra := x\<rparr>) st
    | SErr e \<Rightarrow> snd (next_frame fl b p) = Fail e
    | SStep None st' n \<Rightarrow> \<exists>q. next_frame fl b p = (q, Skipped) \<and> prel q st' \<and> after False n p q
    | SStep (Some ev) st' n \<Rightarrow> \<exists>q. next_frame fl b p = (q, Emit ev) \<and> prel q st' \<and> after b n p q"
proof -
  have ok: "mok st" using assms(1) by (simp add: prel_def)
  have frag: "fragmentOf p = mfrag st" using assms(1) by (simp add: prel_def fragmentOf_more)
  have self: "\<exists>x. (p, Incomplete) = (p\<lparr>extra := x\<rparr>, Incomplete) \<and> prel (p\<lparr>extra := x\<rparr>) st"
    using assms(1) by (intro exI [of _ "extra p"]) simp
  show ?thesis
  proof (cases "frameHead (cfg p) (mfrag st) (pbytes p)")
    case HeadMore
    then show ?thesis using frag self by (simp add: spec_step_def next_frame_def)
  next
    case (HeadBad e)
    then show ?thesis using frag by (simp add: spec_step_def next_frame_def)
  next
    case (Head first n off key t)
    show ?thesis
    proof (cases "length (pbytes p) - off < n")
      case True
      show ?thesis
      proof (cases t)
        case t: True
        with Head have hd: "frameHead (cfg p) (mfrag st) (pbytes p) = Head first n off key True" by simp
        from checkPartialText_refines [OF assms hd True] show ?thesis
          using hd True frag by (auto simp: spec_step_def next_frame_def spec_text_def split: if_splits prod.splits)
      next
        case False
        then show ?thesis using Head True frag self by (simp add: spec_step_def next_frame_def spec_text_def)
      qed
    next
      case full: False
      let ?pl = "unmaskPayload key (take n (drop off (pbytes p)))"
      let ?q = "lendPayload b (snd (takeChecked p)) off ?pl"
      note facts = frameHead_facts [OF Head]
      have len: "off + n = off + length ?pl" "off + n \<le> length (pbytes p)"
        using full facts(2) length_unmask [OF facts(5)] by auto
      have fr: "frame_rel b (off + n) ?q (takeFrame fl b p first n off key t) (spec_frame fl (cfg p) st first t ?pl)"
        using full by (intro takeFrame_refines [OF assms(1) Head]) simp
      have nf: "next_frame fl b p = takeFrame fl b p first n off key t"
        using Head full frag by (simp add: next_frame_def)
      have ss: "spec_step fl (cfg p) st (pbytes p) = (case spec_frame fl (cfg p) st first t ?pl of
          Inl e \<Rightarrow> SErr e | Inr (ev, st') \<Rightarrow> SStep ev st' (off + n))"
        using Head full by (simp add: spec_step_def)
      show ?thesis
      proof (cases "spec_frame fl (cfg p) st first t ?pl")
        case (Inl e)
        then show ?thesis using fr unfolding nf ss by (simp add: frame_rel_def)
      next
        case (Inr r)
        then obtain ev st' where r: "spec_frame fl (cfg p) st first t ?pl = Inr (ev, st')" by (cases r) auto
        obtain q res where tf: "takeFrame fl b p first n off key t = (q, res)" by fastforce
        have st': "mok st'" using spec_frame_ok [OF ok r] .
        show ?thesis
        proof (cases ev)
          case None
          then have q: "res = Skipped" "relE (extra q) st'" "q = consume (off + n) (?q\<lparr>extra := extra q\<rparr>)"
            using fr r tf by (simp_all add: frame_rel_def)
          have "taken False (off + n) ?q (consume (off + n) (?q\<lparr>extra := extra q\<rparr>))" by (rule taken_consume)
          then have "taken False (off + n) ?q q" unfolding q(3) [symmetric] .
          then have "after False (off + n) p q" by (rule taken_after [OF _ len pc])
          then show ?thesis using q prel_relE [OF q(2) st'] unfolding nf ss tf r None by simp
        next
          case (Some e)
          then have q: "res = Emit e" "relE (extra q) st'" "taken b (off + n) ?q q"
            using fr r tf by (simp_all add: frame_rel_def)
          from taken_after [OF q(3) len pc] show ?thesis
            using q prel_relE [OF q(2) st'] unfolding nf ss tf r Some by simp
        qed
      qed
    qed
  qed
qed


subsection \<open>The size of a frame\<close>

lemma readLength_size:
  assumes "2 \<le> length buf"
  shows "readLength buf (buf ! 1) = LenMore \<Longrightarrow> length buf < frameHeaderSize buf"
    and "readLength buf (buf ! 1) = LenOk n off \<Longrightarrow> frameHeaderSize buf = (if (buf ! 1) AND 0x80 \<noteq> 0 then off + 4 else off) \<and>
      (let k = unat ((buf ! 1) AND 0x7f) in
       (if k = 126 then unat (be_read (take 2 (drop 2 buf)) :: uint16)
        else if k = 127 then unat (be_read (take 8 (drop 2 buf)) :: uint64) else k) = n)"
proof -
  have k: "(w = 126) = (unat w = 126)" "(w = 127) = (unat w = 127)" for w :: byte by (simp_all add: word_unat_eq_iff)
  show "readLength buf (buf ! 1) = LenMore \<Longrightarrow> length buf < frameHeaderSize buf"
    using assms by (auto simp: readLength_def frameHeaderSize_def k Let_def split: if_splits)
  show "readLength buf (buf ! 1) = LenOk n off \<Longrightarrow> frameHeaderSize buf = (if (buf ! 1) AND 0x80 \<noteq> 0 then off + 4 else off) \<and>
      (let k = unat ((buf ! 1) AND 0x7f) in
       (if k = 126 then unat (be_read (take 2 (drop 2 buf)) :: uint16)
        else if k = 127 then unat (be_read (take 8 (drop 2 buf)) :: uint64) else k) = n)"
    using assms by (auto simp: readLength_def frameHeaderSize_def k Let_def split: if_splits)
qed

lemma frameHead_size:
  shows "frameHead c frag buf = HeadMore \<Longrightarrow> frameSize buf = None"
    and "frameHead c frag buf = Head first n off key t \<Longrightarrow> frameSize buf = Some m \<Longrightarrow> m = off + n"
proof -
  assume "frameHead c frag buf = HeadMore"
  then have "length buf < frameHeaderSize buf"
  proof (cases "length buf < 2")
    case True
    then show ?thesis by (simp add: frameHeaderSize_def)
  next
    case False
    then show ?thesis using \<open>frameHead c frag buf = HeadMore\<close> readLength_size [of buf]
      by (cases "readLength buf (buf ! 1)") (auto simp: frameHead_def Let_def split: if_splits)
  qed
  then show "frameSize buf = None" by (simp add: frameSize_def)
next
  assume hd: "frameHead c frag buf = Head first n off key t" and m: "frameSize buf = Some m"
  have len: "2 \<le> length buf" using hd by (auto simp: frameHead_def split: if_splits)
  from hd len obtain off' where "readLength buf (buf ! 1) = LenOk n off'"
    "off = (if (buf ! 1) AND 0x80 \<noteq> 0 then off' + 4 else off')"
    by (cases "readLength buf (buf ! 1)") (auto simp: frameHead_def Let_def split: if_splits)
  with readLength_size(2) [OF len] have "frameHeaderSize buf = off"
    "(let k = unat ((buf ! 1) AND 0x7f) in
       (if k = 126 then unat (be_read (take 2 (drop 2 buf)) :: uint16)
        else if k = 127 then unat (be_read (take 8 (drop 2 buf)) :: uint64) else k) = n)" by auto
  then show "m = off + n" using m unfolding frameSize_def Let_def by (simp split: if_splits)
qed

lemma frameHeaderSize_append: "2 \<le> length buf \<Longrightarrow> frameHeaderSize (buf @ x) = frameHeaderSize buf"
  by (simp add: frameHeaderSize_def nth_append)

lemma frameSize_append: "frameSize buf = Some m \<Longrightarrow> frameSize (buf @ x) = Some m"
proof -
  assume a: "frameSize buf = Some m"
  have len: "2 \<le> length buf" using a by (auto simp: frameSize_def frameHeaderSize_def Let_def split: if_splits)
  have hs: "frameHeaderSize buf \<le> length buf" using a by (auto simp: frameSize_def Let_def split: if_splits)
  have "unat ((buf ! 1) AND 0x7f) = 126 \<Longrightarrow> 4 \<le> length buf" "unat ((buf ! 1) AND 0x7f) = 127 \<Longrightarrow> 10 \<le> length buf"
    using hs len by (auto simp: frameHeaderSize_def word_unat_eq_iff Let_def split: if_splits)
  then have "unat ((buf ! 1) AND 0x7f) = 126 \<Longrightarrow> take 2 (drop 2 (buf @ x)) = take 2 (drop 2 buf)"
    "unat ((buf ! 1) AND 0x7f) = 127 \<Longrightarrow> take 8 (drop 2 (buf @ x)) = take 8 (drop 2 buf)" by auto
  moreover have "(buf @ x) ! 1 = buf ! 1" using len by (simp add: nth_append)
  ultimately show ?thesis using a hs frameHeaderSize_append [OF len, of x]
    unfolding frameSize_def Let_def by (auto simp del: take_append drop_append split: if_splits)
qed

lemma whole_frame:
  assumes "frameSize buf = Some (length buf)"
  shows "spec_step fl c st buf \<noteq> SWait" and "spec_step fl c st buf = SStep ev st' n \<Longrightarrow> n = length buf"
proof -
  show "spec_step fl c st buf \<noteq> SWait"
  proof (cases "frameHead c (mfrag st) buf")
    case (Head first n off key t)
    then have "length buf = off + n" using frameHead_size(2) assms by blast
    then have "\<not> length buf - off < n" by simp
    with Head show ?thesis by (simp add: spec_step_def split: sum.splits prod.splits)
  qed (use frameHead_size(1) assms in \<open>auto simp: spec_step_def\<close>)
  show "spec_step fl c st buf = SStep ev st' n \<Longrightarrow> n = length buf"
    using frameHead_size(2) [of c "mfrag st" buf] assms
    by (fastforce simp: spec_step_def split: frame_head.splits if_splits sum.splits)
qed


subsection \<open>Feeding\<close>

lemma prel_cong:
  "extra q = extra p \<Longrightarrow> cfg q = cfg p \<Longrightarrow> pbytes q = pbytes p \<Longrightarrow> pendingConsume q = pendingConsume p \<Longrightarrow> prel q st = prel p st"
  by (simp add: prel_def text_rel_def moreExtra_def)

lemma adopt_simps [simp]:
  "extra (adoptOwned p) = extra p" "cfg (adoptOwned p) = cfg p" "pbytes (adoptOwned p) = pbytes p"
  "pendingConsume (adoptOwned p) = pendingConsume p" "borrowedTail (adoptOwned p) = borrowedTail p"
  "borrowedBuffer (adoptOwned p) = False" "owned (adoptOwned p) = buffer (adoptOwned p)"
  by (auto simp: adoptOwned_def cfg_def Let_def split: prod.splits)

lemma keepOwned_simps [simp]:
  "extra (keepOwned p) = extra p" "cfg (keepOwned p) = cfg p" "buffer (keepOwned p) = buffer p"
  "pendingConsume (keepOwned p) = pendingConsume p" "borrowedTail (keepOwned p) = borrowedTail p"
  "borrowedBuffer (keepOwned p) = borrowedBuffer p" "pool (keepOwned p) = pool p"
  by (simp_all add: keepOwned_def cfg_def)

lemma takeTail_simps [simp]:
  "extra (takeTail p) = extra p" "cfg (takeTail p) = cfg p" "pbytes (takeTail p) = borrowedTail p"
  "pendingConsume (takeTail p) = pendingConsume p" "borrowedTail (takeTail p) = []"
  "borrowedBuffer (takeTail p) = True" "pool (takeTail p) = pool p" "owned (takeTail p) = owned p"
  by (simp_all add: takeTail_def cfg_def lent_def)

lemma prel_empty:
  assumes "prel p st" and "pbytes p = []" and "extra q = extra p"
  shows "prel q st"
proof -
  have "textChecked (moreExtra p) = 0"
    using assms(1,2) by (auto simp: prel_def text_rel_def Let_def frameHead_def split: if_splits)
  then show ?thesis using assms by (simp add: prel_def text_rel_def moreExtra_def)
qed

lemma prel_append:
  assumes "prel p st" and "extra q = extra p" and "cfg q = cfg p" and "pbytes q = pbytes p @ x"
    and "pendingConsume q = pendingConsume p"
  shows "prel q st"
proof (cases "textChecked (moreExtra p) = 0")
  case True
  then show ?thesis using assms by (simp add: prel_def text_rel_def moreExtra_def)
next
  case False
  let ?k = "textChecked (moreExtra p)"
  have tr: "text_rel p st" using assms(1) by (simp add: prel_def)
  then obtain first n off key v where h: "frameHead (cfg p) (mfrag st) (pbytes p) = Head first n off key True"
    "?k < n" "?k \<le> length (pbytes p) - off"
    "stepAll (mutf st) (take ?k (unmaskPayload key (drop off (pbytes p)))) = (v, True)" "same (utext (moreExtra p)) v"
    and pc: "pendingConsume p = 0"
    using False by (auto simp: text_rel_def Let_def)
  note facts = frameHead_facts [OF h(1)]
  have "take ?k (unmaskPayload key (drop off (pbytes p @ x))) = unmaskPayload key (take ?k (drop off (pbytes p @ x)))"
    by (rule unmask_take [symmetric]) (rule facts(5))
  also have "take ?k (drop off (pbytes p @ x)) = take ?k (drop off (pbytes p))" using h(3) facts(2) by simp
  also have "unmaskPayload key \<dots> = take ?k (unmaskPayload key (drop off (pbytes p)))"
    by (rule unmask_take) (rule facts(5))
  finally have t: "take ?k (unmaskPayload key (drop off (pbytes p @ x))) = take ?k (unmaskPayload key (drop off (pbytes p)))" .
  have "frameHead (cfg p) (mfrag st) (pbytes p @ x) = Head first n off key True"
    using frameHead_append [of "cfg p" "mfrag st" "pbytes p" x] h(1) by simp
  moreover have "?k \<le> length (pbytes p @ x) - off" using h(3) by simp
  moreover have "moreExtra q = moreExtra p" using assms(2) by (simp add: moreExtra_def)
  ultimately have "text_rel q st"
    using h(2,4,5) pc False assms(3-5) t unfolding text_rel_def Let_def by (simp del: drop_append)
  then show ?thesis using assms(1,2) by (simp add: prel_def moreExtra_def)
qed


text \<open>What is left of the stream, and when more of the read waits behind the buffer.\<close>

definition rest :: "Parser \<Rightarrow> bytes" where
  "rest p = drop (pendingConsume p) (pbytes p) @ borrowedTail p"

definition pinv :: "Parser \<Rightarrow> bool" where
  "pinv p \<longleftrightarrow> pendingConsume p \<le> length (pbytes p) \<and> (borrowedTail p \<noteq> [] \<longrightarrow> pendingConsume p = length (pbytes p))"

definition tail_ok :: "Parser \<Rightarrow> bool" where
  "tail_ok p \<longleftrightarrow> (borrowedTail p \<noteq> [] \<longrightarrow> pbytes p = [] \<or> frameSize (pbytes p) = Some (length (pbytes p)))"

definition feed_rel :: "flate \<Rightarrow> wscfg \<Rightarrow> mstate \<Rightarrow> bytes \<Rightarrow> Parser \<times> feed_result \<Rightarrow> bool" where
  "feed_rel fl c st bs res \<longleftrightarrow>
     (case snd res of
        Failed e \<Rightarrow> spec_run fl c st bs = ([], Inl e)
      | NoEvent \<Rightarrow> \<exists>st'. spec_run fl c st bs = ([], Inr (st', pbytes (fst res))) \<and> prel (fst res) st' \<and> cfg (fst res) = c \<and>
          pendingConsume (fst res) = 0 \<and> borrowedTail (fst res) = [] \<and> (borrowedBuffer (fst res) \<longrightarrow> pbytes (fst res) = [])
      | Got ev \<Rightarrow> \<exists>st'. spec_run fl c st bs = (case spec_run fl c st' (rest (fst res)) of (evs, r) \<Rightarrow> (ev # evs, r)) \<and>
          prel (fst res) st' \<and> cfg (fst res) = c \<and> pinv (fst res) \<and> length (rest (fst res)) < length bs)"

lemma feedLoop_refines:
  assumes "prel p st" and "pendingConsume p = 0" and "tail_ok p"
  shows "feed_rel fl (cfg p) st (pbytes p @ borrowedTail p) (feedLoop fl b p)"
  using assms
proof (induction fl b p arbitrary: st rule: feedLoop.induct)
  case (1 fl b p)
  let ?bs = "pbytes p @ borrowedTail p" and ?step = "spec_step fl (cfg p) st (pbytes p)"
  have ok: "mok st" using "1.prems"(1) by (simp add: prel_def)
  note nr = next_refines [OF "1.prems"(1,2), of fl b]
  show ?case
  proof (cases ?step)
    case SWait
    with nr obtain x where x: "next_frame fl b p = (p\<lparr>extra := x\<rparr>, Incomplete)" "prel (p\<lparr>extra := x\<rparr>) st" by auto
    have te: "borrowedTail p = [] \<or> pbytes p = []"
      using whole_frame(1) [of "pbytes p" fl "cfg p" st] SWait "1.prems"(3) by (auto simp: tail_ok_def)
    show ?thesis
    proof (cases "pbytes p = [] \<and> borrowedTail p \<noteq> []")
      case True
      let ?q = "takeTail (p\<lparr>extra := x\<rparr>)"
      have "prel ?q st" using prel_empty [OF x(2)] True by simp
      moreover have "tail_ok ?q" "pendingConsume ?q = 0" using "1.prems"(2) by (simp_all add: tail_ok_def)
      ultimately have "feed_rel fl (cfg ?q) st (pbytes ?q @ borrowedTail ?q) (feedLoop fl b ?q)"
        using "1.IH"(1) [OF x(1) [symmetric] refl] True by simp
      then show ?thesis using True x(1) by (simp add: feedLoop.simps [of fl b p])
    next
      case False
      with te have "borrowedTail p = []" by blast
      moreover have "spec_run fl (cfg p) st (pbytes p) = ([], Inr (st, pbytes p))" using SWait by (simp add: spec_run.simps)
      moreover have "prel (adoptOwned (p\<lparr>extra := x\<rparr>)) st" using x(2) prel_cong [of "adoptOwned (p\<lparr>extra := x\<rparr>)" "p\<lparr>extra := x\<rparr>" st] by simp
      ultimately show ?thesis using False x "1.prems"(2)
        by (auto simp: feedLoop.simps [of fl b p] feed_rel_def)
    qed
  next
    case (SErr e)
    have "spec_step fl (cfg p) st ?bs = SErr e" using spec_step_append [OF ok, of fl "cfg p" "pbytes p"] SErr by simp
    moreover obtain q where "next_frame fl b p = (q, Fail e)" using nr SErr by (cases "next_frame fl b p") auto
    ultimately show ?thesis by (simp add: feedLoop.simps [of fl b p] feed_rel_def spec_run.simps [of fl "cfg p" st ?bs])
  next
    case (SStep ev st' n)
    have whole: "spec_step fl (cfg p) st ?bs = SStep ev st' n"
      using spec_step_append [OF ok, of fl "cfg p" "pbytes p"] SStep by simp
    have n: "0 < n" "n \<le> length (pbytes p)" using spec_step_pos [OF SStep] by simp_all
    have full: "borrowedTail p \<noteq> [] \<Longrightarrow> n = length (pbytes p)"
      using whole_frame(2) [OF _ SStep] "1.prems"(3) n by (auto simp: tail_ok_def)
    show ?thesis
    proof (cases ev)
      case None
      with nr SStep obtain q where q: "next_frame fl b p = (q, Skipped)" "prel q st'" "after False n p q" by auto
      have fields: "borrowedTail q = borrowedTail p" "cfg q = cfg p" "pendingConsume q = 0" "pbytes q = drop n (pbytes p)"
        using q(3) by (auto simp: after_def)
      then have "tail_ok q" using full by (auto simp: tail_ok_def)
      from "1.IH"(2) [OF q(1) [symmetric] refl q(2) fields(3) this]
      have "feed_rel fl (cfg p) st' (drop n ?bs) (feedLoop fl b q)" using fields n by simp
      moreover have "spec_run fl (cfg p) st ?bs = spec_run fl (cfg p) st' (drop n ?bs)"
        using whole None by (simp add: spec_run.simps [of fl "cfg p" st ?bs] split: prod.splits)
      ultimately show ?thesis using q(1) n
        by (auto simp: feedLoop.simps [of fl b p] feed_rel_def split: feed_result.splits)
    next
      case (Some e)
      with nr SStep obtain q where q: "next_frame fl b p = (q, Emit e)" "prel q st'" "after b n p q" by auto
      have rest: "rest q = drop n ?bs" "pinv q" "cfg q = cfg p"
        using q(3) n full by (auto simp: after_def rest_def pinv_def)
      moreover have "spec_run fl (cfg p) st ?bs = (case spec_run fl (cfg p) st' (drop n ?bs) of (evs, r) \<Rightarrow> (e # evs, r))"
        using whole Some by (simp add: spec_run.simps [of fl "cfg p" st ?bs])
      ultimately show ?thesis using q(1,2) n by (auto simp: feedLoop.simps [of fl b p] feed_rel_def)
    qed
  qed
qed


lemma appendCurrentFrame_bytes:
  assumes "appendCurrentFrame l b data = (l', b', tail)"
  shows "(\<exists>x. sbytes b' = sbytes b @ x \<and> x @ tail = data) \<and> (tail \<noteq> [] \<longrightarrow> frameSize (sbytes b') = Some (slen b'))"
  using assms
proof (induction l b data arbitrary: l' b' tail rule: appendCurrentFrame.induct)
  case (1 l b data)
  have ap: "sbytes s' = sbytes s @ d" if "AppendPool m s d = (m', s')" for m s d m' s'
    using AppendPool_bytes [of m s d] that by simp
  show ?case
  proof (cases "frameSize (sbytes b)")
    case (Some m)
    show ?thesis
    proof (cases "m \<le> slen b \<or> length data \<le> m - slen b")
      case True
      then show ?thesis using "1.prems" Some ap by (auto simp: appendCurrentFrame.simps [of l b data] split: prod.splits)
    next
      case False
      let ?n = "m - slen b"
      have b': "sbytes b' = sbytes b @ take ?n data" "tail = drop ?n data"
        using "1.prems" Some False ap by (auto simp: appendCurrentFrame.simps [of l b data] split: prod.splits)
      moreover have "slen b' = m" using b' False by simp
      ultimately show ?thesis using frameSize_append [OF Some] by simp
    qed
  next
    case None
    let ?h = "frameHeaderSize (sbytes b)"
    show ?thesis
    proof (cases "?h \<le> slen b \<or> length data \<le> ?h - slen b")
      case True
      then show ?thesis using "1.prems" None ap
        by (auto simp: appendCurrentFrame.simps [of l b data] Let_def split: prod.splits)
    next
      case False
      obtain m c where c: "AppendPool l b (take (?h - slen b) data) = (m, c)" by fastforce
      then have rec: "appendCurrentFrame m c (drop (?h - slen b) data) = (l', b', tail)"
        using "1.prems" None False by (simp add: appendCurrentFrame.simps [of l b data] Let_def)
      have "(\<exists>x. sbytes b' = sbytes c @ x \<and> x @ tail = drop (?h - slen b) data) \<and>
          (tail \<noteq> [] \<longrightarrow> frameSize (sbytes b') = Some (slen b'))"
        using "1.IH" [OF None refl _ c [symmetric] rec] False by simp
      then obtain x where x: "sbytes b' = sbytes c @ x" "x @ tail = drop (?h - slen b) data"
        "tail \<noteq> [] \<longrightarrow> frameSize (sbytes b') = Some (slen b')" by blast
      moreover have "sbytes c = sbytes b @ take (?h - slen b) data" using ap [OF c] .
      ultimately show ?thesis by (intro conjI exI [of _ "take (?h - slen b) data @ x"]) simp_all
    qed
  qed
qed

lemma applyPending_refines:
  assumes "prel p st" and "pinv p"
  shows "prel (applyPending p) st" "cfg (applyPending p) = cfg p" "pendingConsume (applyPending p) = 0"
    "pbytes (applyPending p) = drop (pendingConsume p) (pbytes p)" "borrowedTail (applyPending p) = borrowedTail p"
proof -
  have "prel (applyPending p) st"
  proof (cases "pendingConsume p = 0")
    case True
    then show ?thesis using assms(1) by (simp add: applyPending_def)
  next
    case False
    then have "textChecked (moreExtra p) = 0" using assms(1) by (auto simp: prel_def text_rel_def Let_def split: if_splits)
    moreover have "moreExtra (applyPending p) = moreExtra p" by (simp add: applyPending_def moreExtra_def)
    ultimately show ?thesis using assms(1) by (simp add: prel_def text_rel_def)
  qed
  then show "prel (applyPending p) st" "cfg (applyPending p) = cfg p" "pendingConsume (applyPending p) = 0"
    "pbytes (applyPending p) = drop (pendingConsume p) (pbytes p)" "borrowedTail (applyPending p) = borrowedTail p"
    using assms(2) by (auto simp: applyPending_def pinv_def consume_bytes)
qed

text \<open>The part of \<^verbatim>\<open>feedOne\<close> before its loop.\<close>

definition feedInput :: "Parser \<Rightarrow> bytes \<Rightarrow> bool \<Rightarrow> Parser" where
  "feedInput p data borrow =
     (if borrow \<and> pbytes p = [] \<and> data \<noteq> [] then p\<lparr>buffer := lent data, borrowedBuffer := True\<rparr>
      else if borrow \<and> \<not> borrowedBuffer p \<and> pbytes p \<noteq> [] \<and> data \<noteq> [] then
        (case appendCurrentFrame (pool p) (buffer p) data of
           (l, b, tail) \<Rightarrow> keepOwned (p\<lparr>pool := l, buffer := b, borrowedTail := tail\<rparr>))
      else
        (let p = (if borrowedBuffer p \<and> data \<noteq> [] then adoptOwned p else p) in
         case AppendPool (pool p) (buffer p) data of
           (l, b) \<Rightarrow> keepOwned (p\<lparr>pool := l, buffer := b\<rparr>)))"

definition feedStart :: "Parser \<Rightarrow> Parser" where
  "feedStart p = (let p = applyPending p in if pbytes p = [] \<and> borrowedTail p \<noteq> [] then takeTail p else p)"

lemma feedOne_split: "feedOne fl p data b = feedLoop fl b (feedInput (feedStart p) data b)"
  by (simp add: feedOne_def feedInput_def feedStart_def Let_def)

lemma feedStart_refines:
  assumes "prel p st" and "pinv p"
  shows "prel (feedStart p) st" "cfg (feedStart p) = cfg p" "pendingConsume (feedStart p) = 0"
    "pbytes (feedStart p) = rest p" "borrowedTail (feedStart p) = []"
proof -
  note ap = applyPending_refines [OF assms]
  have tail: "borrowedTail p \<noteq> [] \<Longrightarrow> pbytes (applyPending p) = []" using ap(4) assms(2) by (simp add: pinv_def)
  have "prel (takeTail (applyPending p)) st" if "pbytes (applyPending p) = []" using prel_empty [OF ap(1) that] by simp
  then show "prel (feedStart p) st" "cfg (feedStart p) = cfg p" "pendingConsume (feedStart p) = 0"
    "pbytes (feedStart p) = rest p" "borrowedTail (feedStart p) = []"
    using ap tail by (auto simp: feedStart_def Let_def rest_def)
qed

lemma cfg_buffer [simp]: "cfg (p\<lparr>buffer := s\<rparr>) = cfg p" "cfg (p\<lparr>borrowedBuffer := y\<rparr>) = cfg p"
  "cfg (p\<lparr>pool := l\<rparr>) = cfg p" "cfg (p\<lparr>borrowedTail := t\<rparr>) = cfg p" "cfg (p\<lparr>owned := s\<rparr>) = cfg p"
  by (simp_all add: cfg_def)

lemma feedInput_refines:
  assumes "prel p st" and "pendingConsume p = 0" and "borrowedTail p = []"
  shows "prel (feedInput p data b) st" "cfg (feedInput p data b) = cfg p" "pendingConsume (feedInput p data b) = 0"
    "pbytes (feedInput p data b) @ borrowedTail (feedInput p data b) = pbytes p @ data" "tail_ok (feedInput p data b)"
proof -
  have "prel (feedInput p data b) st \<and> cfg (feedInput p data b) = cfg p \<and> pendingConsume (feedInput p data b) = 0 \<and>
    pbytes (feedInput p data b) @ borrowedTail (feedInput p data b) = pbytes p @ data \<and> tail_ok (feedInput p data b)"
  proof (cases "b \<and> pbytes p = [] \<and> data \<noteq> []")
    case True
    then have "prel (p\<lparr>buffer := lent data, borrowedBuffer := True\<rparr>) st" using prel_empty [OF assms(1)] by simp
    then show ?thesis using True assms by (simp add: feedInput_def lent_def tail_ok_def)
  next
    case n1: False
    show ?thesis
    proof (cases "b \<and> \<not> borrowedBuffer p \<and> pbytes p \<noteq> [] \<and> data \<noteq> []")
      case True
      obtain l s tail where a: "appendCurrentFrame (pool p) (buffer p) data = (l, s, tail)" by (metis prod_cases3)
      let ?q = "keepOwned (p\<lparr>pool := l, buffer := s, borrowedTail := tail\<rparr>)"
      from appendCurrentFrame_bytes [OF a] obtain x where x: "sbytes s = pbytes p @ x" "x @ tail = data"
        "tail \<noteq> [] \<longrightarrow> frameSize (sbytes s) = Some (slen s)" by blast
      have "prel ?q st" by (rule prel_append [OF assms(1)]) (use x in simp_all)
      then show ?thesis using True n1 assms(2) a x by (auto simp: feedInput_def tail_ok_def)
    next
      case n2: False
      define p1 where "p1 = (if borrowedBuffer p \<and> data \<noteq> [] then adoptOwned p else p)"
      have p1: "extra p1 = extra p" "cfg p1 = cfg p" "pbytes p1 = pbytes p" "pendingConsume p1 = 0" "borrowedTail p1 = []"
        using assms by (simp_all add: p1_def)
      obtain l s where a: "AppendPool (pool p1) (buffer p1) data = (l, s)" by fastforce
      let ?q = "keepOwned (p1\<lparr>pool := l, buffer := s\<rparr>)"
      have s: "sbytes s = pbytes p @ data" using AppendPool_bytes [of "pool p1" "buffer p1" data] a p1 by simp
      have q: "prel ?q st" by (rule prel_append [OF assms(1), where x = data]) (use s p1 assms(2) in simp_all)
      have "feedInput p data b = ?q" using n1 n2 a unfolding feedInput_def p1_def by (auto simp: Let_def)
      then show ?thesis using q s p1 by (simp add: tail_ok_def)
    qed
  qed
  then show "prel (feedInput p data b) st" "cfg (feedInput p data b) = cfg p" "pendingConsume (feedInput p data b) = 0"
    "pbytes (feedInput p data b) @ borrowedTail (feedInput p data b) = pbytes p @ data" "tail_ok (feedInput p data b)"
    by blast+
qed

lemma feedOne_refines:
  assumes "prel p st" and "pinv p"
  shows "feed_rel fl (cfg p) st (rest p @ data) (feedOne fl p data b)"
proof -
  note fs = feedStart_refines [OF assms]
  note fi = feedInput_refines [OF fs(1,3,5), of data b]
  from feedLoop_refines [OF fi(1,3,5), of fl b] show ?thesis
    using fs fi by (simp add: feedOne_split)
qed


subsection \<open>Every event takes bytes of the stream\<close>

lemma finish_emit:
  "finishControl b p oc pl n = (p', Emit ev) \<Longrightarrow> taken b n p p'"
  "finishData fl b p oc fin c t ch pl n = (p', Emit ev) \<Longrightarrow> taken b n p p'"
  "finishContinuation fl b p f fin t ch pl n = (p', Emit ev) \<Longrightarrow> taken b n p p'"
proof -
  show "finishControl b p oc pl n = (p', Emit ev) \<Longrightarrow> taken b n p p'"
    by (auto simp: finishControl_def taken_intros split: if_splits)
  show "finishData fl b p oc fin c t ch pl n = (p', Emit ev) \<Longrightarrow> taken b n p p'"
    by (auto simp: finishData_def Let_def taken_intros dest!: inflate_keeps
        split: if_splits prod.splits sum.splits option.splits)
  show "finishContinuation fl b p f fin t ch pl n = (p', Emit ev) \<Longrightarrow> taken b n p p'"
    by (auto simp: finishContinuation_def Let_def taken_intros dest!: inflate_keeps
        split: if_splits prod.splits sum.splits option.splits)
qed

lemma next_emit:
  assumes "next_frame fl b p = (q, Emit ev)" and "pendingConsume p = 0"
  shows "\<exists>n. 2 \<le> n \<and> n \<le> length (pbytes p) \<and> after b n p q"
proof (cases "frameHead (cfg p) (fragmentOf p) (pbytes p)")
  case (Head first n off key t)
  note facts = frameHead_facts [OF Head]
  have n: "\<not> length (pbytes p) - off < n" and tf: "takeFrame fl b p first n off key t = (q, Emit ev)"
    using assms Head by (auto simp: next_frame_def split: if_splits prod.splits)
  let ?pl = "unmaskPayload key (take n (drop off (pbytes p)))"
  have "taken b (off + n) (lendPayload b (snd (takeChecked p)) off ?pl) q"
    using tf unfolding takeFrame_def Let_def case_prod_unfold takeChecked_simps
    by (auto split: if_splits option.splits dest: finish_emit)
  then have "after b (off + n) p q"
    using n facts(2) length_unmask [OF facts(5)] assms(2) by (intro taken_after) auto
  then show ?thesis using n facts(1,2) by (intro exI [of _ "off + n"]) auto
qed (use assms in \<open>auto simp: next_frame_def\<close>)

lemma feedLoop_shrinks:
  assumes "feedLoop fl b p = (q, Got ev)" and "pendingConsume p = 0"
  shows "length (rest q) < length (pbytes p) + length (borrowedTail p)"
  using assms
proof (induction fl b p rule: feedLoop.induct)
  case (1 fl b p)
  obtain p' r where nf: "next_frame fl b p = (p', r)" by fastforce
  show ?case
  proof (cases r)
    case (Fail e)
    then show ?thesis using "1.prems" nf by (simp add: feedLoop.simps [of fl b p])
  next
    case Incomplete
    with next_incomplete nf obtain x where "p' = p\<lparr>extra := x\<rparr>" by blast
    with Incomplete nf "1.prems" "1.IH"(1) [OF nf [symmetric]] show ?thesis
      by (auto simp: feedLoop.simps [of fl b p] split: if_splits)
  next
    case Skipped
    with nf next_skipped [of fl b p p'] "1.IH"(2) [OF nf [symmetric]] "1.prems" show ?thesis
      by (simp add: feedLoop.simps [of fl b p])
  next
    case (Emit e)
    with nf "1.prems" next_emit [of fl b p p' e] obtain n where "2 \<le> n" "n \<le> length (pbytes p)" "after b n p p'" by blast
    then show ?thesis using Emit nf "1.prems" by (auto simp: feedLoop.simps [of fl b p] after_def rest_def)
  qed
qed

lemma feedOne_shrinks:
  assumes "feedOne fl p data b = (q, Got ev)"
  shows "length (rest q) < length (rest p) + length data"
proof -
  let ?s = "feedStart p" let ?i = "feedInput ?s data b"
  have s: "pendingConsume ?s = 0" "length (pbytes ?s) + length (borrowedTail ?s) = length (rest p)"
    by (auto simp: feedStart_def applyPending_def rest_def consume_bytes Let_def)
  have "pendingConsume ?i = 0 \<and> length (pbytes ?i) + length (borrowedTail ?i) \<le> length (pbytes ?s) + length (borrowedTail ?s) + length data"
  proof (cases "b \<and> \<not> borrowedBuffer ?s \<and> pbytes ?s \<noteq> [] \<and> data \<noteq> []")
    case True
    obtain l c tail where a: "appendCurrentFrame (pool ?s) (buffer ?s) data = (l, c, tail)" by (metis prod_cases3)
    from appendCurrentFrame_bytes [OF a] obtain x where x: "sbytes c = pbytes ?s @ x" "x @ tail = data" by blast
    then have "length x + length tail = length data" by auto
    then show ?thesis using True s(1) a x(1) by (simp add: feedInput_def)
  next
    case False
    have "sbytes c = sbytes d @ e" if "AppendPool l d e = (m, c)" for l d e m c
      using AppendPool_bytes [of l d e] that by simp
    then show ?thesis using False s(1) unfolding feedInput_def Let_def by (auto simp: lent_def split: prod.splits)
  qed
  with feedLoop_shrinks [of fl b ?i q ev] assms s show ?thesis by (simp add: feedOne_split)
qed

text \<open>\<^verbatim>\<open>Feed\<close>: the events of the bytes given, and the error that ended the connection, if any.\<close>

function Feed :: "flate \<Rightarrow> Parser \<Rightarrow> bytes \<Rightarrow> Parser \<times> Event list \<times> ws_error option" where
  "Feed fl p data =
     (case FeedOne fl p data of
        (p', Failed e) \<Rightarrow> (p', [], Some e)
      | (p', NoEvent) \<Rightarrow> (p', [], None)
      | (p', Got event) \<Rightarrow>
          (case Feed fl p' [] of (p'', events, err) \<Rightarrow> (p'', event # events, err)))"
  by pat_completeness auto
termination
  by (relation "measure (\<lambda>(fl, p, data). length (rest p) + length data)")
    (auto simp: FeedOne_def dest: feedOne_shrinks [OF sym])

end
