(* ===== verification/Ws_Stream.thy ===== *)
theory Ws_Stream
  imports Ws_Parser
begin

text \<open>
  A parser over a whole connection: reads of any size, each parsed through \<^verbatim>\<open>Feed\<close> or through
  \<^verbatim>\<open>FeedOneBorrowed\<close> and \<^verbatim>\<open>ReleaseBorrowed\<close> as \<^verbatim>\<open>serveFrames\<close> does, deliver the events of the
  bytes received.
\<close>

subsection \<open>All events of a read\<close>

declare Feed.simps [simp del]

function feedAll :: "flate \<Rightarrow> bool \<Rightarrow> Parser \<Rightarrow> bytes \<Rightarrow> Parser \<times> Event list \<times> ws_error option" where
  "feedAll fl b p data =
     (case feedOne fl p data b of
        (p', Failed e) \<Rightarrow> (p', [], Some e)
      | (p', NoEvent) \<Rightarrow> (p', [], None)
      | (p', Got event) \<Rightarrow>
          (case feedAll fl b p' [] of (p'', events, err) \<Rightarrow> (p'', event # events, err)))"
  by pat_completeness auto
termination
  by (relation "measure (\<lambda>(fl, b, p, data). length (rest p) + length data)") (auto dest: feedOne_shrinks [OF sym])

declare feedAll.simps [simp del]

lemma Feed_all: "Feed fl p data = feedAll fl False p data"
proof (induction fl p data rule: Feed.induct)
  case (1 fl p data)
  show ?case
    using 1 by (auto simp: Feed.simps [of fl p data] feedAll.simps [of fl False p data] FeedOne_def
        split: prod.splits feed_result.splits)
qed

text \<open>One read, with the lent buffer handed back behind it.\<close>

definition feedRead :: "flate \<Rightarrow> bool \<Rightarrow> Parser \<Rightarrow> bytes \<Rightarrow> Parser \<times> Event list \<times> ws_error option" where
  "feedRead fl b p data =
     (if b then (case feedAll fl True p data of (p, evs, e) \<Rightarrow> (ReleaseBorrowed p, evs, e)) else Feed fl p data)"

primrec feedReads :: "flate \<Rightarrow> Parser \<Rightarrow> (bool \<times> bytes) list \<Rightarrow> Parser \<times> Event list \<times> ws_error option" where
  "feedReads fl p [] = (p, [], None)"
| "feedReads fl p (r # rs) =
     (case feedRead fl (fst r) p (snd r) of
        (p', evs, Some e) \<Rightarrow> (p', evs, Some e)
      | (p', evs, None) \<Rightarrow> (case feedReads fl p' rs of (p'', evs', e) \<Rightarrow> (p'', evs @ evs', e)))"

definition between :: "Parser \<Rightarrow> bool" where
  "between p \<longleftrightarrow> pendingConsume p = 0 \<and> borrowedTail p = [] \<and> (borrowedBuffer p \<longrightarrow> pbytes p = [])"

lemma between_pinv: "between p \<Longrightarrow> pinv p \<and> rest p = pbytes p"
  by (simp add: between_def pinv_def rest_def)

definition reads_rel :: "flate \<Rightarrow> wscfg \<Rightarrow> mstate \<Rightarrow> bytes \<Rightarrow> Parser \<times> Event list \<times> ws_error option \<Rightarrow> bool" where
  "reads_rel fl c st bs res \<longleftrightarrow>
     (case res of
        (p', evs, Some e) \<Rightarrow> spec_run fl c st bs = (evs, Inl e)
      | (p', evs, None) \<Rightarrow>
          \<exists>st'. spec_run fl c st bs = (evs, Inr (st', pbytes p')) \<and> prel p' st' \<and> cfg p' = c \<and> between p')"

lemma feedAll_refines:
  assumes "prel p st" and "pinv p"
  shows "reads_rel fl (cfg p) st (rest p @ data) (feedAll fl b p data)"
  using assms
proof (induction fl b p data arbitrary: st rule: feedAll.induct)
  case (1 fl b p data)
  obtain p' r where f: "feedOne fl p data b = (p', r)" by fastforce
  have fr: "feed_rel fl (cfg p) st (rest p @ data) (p', r)" using feedOne_refines [OF "1.prems", of fl data b] f by simp
  show ?case
  proof (cases r)
    case (Got ev)
    with fr obtain st' where st': "spec_run fl (cfg p) st (rest p @ data) = (case spec_run fl (cfg p) st' (rest p') of (evs, r) \<Rightarrow> (ev # evs, r))"
      "prel p' st'" "pinv p'" "cfg p' = cfg p" by (auto simp: feed_rel_def)
    obtain q evs e where q: "feedAll fl b p' [] = (q, evs, e)" by (metis prod_cases3)
    have "reads_rel fl (cfg p) st' (rest p') (q, evs, e)" using "1.IH" [OF f [symmetric] Got st'(2,3)] st'(4) q by simp
    then show ?thesis using st' f Got q
      by (cases e) (auto simp: feedAll.simps [of fl b p data] reads_rel_def split: prod.splits)
  qed (use fr f in \<open>auto simp: feedAll.simps [of fl b p data] reads_rel_def feed_rel_def between_def\<close>)
qed

lemma release_refines:
  assumes "prel p st" and "between p"
  shows "prel (ReleaseBorrowed p) st" "cfg (ReleaseBorrowed p) = cfg p" "between (ReleaseBorrowed p)"
    "pbytes (ReleaseBorrowed p) = pbytes p"
proof -
  define q where "q = releaseInflated (p\<lparr>borrowedTail := []\<rparr>)"
  have q: "cfg q = cfg p" "pbytes q = pbytes p" "pendingConsume q = 0" "borrowedTail q = []" "borrowedBuffer q = borrowedBuffer p"
    using assms(2) by (auto simp: q_def releaseInflated_def between_def split: option.splits)
  have e: "fragment (moreExtra q) = fragment (moreExtra p)" "window (moreExtra q) = window (moreExtra p)"
    "utext (moreExtra q) = utext (moreExtra p)" "textChecked (moreExtra q) = textChecked (moreExtra p)"
    by (auto simp: q_def releaseInflated_def moreExtra_def split: option.splits)
  have "pendingConsume p = 0" using assms(2) by (simp add: between_def)
  then have "pendingConsume q = pendingConsume p" using q(3) by simp
  then have "prel q st = prel p st" by (simp only: prel_def text_rel_def Let_def e q(1,2))
  then have "prel q st" using assms(1) by simp
  moreover have "ReleaseBorrowed p = (let q = (if borrowedBuffer q then q\<lparr>buffer := nilSlice, borrowedBuffer := False\<rparr> else q) in
      if length (pbytes q) = 0 then releaseOwned (q\<lparr>buffer := nilSlice\<rparr>) else q)"
    using assms(2) by (simp add: ReleaseBorrowed_def applyPending_def between_def q_def)
  moreover have "pbytes (releaseOwned r) = pbytes r" "extra (releaseOwned r) = extra r" "cfg (releaseOwned r) = cfg r"
    "pendingConsume (releaseOwned r) = pendingConsume r" "borrowedTail (releaseOwned r) = borrowedTail r"
    "borrowedBuffer (releaseOwned r) = borrowedBuffer r" for r
    by (simp_all add: releaseOwned_def)
  moreover have "prel (releaseOwned (r\<lparr>buffer := nilSlice\<rparr>)) st = prel r st" if "pbytes r = []" for r
    using that by (intro prel_cong) (simp_all add: releaseOwned_def nilSlice_def)
  moreover have "prel (r\<lparr>buffer := nilSlice, borrowedBuffer := False\<rparr>) st = prel r st" if "pbytes r = []" for r
    using that by (intro prel_cong) (simp_all add: nilSlice_def)
  ultimately show "prel (ReleaseBorrowed p) st" "cfg (ReleaseBorrowed p) = cfg p" "between (ReleaseBorrowed p)"
    "pbytes (ReleaseBorrowed p) = pbytes p"
    using assms(2) q by (auto simp: between_def Let_def nilSlice_def)
qed

lemma feedRead_refines:
  assumes "prel p st" and "between p"
  shows "reads_rel fl (cfg p) st (pbytes p @ data) (feedRead fl b p data)"
proof -
  have "reads_rel fl (cfg p) st (pbytes p @ data) (feedAll fl b p data)"
    using feedAll_refines [OF assms(1), of fl data b] between_pinv [OF assms(2)] by simp
  then show ?thesis
    by (cases b; cases "feedAll fl True p data")
      (auto simp: feedRead_def Feed_all reads_rel_def release_refines split: option.splits)
qed

lemma spec_run_waits: "spec_run fl c st bs = (evs, Inr (st', r)) \<Longrightarrow> spec_step fl c st' r = SWait"
proof (induction fl c st bs arbitrary: evs rule: spec_run.induct)
  case (1 fl c st bs)
  then show ?case
    by (auto simp: spec_run.simps [of fl c st bs] split: spec_result.splits prod.splits option.splits)
qed

lemma feedReads_refines:
  assumes "prel p st" and "between p" and "spec_step fl (cfg p) st (pbytes p) = SWait"
  shows "reads_rel fl (cfg p) st (pbytes p @ concat (map snd rs)) (feedReads fl p rs)"
  using assms
proof (induction rs arbitrary: p st)
  case Nil
  then show ?case by (auto simp: reads_rel_def spec_run.simps)
next
  case (Cons r rs)
  let ?data = "pbytes p @ snd r"
  have ok: "mok st" using Cons.prems(1) by (simp add: prel_def)
  note app = spec_run_append [OF ok, of fl "cfg p" ?data "concat (map snd rs)"]
  obtain p' evs e where f: "feedRead fl (fst r) p (snd r) = (p', evs, e)" by (metis prod_cases3)
  have rr: "reads_rel fl (cfg p) st ?data (p', evs, e)"
    using feedRead_refines [OF Cons.prems(1,2), of fl "snd r" "fst r"] f by simp
  show ?case
  proof (cases e)
    case (Some err)
    then show ?thesis using rr f app by (simp add: reads_rel_def)
  next
    case None
    with rr obtain st' where st': "spec_run fl (cfg p) st ?data = (evs, Inr (st', pbytes p'))" "prel p' st'" "cfg p' = cfg p" "between p'"
      by (auto simp: reads_rel_def)
    obtain p'' evs' e' where g: "feedReads fl p' rs = (p'', evs', e')" by (metis prod_cases3)
    have "reads_rel fl (cfg p) st' (pbytes p' @ concat (map snd rs)) (p'', evs', e')"
      using Cons.IH [OF st'(2,4)] spec_run_waits [OF st'(1)] st'(3) g by simp
    then show ?thesis using f None g app st'(1)
      by (cases e') (auto simp: reads_rel_def)
  qed
qed

subsection \<open>The whole connection\<close>

text \<open>A parser as a server or client sets it up.\<close>

definition parserFor :: "leases \<Rightarrow> int \<Rightarrow> bool \<Rightarrow> bool \<Rightarrow> bool \<Rightarrow> bool \<Rightarrow> Parser" where
  "parserFor l m server frames defl takeover =
     (SetPerFrame frames (if server then NewServerFrameParser l m else NewParser l m))\<lparr>deflate := defl, contextTakeover := takeover\<rparr>"

lemma parserFor_start:
  "prel (parserFor l m s f d t) mstart" "between (parserFor l m s f d t)" "pbytes (parserFor l m s f d t) = []"
  by (simp_all add: parserFor_def SetPerFrame_def NewServerFrameParser_def NewParser_def between_def nilSlice_def
      prel_def mstart_def mok_def text_rel_def moreExtra_def newExtra_def Let_def)

text \<open>
  C22. However the bytes of a connection are cut into reads, and whether each read is parsed with
  \<^verbatim>\<open>Feed\<close> or lent to \<^verbatim>\<open>FeedOneBorrowed\<close> and released, the parser delivers exactly the events the
  whole stream means, in order, and fails with exactly the error the stream deserves.
\<close>

theorem parser_delivers_stream:
  "(case feedReads fl (parserFor l m s f d t) rs of (p, evs, err) \<Rightarrow> (evs, err)) =
   (case spec_run fl (cfg (parserFor l m s f d t)) mstart (concat (map snd rs)) of
      (evs, Inl e) \<Rightarrow> (evs, Some e)
    | (evs, Inr _) \<Rightarrow> (evs, None))"
proof -
  have "spec_step fl c mstart [] = SWait" for c by (simp add: spec_step_def frameHead_def)
  then have "reads_rel fl (cfg (parserFor l m s f d t)) mstart (concat (map snd rs)) (feedReads fl (parserFor l m s f d t) rs)"
    using feedReads_refines [OF parserFor_start(1,2), of fl l m s f d t rs] by (simp add: parserFor_start(3))
  then show ?thesis by (auto simp: reads_rel_def split: prod.splits option.splits sum.splits)
qed

end
