(* ===== verification/Ws_Roundtrip.thy ===== *)
theory Ws_Roundtrip
  imports Ws_Stream
begin

text \<open>
  What one end frames the other end parses: a server's unmasked frames and a client's masked ones,
  however the connection cuts them. And what the parser delivers is always well formed: text that
  is valid UTF-8, messages within the limit, control frames of at most 125 bytes.
\<close>

subsection \<open>The bytes of a frame\<close>

definition lenBytes :: "nat \<Rightarrow> bytes" where
  "lenBytes n =
     (if n < 126 then [of_nat n]
      else if n \<le> 65535 then 126 # be_bytes 2 (of_nat n :: uint16)
      else 127 # be_bytes 8 (of_nat n :: uint64))"

definition sendable :: "byte \<Rightarrow> nat \<Rightarrow> bool" where
  "sendable opcode n \<longleftrightarrow> sendOpcode opcode \<and> (0x8 \<le> opcode \<longrightarrow> n \<le> 125)"

lemma frameHeader_bytes:
  "frameHeader opcode n = (if sendable opcode n then Inr ((0x80 OR opcode) # lenBytes n) else Inl ErrProtocol)"
  by (auto simp: frameHeader_def sendable_def lenBytes_def)

lemma MarshalFrame_bytes: "MarshalFrame opcode payload = sendFrame opcode payload False"
  by (auto simp: MarshalFrame_def sendFrame_def frameHeader_def)

lemma sendFrame_bytes:
  "sendable opcode (length payload) \<Longrightarrow>
   sendFrame opcode payload False = Inr ((0x80 OR opcode) # lenBytes (length payload) @ payload)"
  by (simp add: sendFrame_def frameHeader_bytes)

lemma lenBytes_nonempty [simp]: "lenBytes n \<noteq> []"
  by (simp add: lenBytes_def)

definition maskBit :: "bytes \<Rightarrow> bytes" where
  "maskBit l = (hd l OR 0x80) # tl l"

lemma sendMaskedFrame_bytes:
  assumes "sendable opcode (length payload)"
  shows "sendMaskedFrame key opcode payload False =
    Inr ((0x80 OR opcode) # maskBit (lenBytes (length payload)) @ key @ applyMask payload key)"
proof -
  obtain x xs where "lenBytes (length payload) = x # xs" by (metis lenBytes_nonempty list.exhaust)
  then show ?thesis using assms by (simp add: sendMaskedFrame_def frameHeader_bytes maskBit_def)
qed

subsection \<open>Reading a header back\<close>

lemma byte_low:
  fixes w :: byte
  assumes "unat w < 128"
  shows "w AND 0x7f = w" and "w AND 0x80 = 0" and "(w OR 0x80) AND 0x7f = w" and "(w OR 0x80) AND 0x80 \<noteq> 0"
proof -
  have m: "(0x7f :: byte) = mask 7" by (simp add: mask_eq_exp_minus_1)
  obtain c :: byte where c: "0x80 = c" by blast
  have e: "bit c k \<longleftrightarrow> k = 7" for k
  proof -
    have "c = push_bit 7 1" unfolding c [symmetric] by (simp add: push_bit_eq_mult)
    then show ?thesis by (simp only: bit_push_bit_iff) (auto simp: bit_1_iff)
  qed
  have b: "bit w k \<Longrightarrow> k < 7" for k using unat_less_bit [of w 7 k] assms by simp
  have b7: "7 \<le> k \<Longrightarrow> \<not> bit w k" for k using b [of k] by auto
  show "w AND 0x7f = w" unfolding m by (rule bit_word_eqI) (use b in \<open>auto simp: bit_simps\<close>)
  show "w AND 0x80 = 0" unfolding c by (rule bit_word_eqI) (use b7 in \<open>auto simp: bit_simps e\<close>)
  show "(w OR 0x80) AND 0x7f = w" unfolding m c by (rule bit_word_eqI) (use b in \<open>auto simp: bit_simps e\<close>)
  have "bit ((w OR 0x80) AND 0x80) 7" unfolding c by (simp add: bit_simps e)
  then show "(w OR 0x80) AND 0x80 \<noteq> 0" by auto
qed

text \<open>The second byte of a frame with a payload of \<open>n\<close> bytes.\<close>

lemma hd_lenBytes: "unat (hd (lenBytes n)) < 128"
  by (cases "n < 126"; cases "n \<le> 65535") (simp_all add: lenBytes_def unat_of_nat)

lemma second_byte:
  assumes "b = hd (lenBytes n) \<or> b = hd (lenBytes n) OR 0x80"
  shows "b AND 0x7f = hd (lenBytes n)" and "(b AND 0x80 \<noteq> 0) \<longleftrightarrow> b \<noteq> hd (lenBytes n)"
  using assms byte_low [OF hd_lenBytes] by auto

lemma readLength_lenBytes:
  assumes "n < 2 ^ 63" and "b AND 0x7f = hd (lenBytes n)"
  shows "readLength (x # b # tl (lenBytes n) @ r) b = LenOk n (1 + length (lenBytes n))"
proof -
  consider "n < 126" | "126 \<le> n" "n \<le> 65535" | "65535 < n" by linarith
  then show ?thesis
  proof cases
    case 1
    then have "unat (b AND 0x7f) = n" using assms(2) by (simp add: lenBytes_def unat_of_nat)
    then show ?thesis using 1 by (simp add: readLength_def lenBytes_def)
  next
    case 2
    then have u: "unat (b AND 0x7f) = 126" using assms(2) by (simp add: lenBytes_def)
    have "unat (of_nat n :: uint16) = n" using 2 by (simp add: unat_of_nat)
    then have "be_read (be_bytes 2 (of_nat n :: uint16)) = (of_nat n :: uint16)" using 2 by (intro be_read_bytes) simp
    then show ?thesis using 2 u \<open>unat (of_nat n :: uint16) = n\<close> by (simp add: readLength_def lenBytes_def Let_def)
  next
    case 3
    then have u: "unat (b AND 0x7f) = 127" using assms(2) by (simp add: lenBytes_def)
    have n: "unat (of_nat n :: uint64) = n" using assms(1) by (simp add: unat_of_nat)
    then have "be_read (be_bytes 8 (of_nat n :: uint64)) = (of_nat n :: uint64)" using assms(1) by (intro be_read_bytes) simp
    moreover have "drop_bit 63 (of_nat n :: uint64) = 0"
      using n assms(1) unat_drop_bit [of 63 "of_nat n :: uint64"] by (simp add: word_unat_eq_iff)
    moreover have "\<not> (of_nat n :: uint64) < 65536" using n 3 by (simp add: word_less_nat_alt)
    ultimately show ?thesis using 3 u n by (simp add: readLength_def lenBytes_def Let_def)
  qed
qed


lemma first_byte:
  assumes "sendOpcode opcode"
  shows "(0x80 OR opcode) AND 0x0f = opcode" and "(0x80 OR opcode) AND 0x30 = 0"
    and "(0x80 OR opcode) AND 0x40 = 0" and "(0x80 OR opcode) AND 0x80 \<noteq> 0"
    and "opcode \<noteq> Continuation" and "0x8 \<le> opcode \<longleftrightarrow> \<not> (opcode = Text \<or> opcode = Binary)"
  using assms unfolding sendOpcode_def by (elim disjE; simp add: opcodes word_le_nat_alt)+

text \<open>The header of a frame that is sent, followed by the key and whatever comes next.\<close>

lemma lenBytes_split:
  obtains t where "lenBytes n = hd (lenBytes n) # t" and "tl (lenBytes n) = t" and "1 + length (lenBytes n) = Suc (Suc (length t))"
  by (cases "lenBytes n") simp_all

lemma head_of_frame:
  assumes "sendable op n" and "n < 2 ^ 63" and "op = Text \<or> op = Binary \<Longrightarrow> n \<le> cMax c"
    and "mk = (\<not> cFromServer c)"
    and b: "b = (if mk then hd (lenBytes n) OR 0x80 else hd (lenBytes n))"
    and kp: "length kp = (if mk then 4 else 0)"
  shows "frameHead c None ((0x80 OR op) # b # tl (lenBytes n) @ kp @ r) =
    Head (0x80 OR op) n (1 + length (lenBytes n) + length kp) (if mk then Some kp else None) (op = Text)"
proof -
  obtain t where t: "tl (lenBytes n) = t" "1 + length (lenBytes n) = Suc (Suc (length t))" using lenBytes_split by metis
  define buf where "buf = (0x80 OR op) # b # t @ kp @ r"
  have so: "sendOpcode op" using assms(1) by (simp add: sendable_def)
  note fb = first_byte [OF so]
  have b': "b = hd (lenBytes n) \<or> b = hd (lenBytes n) OR 0x80" using b by simp
  note sb = second_byte [OF b']
  have mb: "(b AND 0x80 \<noteq> 0) = mk"
    using byte_low(2,4) [OF hd_lenBytes, of n] by (cases mk) (simp_all only: b if_True if_False, simp_all)
  have small: "0x8 \<le> op \<Longrightarrow> \<not> hd (lenBytes n) > 125"
    using assms(1) by (auto simp: sendable_def lenBytes_def word_less_nat_alt unat_of_nat)
  have he: "\<not> headerError c None (0x80 OR op) b"
    using assms(4) so mb small fb(2-6) unfolding headerError_def Let_def sb(1) fb(1) by (auto simp: sendOpcode_def)
  have rl: "readLength buf b = LenOk n (1 + length (lenBytes n))"
    using readLength_lenBytes [OF assms(2) sb(1)] unfolding t(1) buf_def by simp
  have buf: "\<not> length buf < 2" "buf ! 0 = 0x80 OR op" "buf ! 1 = b" "take 4 (drop (1 + length (lenBytes n)) buf) = (if mk then kp else take 4 r)"
    "\<not> (mk \<and> length buf < 1 + length (lenBytes n) + 4)"
    unfolding t(2) using kp by (cases mk; simp add: buf_def)+
  have tooBig: "\<not> (\<not> 0x8 \<le> op \<and> (n > cMax c \<or> 0 > cMax c - n))" using assms(3) fb(6) by auto
  have "frameHead c None buf = Head (0x80 OR op) n (1 + length (lenBytes n) + length kp) (if mk then Some kp else None) (op = Text)"
    using he tooBig buf(1,5) kp fb(3,5) mb unfolding frameHead_def Let_def buf(2,3) rl len_result.case fb(1)
    by (simp only: buf(4) if_False if_True option.case) (simp split: if_split)
  then show ?thesis unfolding buf_def t(1) .
qed

type_synonym message = "bytes \<times> byte \<times> bytes"

text \<open>The bytes of a message: masked with its key by a client, plain from a server.\<close>

definition wire :: "bool \<Rightarrow> message \<Rightarrow> bytes" where
  "wire masked m =
     (case m of
        (key, opcode, payload) \<Rightarrow>
          (case (if masked then sendMaskedFrame key opcode payload False else sendFrame opcode payload False) of
             Inl _ \<Rightarrow> []
           | Inr frame \<Rightarrow> frame))"

text \<open>A message that may be sent to a peer that takes up to \<open>limit\<close> bytes.\<close>

definition proper :: "nat \<Rightarrow> message \<Rightarrow> bool" where
  "proper limit m =
     (case m of
        (key, opcode, payload) \<Rightarrow>
          length key = 4 \<and> sendable opcode (length payload) \<and> length payload < 2 ^ 63 \<and>
          (opcode = Text \<or> opcode = Binary \<longrightarrow> length payload \<le> limit) \<and> (opcode = Text \<longrightarrow> utf8Valid payload) \<and>
          (opcode = Close \<longrightarrow> payload = [] \<or>
            2 \<le> length payload \<and> validCloseCode (be_read (take 2 payload)) \<and> utf8Valid (drop 2 payload)))"

definition event_of :: "message \<Rightarrow> Event" where
  "event_of m = (case m of (key, opcode, payload) \<Rightarrow> \<lparr>Opcode = opcode, Payload = payload, Fin = True\<rparr>)"

lemma wire_bytes:
  assumes "sendable op (length pl)" and "length key = 4"
  shows "wire mk (key, op, pl) = (0x80 OR op) # (if mk then hd (lenBytes (length pl)) OR 0x80 else hd (lenBytes (length pl))) #
    tl (lenBytes (length pl)) @ (if mk then key else []) @ (if mk then maskTail 0 key pl else pl)"
  using assms by (cases "lenBytes (length pl)")
    (simp_all add: wire_def sendMaskedFrame_bytes sendFrame_bytes maskBit_def applyMask_tail)

lemma spec_step_wire:
  assumes "proper (cMax c) m" and "mk = (\<not> cFromServer c)" and "mfrag st = None"
  shows "spec_step fl c st (wire mk m @ r) = SStep (Some (event_of m)) st (length (wire mk m))"
proof -
  obtain key op pl where m: "m = (key, op, pl)" by (cases m) auto
  have g: "length key = 4" "sendable op (length pl)" "length pl < 2 ^ 63" "op = Text \<or> op = Binary \<Longrightarrow> length pl \<le> cMax c"
    "op = Text \<Longrightarrow> utf8Valid pl" "op = Close \<Longrightarrow> pl = [] \<or>
      2 \<le> length pl \<and> validCloseCode (be_read (take 2 pl)) \<and> utf8Valid (drop 2 pl)"
    using assms(1) by (auto simp: proper_def m)
  define kp where "kp = (if mk then key else [])"
  define body where "body = (if mk then maskTail 0 key pl else pl)"
  have kp: "length kp = (if mk then 4 else 0)" using g(1) by (simp add: kp_def)
  let ?n = "length pl" let ?off = "1 + length (lenBytes ?n) + length kp"
  obtain t where t: "tl (lenBytes ?n) = t" "1 + length (lenBytes ?n) = Suc (Suc (length t))" using lenBytes_split by metis
  have wb: "wire mk m = (0x80 OR op) # (if mk then hd (lenBytes ?n) OR 0x80 else hd (lenBytes ?n)) #
    tl (lenBytes ?n) @ kp @ body" unfolding m kp_def body_def by (rule wire_bytes [OF g(2,1)])
  have hd: "frameHead c None (wire mk m @ r) = Head (0x80 OR op) ?n ?off (if mk then Some kp else None) (op = Text)"
    using head_of_frame [OF g(2,3,4) assms(2) refl kp, of "body @ r"] unfolding wb by simp
  have lb: "length body = ?n" by (simp add: body_def)
  have dr: "drop ?off (wire mk m @ r) = body @ r" unfolding wb t by simp
  have body: "unmaskPayload (if mk then Some kp else None) (take ?n (drop ?off (wire mk m @ r))) = pl"
    unfolding dr using g(1) lb by (simp add: body_def kp_def unmaskPayload_def applyMask_tail maskTail_twice)
  have total: "length (wire mk m) = ?off + ?n" unfolding wb t using lb by simp
  then have full: "\<not> length (wire mk m @ r) - ?off < ?n" by simp
  have so: "sendOpcode op" using g(2) by (simp add: sendable_def)
  note fb = first_byte [OF so]
  have "spec_frame fl c st (0x80 OR op) (op = Text) pl = Inr (Some (event_of m), st)"
    using fb(3,4,6) g(5,6) so unfolding spec_frame_def Let_def fb(1)
    by (auto simp: spec_control_def spec_data_def event_of_def m sendOpcode_def)
  then show ?thesis using full unfolding spec_step_def assms(3) hd frame_head.case body total by simp
qed


lemma spec_run_wire:
  assumes "list_all (proper (cMax c)) ms" and "mk = (\<not> cFromServer c)" and "mfrag st = None"
  shows "spec_run fl c st (concat (map (wire mk) ms)) = (map event_of ms, Inr (st, []))"
  using assms(1)
proof (induction ms)
  case Nil
  have "spec_step fl c st [] = SWait" by (simp add: spec_step_def frameHead_def)
  then show ?case by (simp add: spec_run.simps)
next
  case (Cons m ms)
  then have "spec_step fl c st (wire mk m @ concat (map (wire mk) ms)) = SStep (Some (event_of m)) st (length (wire mk m))"
    using assms(2,3) by (intro spec_step_wire) simp_all
  then show ?case using Cons by (simp add: spec_run.simps [of fl c st "wire mk m @ concat (map (wire mk) ms)"])
qed

lemma cfg_parserFor: "cMax (cfg (parserFor l m s f d t)) = nat (if m \<le> 0 then 16 * 2 ^ 20 else m)"
  "cFromServer (cfg (parserFor l m s f d t)) = s" "cPerFrame (cfg (parserFor l m s f d t)) = f"
  by (simp_all add: parserFor_def cfg_def SetPerFrame_def NewServerFrameParser_def NewParser_def)

text \<open>
  C23. Messages and control frames that one end sends, masked by a client and plain from a server,
  come out of the other end's parser as they went in, in order and without an error, however the
  connection cuts the bytes into reads.
\<close>

theorem frames_roundtrip:
  assumes "list_all (proper (maxMessageBytes (parserFor l limit fromSrv f d t))) ms"
    and "concat (map snd rs) = concat (map (wire (\<not> fromSrv)) ms)"
  shows "case feedReads fl (parserFor l limit fromSrv f d t) rs of (p, evs, err) \<Rightarrow> evs = map event_of ms \<and> err = None"
proof -
  let ?p = "parserFor l limit fromSrv f d t"
  have "maxMessageBytes ?p = cMax (cfg ?p)" by (simp add: cfg_def)
  then have "spec_run fl (cfg ?p) mstart (concat (map (wire (\<not> fromSrv)) ms)) = (map event_of ms, Inr (mstart, []))"
    using assms(1) by (intro spec_run_wire) (simp_all add: cfg_parserFor mstart_def)
  moreover have "spec_step fl c mstart [] = SWait" for c by (simp add: spec_step_def frameHead_def)
  then have "reads_rel fl (cfg ?p) mstart (concat (map snd rs)) (feedReads fl ?p rs)"
    using feedReads_refines [OF parserFor_start(1,2), of fl l limit fromSrv f d t rs] by (simp add: parserFor_start(3))
  ultimately show ?thesis unfolding assms(2) by (auto simp: reads_rel_def split: option.splits)
qed

theorem frames_roundtrip_witness:
  "\<exists>evs. (\<exists>p. feedReads (\<lambda>d x. ([], True), \<lambda>c m. 0) (parserFor \<lparr>opened = 0, ended = []\<rparr> 0 False False False False)
      [(True, [0x81]), (False, [0x82, 1, 2, 3, 4, 0x49, 0x6b]), (True, [0x89, 0x80]), (True, [5, 6, 7, 8])] = (p, evs, None)) \<and>
    map Payload evs = [[0x48, 0x69], []]"
proof -
  let ?ms = "[([1, 2, 3, 4], Text, [0x48, 0x69]), ([5, 6, 7, 8], Ping, [])]"
  have "list_all (proper (maxMessageBytes (parserFor \<lparr>opened = 0, ended = []\<rparr> 0 False False False False))) ?ms"
    by (simp add: parserFor_def SetPerFrame_def NewParser_def proper_def sendable_def sendOpcode_def opcodes
        utf8Valid.simps word_le_nat_alt)
  moreover have "concat (map snd [(True, [0x81]), (False, [0x82, 1, 2, 3, 4, 0x49, 0x6b]), (True, [0x89, 0x80]), (True, [5, 6, 7, 8 :: byte])])
      = concat (map (wire (\<not> False)) ?ms)"
    by (simp add: wire_bytes sendable_def sendOpcode_def opcodes lenBytes_def word_le_nat_alt and_3)
  ultimately show ?thesis
    using frames_roundtrip [of "\<lparr>opened = 0, ended = []\<rparr>" 0 False False False False ?ms
        "[(True, [0x81]), (False, [0x82, 1, 2, 3, 4, 0x49, 0x6b]), (True, [0x89, 0x80]), (True, [5, 6, 7, 8])]" "(\<lambda>d x. ([], True), \<lambda>c m. 0)"]
    by (auto simp: event_of_def split: prod.splits)
qed


subsection \<open>What is delivered is well formed\<close>

text \<open>
  The message in progress when events come frame by frame: its opcode and what was delivered of it.
  \<open>whole\<close> is what an event completes or continues, and \<open>msg_after\<close> the message in progress after it.
\<close>

type_synonym progress = "(byte \<times> bytes) option"

definition isData :: "Event \<Rightarrow> bool" where
  "isData ev \<longleftrightarrow> Opcode ev = Text \<or> Opcode ev = Binary"

definition whole :: "progress \<Rightarrow> Event \<Rightarrow> bytes" where
  "whole m ev = (case m of None \<Rightarrow> [] | Some (_, d) \<Rightarrow> d) @ Payload ev"

definition msg_after :: "progress \<Rightarrow> Event \<Rightarrow> progress" where
  "msg_after m ev = (if isData ev then if Fin ev then None else Some (Opcode ev, whole m ev) else m)"

definition data_ok :: "bool \<Rightarrow> nat \<Rightarrow> progress \<Rightarrow> Event \<Rightarrow> bool" where
  "data_ok perframe limit m ev \<longleftrightarrow>
     (Fin ev \<or> perframe) \<and> (case m of None \<Rightarrow> True | Some (oc, _) \<Rightarrow> perframe \<and> Opcode ev = oc) \<and>
     length (Payload ev) \<le> limit \<and>
     (Opcode ev = Text \<longrightarrow> (if Fin ev then utf8_text (whole m ev) else \<exists>q. utf8_text (whole m ev @ q)))"

definition control_ok :: "Event \<Rightarrow> bool" where
  "control_ok ev \<longleftrightarrow> Fin ev \<and> (Opcode ev = Close \<or> Opcode ev = Ping \<or> Opcode ev = Pong) \<and> length (Payload ev) \<le> 125 \<and>
     (Opcode ev = Close \<longrightarrow> Payload ev = [] \<or>
        2 \<le> length (Payload ev) \<and> validCloseCode (be_read (take 2 (Payload ev))) \<and> utf8_text (drop 2 (Payload ev)))"

definition event_ok :: "bool \<Rightarrow> nat \<Rightarrow> progress \<Rightarrow> Event \<Rightarrow> bool" where
  "event_ok perframe limit m ev = (if isData ev then data_ok perframe limit m ev else control_ok ev)"

fun events_ok :: "bool \<Rightarrow> nat \<Rightarrow> progress \<Rightarrow> Event list \<Rightarrow> bool" where
  "events_ok perframe limit m [] \<longleftrightarrow> True"
| "events_ok perframe limit m (ev # evs) \<longleftrightarrow> event_ok perframe limit m ev \<and> events_ok perframe limit (msg_after m ev) evs"

text \<open>The parser's side of it: within the limit, and its text validated as far as it was kept or delivered.\<close>

definition text_ok :: "byte \<Rightarrow> bytes \<Rightarrow> utf8Validator \<Rightarrow> bool" where
  "text_ok oc d u \<longleftrightarrow> (oc = Text \<longrightarrow> (\<exists>v. stepAll freshValidator d = (v, True) \<and> same v u))"

definition minv :: "wscfg \<Rightarrow> mstate \<Rightarrow> progress \<Rightarrow> bool" where
  "minv c st m \<longleftrightarrow> mok st \<and>
     (case mfrag st of
        None \<Rightarrow> m = None
      | Some f \<Rightarrow> (fmOpcode f = Text \<or> fmOpcode f = Binary) \<and> length (fmData f) \<le> cMax c \<and>
          (if fmCompressed f then m = None
           else if cPerFrame c then fmData f = [] \<and> (\<exists>d. m = Some (fmOpcode f, d) \<and> text_ok (fmOpcode f) d (mutf st))
           else m = None \<and> text_ok (fmOpcode f) (fmData f) (mutf st)))"

lemma head_limits:
  assumes "frameHead c frag bs = Head first n off key t"
  shows "0x8 \<le> first AND 0x0f \<Longrightarrow> n \<le> 125"
    and "\<not> 0x8 \<le> first AND 0x0f \<Longrightarrow> n \<le> cMax c \<and> (case frag of None \<Rightarrow> 0 | Some f \<Rightarrow> length (fmData f)) \<le> cMax c - n"
proof -
  have len: "\<not> length bs < 2" using assms by (auto simp: frameHead_def split: if_splits)
  obtain off' where rl: "readLength bs (bs ! 1) = LenOk n off'"
    using assms len by (cases "readLength bs (bs ! 1)") (auto simp: frameHead_def Let_def split: if_splits)
  have f: "first = bs ! 0" by (rule frameHead_facts(4) [OF assms])
  show "\<not> 0x8 \<le> first AND 0x0f \<Longrightarrow> n \<le> cMax c \<and> (case frag of None \<Rightarrow> 0 | Some f \<Rightarrow> length (fmData f)) \<le> cMax c - n"
    using assms len rl f unfolding frameHead_def Let_def by (simp split: if_splits)
  assume "0x8 \<le> first AND 0x0f"
  then have "\<not> (bs ! 1) AND 0x7f > 125" using frameHead_header(1) [OF assms] unfolding headerError_def Let_def by (auto split: if_splits)
  then have "unat ((bs ! 1) AND 0x7f) \<le> 125" by (simp add: word_less_nat_alt not_less)
  then show "n \<le> 125" using rl by (auto simp: readLength_def Let_def split: if_splits)
qed

lemma inflateLoop_limit:
  "inflateLoop rd eof start limit dst = Inr m \<Longrightarrow> length dst - start \<le> limit \<Longrightarrow> length m - start \<le> limit"
  by (induction rd eof start limit dst rule: inflateLoop.induct) (auto simp: Let_def split: if_splits)

lemma spec_inflate_limit: "spec_inflate fl c w pl = Inr (m, w') \<Longrightarrow> length m \<le> cMax c"
  by (auto simp: spec_inflate_def decompressMessage_def split: sum.splits prod.splits dest: inflateLoop_limit)

lemma text_complete:
  assumes "stepAll freshValidator d = (v, True)" and "same v u" and "stepAll u pl = (w, True)" and "complete w"
  shows "utf8Valid (d @ pl)"
proof -
  have ag: "agrees (stepAll v pl) (stepAll u pl)" by (rule agrees_same [OF assms(2)])
  then obtain x where "stepAll v pl = (x, True)" "same x w" using assms(3) by (cases "stepAll v pl") (auto simp: agrees_def)
  then show ?thesis using assms(1,4) valid_stepAll [of freshValidator "d @ pl"] same_complete [of x w]
    by (simp add: stepAll_append complete_def)
qed

lemma text_more:
  assumes "stepAll freshValidator d = (v, True)" and "same v u" and "stepAll u pl = (w, True)"
  shows "\<exists>x. stepAll freshValidator (d @ pl) = (x, True) \<and> same x w"
  using assms agrees_same [OF assms(2), of pl] by (cases "stepAll v pl") (auto simp: agrees_def stepAll_append)


lemma text_begun: "stepAll freshValidator d = (v, True) \<Longrightarrow> \<exists>q. utf8_text (d @ q)"
proof -
  assume d: "stepAll freshValidator d = (v, True)"
  from can_finish [OF stepAll_ok [OF fresh_ok(1) d]] obtain q w where "stepAll v q = (w, True)" "need w = 0" by blast
  then have "utf8Valid (d @ q)" using d valid_stepAll [OF fresh_ok(2), of "d @ q"] by (simp add: stepAll_append)
  then show ?thesis by (auto simp: valid_iff_text)
qed

definition step_ok :: "wscfg \<Rightarrow> progress \<Rightarrow> ws_error + Event option \<times> mstate \<Rightarrow> bool" where
  "step_ok c m r \<longleftrightarrow>
     (case r of
        Inl e \<Rightarrow> True
      | Inr (None, st') \<Rightarrow> minv c st' m
      | Inr (Some e, st') \<Rightarrow> event_ok (cPerFrame c) (cMax c) m e \<and> minv c st' (msg_after m e))"

lemma opcode_neq: "Close \<noteq> Text" "Close \<noteq> Binary" "Ping \<noteq> Text" "Ping \<noteq> Binary" "Pong \<noteq> Text" "Pong \<noteq> Binary"
  "Ping \<noteq> Close" "Pong \<noteq> Close" "Binary \<noteq> Text"
  by (simp_all add: opcodes)

lemma spec_control_ok':
  assumes "minv c st m" and "oc = Close \<or> oc = Ping \<or> oc = Pong" and "length pl \<le> 125"
  shows "step_ok c m (spec_control st oc pl)"
proof -
  consider "length pl = 0" | "length pl = 1" | "2 \<le> length pl" by linarith
  then show ?thesis
    using assms opcode_neq
    by cases (auto simp: step_ok_def spec_control_def event_ok_def control_ok_def isData_def msg_after_def valid_iff_text [symmetric])
qed

text \<open>A data event that ends its message, when nothing of it was delivered before.\<close>

lemma whole_ok:
  "oc = Text \<or> oc = Binary \<Longrightarrow> length d \<le> cMax c \<Longrightarrow> (oc = Text \<longrightarrow> utf8Valid d) \<Longrightarrow> mok st \<Longrightarrow> mfrag st = None \<Longrightarrow>
   step_ok c None (Inr (Some \<lparr>Opcode = oc, Payload = d, Fin = True\<rparr>, st))"
  by (simp add: step_ok_def event_ok_def data_ok_def isData_def msg_after_def whole_def minv_def valid_iff_text)

lemma mok_fresh [simp]: "mok (st\<lparr>mfrag := None, mutf := freshValidator\<rparr>)" "mok \<lparr>mfrag = None, mutf = freshValidator, mwin = w\<rparr>"
  by (simp_all add: mok_def)

text \<open>Text that goes on: what was validated so far, with the payload.\<close>

lemma text_ok_more:
  assumes "text_ok oc d u" and "spec_text t u pl = (v, True)" and "oc = Text \<longrightarrow> t"
  shows "text_ok oc (d @ pl) v" and "oc = Text \<Longrightarrow> \<exists>q. utf8_text ((d @ pl) @ q)" and "oc = Text \<Longrightarrow> complete v \<Longrightarrow> utf8_text (d @ pl)"
proof -
  have more: "\<exists>x. stepAll freshValidator (d @ pl) = (x, True) \<and> same x v" if "oc = Text"
    using assms that text_more [of d _ u pl v] by (auto simp: text_ok_def spec_text_def)
  then show "text_ok oc (d @ pl) v" by (simp add: text_ok_def)
  show "\<exists>q. utf8_text ((d @ pl) @ q)" if "oc = Text" using more [OF that] text_begun [of "d @ pl"] by blast
  show "utf8_text (d @ pl)" if "oc = Text" "complete v"
    using assms that text_complete [of d _ u pl v] by (auto simp: text_ok_def spec_text_def valid_iff_text)
qed

lemma text_ok_start: "need u = 0 \<Longrightarrow> text_ok oc [] u"
  by (simp add: text_ok_def same_need)

lemma spec_data_ok':
  assumes inv: "minv c st m" and none: "mfrag st = None" and oc: "oc = Text \<or> oc = Binary" and t: "t = (oc = Text \<and> \<not> cm)"
    and len: "length pl \<le> cMax c"
  shows "step_ok c m (spec_data fl c st oc fin cm t pl)"
proof -
  have m: "m = None" and mok: "mok st" "need (mutf st) = 0" using inv none by (auto simp: minv_def mok_def)
  show ?thesis
  proof (cases fin)
    case fin: True
    show ?thesis
    proof (cases cm)
      case True
      show ?thesis
      proof (cases "spec_inflate fl c (mwin st) pl")
        case (Inl e)
        then show ?thesis using fin True by (simp add: spec_data_def step_ok_def)
      next
        case (Inr r)
        then obtain d w where r: "spec_inflate fl c (mwin st) pl = Inr (d, w)" by (cases r) auto
        have st: "mok (st\<lparr>mwin := w\<rparr>)" "mfrag (st\<lparr>mwin := w\<rparr>) = None" using mok none by (simp_all add: mok_def)
        have d: "length d \<le> cMax c" by (rule spec_inflate_limit [OF r])
        show ?thesis
        proof (cases "oc = Text \<and> \<not> utf8Valid d")
          case True
          then show ?thesis using fin \<open>cm\<close> r by (simp add: spec_data_def step_ok_def)
        next
          case False
          then have "step_ok c None (Inr (Some \<lparr>Opcode = oc, Payload = d, Fin = True\<rparr>, st\<lparr>mwin := w\<rparr>))"
            by (intro whole_ok [OF oc d _ st]) simp
          then show ?thesis using fin \<open>cm\<close> r m False by (auto simp: spec_data_def)
        qed
      qed
    next
      case cm: False
      show ?thesis
      proof (cases "t \<and> \<not> utf8Valid pl")
        case True
        then show ?thesis using fin cm by (simp add: spec_data_def step_ok_def)
      next
        case False
        then have "step_ok c None (Inr (Some \<lparr>Opcode = oc, Payload = pl, Fin = True\<rparr>, st))"
          using t cm by (intro whole_ok [OF oc len _ mok(1) none]) simp
        then show ?thesis using fin cm m False by (auto simp: spec_data_def)
      qed
    qed
  next
    case fin: False
    obtain v ok where v: "spec_text t (mutf st) pl = (v, ok)" by fastforce
    show ?thesis
    proof (cases ok)
      case True
      have vv: "vok v" using spec_text_ok v True mok(1) by (auto simp: mok_def)
      have tm: "text_ok oc ([] @ pl) v" "oc = Text \<Longrightarrow> \<exists>q. utf8_text (([] @ pl) @ q)" if "\<not> cm"
        using text_ok_more(1,2) [OF text_ok_start [OF mok(2)], of t pl v oc] v True t that by auto
      show ?thesis
      proof (cases "cPerFrame c \<and> \<not> cm")
        case pf: True
        then have "spec_data fl c st oc fin cm t pl = Inr (Some \<lparr>Opcode = oc, Payload = pl, Fin = False\<rparr>,
            st\<lparr>mfrag := Some \<lparr>fmOpcode = oc, fmCompressed = False, fmData = []\<rparr>, mutf := v\<rparr>)"
          using fin v True by (simp add: spec_data_def)
        then show ?thesis using pf tm vv oc len m
          by (auto simp: step_ok_def event_ok_def data_ok_def isData_def msg_after_def whole_def minv_def mok_def)
      next
        case pf: False
        then have "spec_data fl c st oc fin cm t pl =
            Inr (None, st\<lparr>mfrag := Some \<lparr>fmOpcode = oc, fmCompressed = cm, fmData = pl\<rparr>, mutf := v\<rparr>)"
          using fin v True by (simp add: spec_data_def)
        then show ?thesis using pf tm vv oc len m by (auto simp: step_ok_def minv_def mok_def)
      qed
    next
      case False
      then show ?thesis using v fin by (simp add: spec_data_def step_ok_def)
    qed
  qed
qed

lemma spec_continuation_ok':
  assumes inv: "minv c st m" and f: "mfrag st = Some f" and t: "t = (fmOpcode f = Text \<and> \<not> fmCompressed f)"
    and len: "length pl \<le> cMax c" "length (fmData f) \<le> cMax c - length pl"
  shows "step_ok c m (spec_continuation fl c st f fin t pl)"
proof -
  obtain v ok where v: "spec_text t (mutf st) pl = (v, ok)" by fastforce
  have mok: "mok st" using inv by (simp add: minv_def)
  have oc: "fmOpcode f = Text \<or> fmOpcode f = Binary" using inv f by (simp add: minv_def)
  have all: "length (fmData f @ pl) \<le> cMax c" using len by simp
  show ?thesis
  proof (cases "t \<and> (\<not> ok \<or> fin \<and> \<not> complete v)")
    case True
    then show ?thesis using v by (simp add: spec_continuation_def step_ok_def)
  next
    case good: False
    then have ok: ok using v by (cases t) (auto simp: spec_text_def)
    have vv: "vok v" using spec_text_ok v ok mok by (auto simp: mok_def)
    have cont: "spec_continuation fl c st f fin t pl =
      (if cPerFrame c \<and> \<not> fmCompressed f then
         Inr (Some \<lparr>Opcode = fmOpcode f, Payload = pl, Fin = fin\<rparr>,
              if fin then st\<lparr>mfrag := None, mutf := freshValidator\<rparr> else st\<lparr>mutf := v\<rparr>)
       else if \<not> fin then Inr (None, st\<lparr>mfrag := Some (f\<lparr>fmData := fmData f @ pl\<rparr>), mutf := v\<rparr>)
       else if fmCompressed f then
         (case spec_inflate fl c (mwin st) (fmData f @ pl) of
            Inl e \<Rightarrow> Inl e
          | Inr (d, w) \<Rightarrow>
              if fmOpcode f = Text \<and> \<not> utf8Valid d then Inl ErrInvalidPayload
              else Inr (Some \<lparr>Opcode = fmOpcode f, Payload = d, Fin = True\<rparr>,
                        \<lparr>mfrag = None, mutf = freshValidator, mwin = w\<rparr>))
       else Inr (Some \<lparr>Opcode = fmOpcode f, Payload = fmData f @ pl, Fin = True\<rparr>, st\<lparr>mfrag := None, mutf := freshValidator\<rparr>))"
      unfolding spec_continuation_def v prod.case if_not_P [OF good] ..
    consider (frame) "cPerFrame c \<and> \<not> fmCompressed f" | (part) "\<not> (cPerFrame c \<and> \<not> fmCompressed f)" "\<not> fin"
      | (packed) "\<not> (cPerFrame c \<and> \<not> fmCompressed f)" "fin" "fmCompressed f"
      | (plain) "\<not> (cPerFrame c \<and> \<not> fmCompressed f)" "fin" "\<not> fmCompressed f" by blast
    then show ?thesis
    proof cases
      case frame
      then obtain d where d: "m = Some (fmOpcode f, d)" "text_ok (fmOpcode f) d (mutf st)" "fmData f = []"
        using inv f by (auto simp: minv_def)
      note tm = text_ok_more [OF d(2) v [unfolded eqTrueI [OF ok]]]
      show ?thesis
      proof (cases fin)
        case True
        have "fmOpcode f = Text \<longrightarrow> utf8_text (d @ pl)" using tm(3) t frame good True by blast
        then show ?thesis unfolding cont if_P [OF frame] using True frame oc len(1) d(1)
          by (simp add: step_ok_def event_ok_def data_ok_def isData_def msg_after_def whole_def minv_def)
      next
        case False
        have "text_ok (fmOpcode f) (d @ pl) v" "fmOpcode f = Text \<longrightarrow> (\<exists>q. utf8_text ((d @ pl) @ q))"
          using tm(1,2) t frame by blast+
        then show ?thesis unfolding cont if_P [OF frame] using False frame oc len(1) d(1,3) f vv
          by (simp add: step_ok_def event_ok_def data_ok_def isData_def msg_after_def whole_def minv_def mok_def)
      qed
    next
      case part
      have "text_ok (fmOpcode f) (fmData f @ pl) v" if "\<not> fmCompressed f"
        using text_ok_more(1) [of "fmOpcode f" "fmData f" "mutf st" t pl v] inv f v ok t that part(1) by (auto simp: minv_def)
      then show ?thesis unfolding cont if_not_P [OF part(1)] using part(2) oc all f vv inv part(1)
        by (auto simp: step_ok_def minv_def mok_def)
    next
      case packed
      then have m: "m = None" using inv f by (simp add: minv_def)
      show ?thesis
      proof (cases "spec_inflate fl c (mwin st) (fmData f @ pl)")
        case (Inl e)
        then show ?thesis unfolding cont using packed by (simp add: step_ok_def)
      next
        case (Inr r)
        then obtain d w where r: "spec_inflate fl c (mwin st) (fmData f @ pl) = Inr (d, w)" by (cases r) auto
        show ?thesis
        proof (cases "fmOpcode f = Text \<and> \<not> utf8Valid d")
          case True
          then show ?thesis unfolding cont using packed r by (simp add: step_ok_def)
        next
          case False
          then have "step_ok c None (Inr (Some \<lparr>Opcode = fmOpcode f, Payload = d, Fin = True\<rparr>, \<lparr>mfrag = None, mutf = freshValidator, mwin = w\<rparr>))"
            by (intro whole_ok [OF oc spec_inflate_limit [OF r]]) simp_all
          then show ?thesis unfolding cont using packed r m False by auto
        qed
      qed
    next
      case plain
      then have m: "m = None" "text_ok (fmOpcode f) (fmData f) (mutf st)" using inv f by (auto simp: minv_def)
      have "fmOpcode f = Text \<longrightarrow> utf8Valid (fmData f @ pl)"
        using text_ok_more(3) [OF m(2), of t pl v] v ok t plain good by (auto simp: valid_iff_text)
      then have "step_ok c None (Inr (Some \<lparr>Opcode = fmOpcode f, Payload = fmData f @ pl, Fin = True\<rparr>, st\<lparr>mfrag := None, mutf := freshValidator\<rparr>))"
        by (intro whole_ok [OF oc all]) simp_all
      then show ?thesis unfolding cont using plain m by simp
    qed
  qed
qed

lemma spec_step_ok':
  assumes inv: "minv c st m" and "spec_step fl c st bs = SStep ev st' n"
  shows "step_ok c m (Inr (ev, st'))"
proof -
  obtain first k off key t where hd: "frameHead c (mfrag st) bs = Head first k off key t"
    and k: "\<not> length bs - off < k"
    and sf: "spec_frame fl c st first t (unmaskPayload key (take k (drop off bs))) = Inr (ev, st')"
    using assms(2) by (auto simp: spec_step_def split: frame_head.splits if_splits sum.splits)
  let ?pl = "unmaskPayload key (take k (drop off bs))" and ?oc = "first AND 0x0f"
  have len: "length ?pl = k" using length_unmask [OF frameHead_facts(5) [OF hd]] k by simp
  note op = header_opcode [OF frameHead_header(1) [OF hd]] and tf = frameHead_header(2) [OF hd, unfolded textFrame_def]
  note lim = head_limits [OF hd]
  show ?thesis
  proof (cases "0x8 \<le> ?oc")
    case True
    then have "step_ok c m (spec_control st ?oc ?pl)" using inv op(3) lim(1) len by (intro spec_control_ok') simp_all
    then show ?thesis using sf True by (simp add: spec_frame_def Let_def)
  next
    case c: False
    show ?thesis
    proof (cases "mfrag st")
      case None
      then have "?oc = Text \<or> ?oc = Binary" using op(2) c by blast
      moreover have "t = (?oc = Text \<and> \<not> first AND 0x40 \<noteq> 0)" using tf None by auto
      ultimately have "step_ok c m (spec_data fl c st ?oc (first AND 0x80 \<noteq> 0) (first AND 0x40 \<noteq> 0) t ?pl)"
        using inv None lim(2) [OF c] len by (intro spec_data_ok') simp_all
      then show ?thesis using sf c \<open>?oc = Text \<or> ?oc = Binary\<close> by (simp add: spec_frame_def Let_def)
    next
      case (Some f)
      have oc: "?oc = Continuation" "\<not> (?oc = Text \<or> ?oc = Binary)" using op(1,2) c Some by simp_all
      moreover have "t = (fmOpcode f = Text \<and> \<not> fmCompressed f)" using tf oc Some by auto
      ultimately have "step_ok c m (spec_continuation fl c st f (first AND 0x80 \<noteq> 0) t ?pl)"
        using inv Some lim(2) [OF c] len by (intro spec_continuation_ok') simp_all
      then show ?thesis using sf c oc(2) Some by (simp add: spec_frame_def Let_def)
    qed
  qed
qed

lemma spec_run_events:
  "minv c st m \<Longrightarrow> events_ok (cPerFrame c) (cMax c) m (fst (spec_run fl c st bs))"
proof (induction fl c st bs arbitrary: m rule: spec_run.induct)
  case (1 fl c st bs)
  show ?case
  proof (cases "spec_step fl c st bs")
    case (SStep ev st' n)
    note ok = spec_step_ok' [OF "1.prems" SStep]
    show ?thesis
    proof (cases ev)
      case None
      then show ?thesis using "1.IH" [OF SStep, of m] ok SStep
        by (simp add: spec_run.simps [of fl c st bs] step_ok_def case_prod_unfold)
    next
      case (Some e)
      then show ?thesis using "1.IH" [OF SStep, of "msg_after m e"] ok SStep
        by (simp add: spec_run.simps [of fl c st bs] step_ok_def case_prod_unfold)
    qed
  qed (simp_all add: spec_run.simps [of fl c st bs])
qed

text \<open>
  C24. Whatever bytes arrive, and however they are cut into reads, a parser only ever delivers
  well-formed events. A control event is a close, ping or pong of at most 125 bytes, a close with a
  code a peer may send and a reason that is a sequence of encoded Unicode scalar values. A data event
  is text or binary, of at most the limit. A parser that reassembles messages delivers them whole. One
  set to deliver frame by frame gives the frames of a message one after the other, all with the
  message's opcode, only the last of them final, possibly with control events between them. The frames
  of a text joined so far are the beginning of a sequence of encoded scalar values, and with the final
  one they are such a sequence.
\<close>

theorem delivered_events_ok:
  "events_ok f (maxMessageBytes (parserFor l m s f d t)) None (fst (snd (feedReads fl (parserFor l m s f d t) rs)))"
proof -
  let ?p = "parserFor l m s f d t"
  have "spec_step fl c mstart [] = SWait" for c by (simp add: spec_step_def frameHead_def)
  then have rr: "reads_rel fl (cfg ?p) mstart (concat (map snd rs)) (feedReads fl ?p rs)"
    using feedReads_refines [OF parserFor_start(1,2), of fl l m s f d t rs] by (simp add: parserFor_start(3))
  have "events_ok (cPerFrame (cfg ?p)) (cMax (cfg ?p)) None (fst (spec_run fl (cfg ?p) mstart (concat (map snd rs))))"
    by (rule spec_run_events) (simp add: minv_def mstart_def mok_def)
  moreover have "cMax (cfg ?p) = maxMessageBytes ?p" "cPerFrame (cfg ?p) = f" by (simp_all add: cfg_def cfg_parserFor) (simp add: parserFor_def SetPerFrame_def)
  ultimately show ?thesis using rr by (auto simp: reads_rel_def split: prod.splits option.splits)
qed

end
