(* ===== verification/Ws_Pool.thy ===== *)
theory Ws_Pool
  imports Ws_Stream
begin

text \<open>
  The frame parser and the shared buffer pool: no buffer goes back to the pool twice, and none the
  parser still holds, or has lent a payload from, goes back at all.
\<close>

definition leases_ok :: "leases \<Rightarrow> bool" where
  "leases_ok l \<longleftrightarrow> distinct (ended l) \<and> (\<forall>i\<in>set (ended l). i < opened l)"

definition live :: "leases \<Rightarrow> slice \<Rightarrow> bool" where
  "live l s \<longleftrightarrow> (case sid s of None \<Rightarrow> True | Some i \<Rightarrow> i < opened l \<and> i \<notin> set (ended l))"

lemma live_nil [simp]: "live l nilSlice" "live l (lent b)"
  by (simp_all add: live_def nilSlice_def lent_def)

lemma live_bytes [simp]: "live l (s\<lparr>sbytes := b\<rparr>) = live l s"
  by (simp add: live_def)

subsection \<open>Growing a buffer\<close>

text \<open>What growing may do: nothing, or end the old lease and open a larger buffer's.\<close>

definition grown :: "leases \<Rightarrow> slice \<Rightarrow> leases \<Rightarrow> slice \<Rightarrow> bool" where
  "grown l s l' s' \<longleftrightarrow> leases_ok l' \<and> live l' s' \<and> opened l \<le> opened l' \<and>
     (\<forall>i\<in>set (ended l'). i \<in> set (ended l) \<or> sid s = Some i \<or> opened l \<le> i) \<and>
     (l' = l \<and> sid s' = sid s \<and> scap s' = scap s \<or> scap s < scap s' \<and> (\<exists>j. sid s' = Some j \<and> opened l \<le> j))"

lemma Put_ok: "leases_ok l \<Longrightarrow> live l s \<Longrightarrow> leases_ok (Put l s)"
  by (auto simp: leases_ok_def live_def Put_def split: option.splits)

lemma Put_ended: "set (ended (Put l s)) \<subseteq> set (ended l) \<union> {i. sid s = Some i}" "opened (Put l s) = opened l"
  by (auto simp: Put_def split: option.splits)

lemma Get_lease:
  assumes "0 < n"
  shows "Get l (int n) = (l\<lparr>opened := Suc (opened l)\<rparr>, snd (Get l (int n)))" and "sid (snd (Get l (int n))) = Some (opened l)"
    and "n \<le> scap (snd (Get l (int n)))"
  using assms Get_cap [of "int n" l] by (auto simp: Get_def)

lemma AppendPool_grown:
  assumes "leases_ok l" and "live l s" and "AppendPool l s d = (l', s')"
  shows "grown l s l' s'"
proof (cases "slen s + length d \<le> scap s")
  case True
  then show ?thesis using assms by (auto simp: AppendPool_def Grow_def grown_def live_def)
next
  case False
  let ?n = "slen s + length d"
  have n: "0 < ?n" using False by linarith
  note g = Get_lease [OF n, of l]
  have eq: "l' = Put (l\<lparr>opened := Suc (opened l)\<rparr>) s" "sid s' = Some (opened l)" "scap s' = scap (snd (Get l (int ?n)))"
    using assms(3) False g unfolding AppendPool_def Grow_def regrow_def by (auto split: prod.splits)
  have "leases_ok (l\<lparr>opened := Suc (opened l)\<rparr>)" "live (l\<lparr>opened := Suc (opened l)\<rparr>) s"
    using assms(1,2) by (auto simp: leases_ok_def live_def split: option.splits)
  then have "leases_ok l'" unfolding eq(1) by (rule Put_ok)
  moreover have "\<forall>i\<in>set (ended l'). i \<in> set (ended l) \<or> sid s = Some i" "opened l' = Suc (opened l)"
    using Put_ended [of "l\<lparr>opened := Suc (opened l)\<rparr>" s] unfolding eq(1) by auto
  moreover have "opened l \<notin> set (ended l')"
    using calculation(2) assms(1,2) by (auto simp: leases_ok_def live_def)
  moreover have "scap s < scap s'" using g(3) False eq(3) by linarith
  ultimately show ?thesis using eq(2) by (auto simp: grown_def live_def)
qed

lemma grown_trans:
  assumes "grown l s l1 s1" and "grown l1 s1 l2 s2"
  shows "grown l s l2 s2"
  using assms unfolding grown_def by (auto; fastforce)

lemma grown_live: "grown l s l' s' \<Longrightarrow> leases_ok l' \<and> live l' s'"
  by (simp add: grown_def)

lemma appendCurrentFrame_grown:
  "leases_ok l \<Longrightarrow> live l s \<Longrightarrow> appendCurrentFrame l s d = (l', s', tail) \<Longrightarrow> grown l s l' s'"
proof (induction l s d arbitrary: l' s' tail rule: appendCurrentFrame.induct)
  case (1 l s d)
  show ?case
  proof (cases "frameSize (sbytes s)")
    case (Some m)
    then show ?thesis using 1(2-) AppendPool_grown [OF 1(2,3)]
      by (auto simp: appendCurrentFrame.simps [of l s d] split: if_splits prod.splits)
  next
    case None
    let ?h = "frameHeaderSize (sbytes s)"
    show ?thesis
    proof (cases "?h \<le> slen s \<or> length d \<le> ?h - slen s")
      case True
      then show ?thesis using None 1(2-) AppendPool_grown [OF 1(2,3)]
        by (auto simp: appendCurrentFrame.simps [of l s d] Let_def split: prod.splits)
    next
      case False
      obtain m c where c: "AppendPool l s (take (?h - slen s) d) = (m, c)" by fastforce
      note g = AppendPool_grown [OF 1(2,3) c]
      have "appendCurrentFrame m c (drop (?h - slen s) d) = (l', s', tail)"
        using 1(4) None False c by (simp add: appendCurrentFrame.simps [of l s d] Let_def)
      then have "grown m c l' s'" using 1(1) [OF None refl _ c [symmetric]] False grown_live [OF g] by simp
      then show ?thesis using grown_trans [OF g] by blast
    qed
  qed
qed


lemma appendCurrentFrame_fits:
  "slen s \<le> scap s \<Longrightarrow> appendCurrentFrame l s d = (l', s', tail) \<Longrightarrow> slen s' \<le> scap s'"
proof (induction l s d arbitrary: l' s' tail rule: appendCurrentFrame.induct)
  case (1 l s d)
  have fit: "slen c \<le> scap c" if "AppendPool l s x = (m, c)" for x m c
    using AppendPool_fits [OF 1(2), of x l] AppendPool_bytes [of l s x] that by simp
  show ?case
  proof (cases "frameSize (sbytes s) = None \<and> \<not> (frameHeaderSize (sbytes s) \<le> slen s \<or>
      length d \<le> frameHeaderSize (sbytes s) - slen s)")
    case True
    let ?h = "frameHeaderSize (sbytes s) - slen s"
    obtain m c where c: "AppendPool l s (take ?h d) = (m, c)" by fastforce
    have "appendCurrentFrame m c (drop ?h d) = (l', s', tail)"
      using 1(3) True c by (simp add: appendCurrentFrame.simps [of l s d] Let_def)
    then show ?thesis using 1(1) [of "frameHeaderSize (sbytes s)" m c] True c fit [OF c] by simp
  next
    case False
    then show ?thesis using 1(3) fit
      by (auto simp: appendCurrentFrame.simps [of l s d] Let_def split: option.splits if_splits prod.splits)
  qed
qed

subsection \<open>The parser's buffers\<close>

text \<open>The array a lent message was inflated into, if there is one.\<close>

definition infl :: "parserExtra option \<Rightarrow> slice" where
  "infl x = (case x of None \<Rightarrow> nilSlice | Some e \<Rightarrow> inflated e)"

definition apart :: "slice \<Rightarrow> slice \<Rightarrow> bool" where
  "apart a b \<longleftrightarrow> sid a = None \<or> sid a \<noteq> sid b"

definition pool_ok :: "Parser \<Rightarrow> bool" where
  "pool_ok p \<longleftrightarrow> leases_ok (pool p) \<and> live (pool p) (buffer p) \<and> live (pool p) (owned p) \<and> live (pool p) (infl (extra p)) \<and>
     apart (infl (extra p)) (buffer p) \<and> apart (infl (extra p)) (owned p) \<and>
     (borrowedBuffer p \<longrightarrow> sid (buffer p) = None) \<and>
     (sid (buffer p) = None \<or> sid (buffer p) \<noteq> sid (owned p) \<or> scap (buffer p) = scap (owned p)) \<and>
     slen (buffer p) \<le> scap (buffer p)"

lemma apart_nil [simp]: "apart nilSlice s" "sid s = None \<Longrightarrow> apart a s"
  by (auto simp: apart_def nilSlice_def)

lemma apart_bytes [simp]: "apart a (s\<lparr>sbytes := b\<rparr>) = apart a s" "apart (a\<lparr>sbytes := b\<rparr>) s = apart a s"
  by (simp_all add: apart_def)

lemma apart_sym: "apart a b \<Longrightarrow> apart b a"
  by (auto simp: apart_def)

lemma apart_fresh: "live l a \<Longrightarrow> sid s = Some j \<Longrightarrow> opened l \<le> j \<Longrightarrow> apart a s \<and> apart s a"
  by (auto simp: apart_def live_def split: option.splits)

lemma infl_simps [simp]: "infl None = nilSlice" "infl (Some e) = inflated e" "inflated (moreExtra p) = infl (extra p)"
  by (simp_all add: infl_def moreExtra_def newExtra_def split: option.split)

lemma live_Put: "live l a \<Longrightarrow> apart a s \<Longrightarrow> live (Put l s) a"
  using Put_ended [of l s] by (auto simp: live_def apart_def split: option.splits)

lemma live_open: "live l a \<Longrightarrow> live (l\<lparr>opened := Suc (opened l)\<rparr>) a"
  by (auto simp: live_def split: option.splits)

lemma live_grown:
  assumes "grown l s l' s'" and "live l a" and "apart a s"
  shows "live l' a" and "apart a s'"
  using assms by (fastforce simp: grown_def live_def apart_def split: option.splits)+

lemma pool_ok_cong:
  "pool q = pool p \<Longrightarrow> sid (buffer q) = sid (buffer p) \<Longrightarrow> scap (buffer q) = scap (buffer p) \<Longrightarrow>
   slen (buffer q) \<le> scap (buffer p) \<Longrightarrow> owned q = owned p \<Longrightarrow> (borrowedBuffer q \<longrightarrow> borrowedBuffer p) \<Longrightarrow>
   infl (extra q) = infl (extra p) \<Longrightarrow> pool_ok p \<Longrightarrow> pool_ok q"
  by (auto simp: pool_ok_def live_def apart_def)

lemma pool_ok_extra: "infl e = infl (extra p) \<Longrightarrow> pool_ok (p\<lparr>extra := e\<rparr>) = pool_ok p"
  by (simp add: pool_ok_def)

lemma pool_ok_fields [simp]: "pool_ok (p\<lparr>pendingConsume := n\<rparr>) = pool_ok p" "pool_ok (p\<lparr>borrowedTail := t\<rparr>) = pool_ok p"
  by (simp_all add: pool_ok_def)

lemma pool_ok_release:
  assumes "pool_ok p" and "sid s = None" and "slen s \<le> scap s"
  shows "pool_ok ((releaseOwned p)\<lparr>buffer := s\<rparr>)" and "pool_ok (releaseOwned (p\<lparr>buffer := s\<rparr>))"
  using assms Put_ok [of "pool p" "owned p"] live_Put [of "pool p" "infl (extra p)" "owned p"]
  by (auto simp: pool_ok_def releaseOwned_def live_def nilSlice_def)

lemma pool_ok_lent: "pool_ok p \<Longrightarrow> sid s = None \<Longrightarrow> slen s \<le> scap s \<Longrightarrow> pool_ok (p\<lparr>buffer := s, borrowedBuffer := y\<rparr>)"
  by (auto simp: pool_ok_def live_def)

text \<open>A message inflated into the array kept for it, or into a new one.\<close>

lemma inflateInto_ok:
  assumes "leases_ok l" and "live l a" and "inflateInto fl l a m = (l', a')"
  shows "leases_ok l' \<and> live l' a' \<and> (\<forall>s. live l s \<longrightarrow> live l' s \<and> (apart a s \<longrightarrow> apart a' s))"
proof (cases "length m \<le> scap a")
  case True
  then show ?thesis using assms by (auto simp: inflateInto_def apart_def)
next
  case False
  then have n: "l' = l\<lparr>opened := Suc (opened l)\<rparr>" "sid a' = Some (opened l)" using assms(3) by (auto simp: inflateInto_def)
  have "leases_ok l'" "live l' a'" using assms(1) n by (auto simp: leases_ok_def live_def)
  then show ?thesis using live_open [of l] apart_fresh [of l _ a' "opened l"] n by auto
qed

lemma inflate_pool:
  assumes "pool_ok p" and "inflate fl p c b = (p', r)"
  shows "pool_ok p'"
proof -
  define win where "win = (if contextTakeover p then window (moreExtra p) else [])"
  show ?thesis
  proof (cases "decompressMessage fl [] c win (maxMessageBytes p)")
    case (Inl e)
    then have "p' = p\<lparr>extra := Some (moreExtra p)\<rparr>" using assms(2) by (simp add: inflate_def Let_def flip: win_def)
    then show ?thesis using assms(1) by (simp add: pool_ok_extra)
  next
    case (Inr m)
    obtain l a where g: "(if b then inflateInto fl (pool p) (infl (extra p)) m else (pool p, infl (extra p))) = (l, a)" by fastforce
    have ok: "leases_ok (pool p)" "live (pool p) (infl (extra p))" using assms(1) by (simp_all add: pool_ok_def)
    have la: "leases_ok l \<and> live l a \<and> (\<forall>s. live (pool p) s \<longrightarrow> live l s \<and> (apart (infl (extra p)) s \<longrightarrow> apart a s))"
      using g ok inflateInto_ok [OF ok, of fl m l a] by (cases b) auto
    obtain e where "p' = p\<lparr>pool := l, extra := Some e\<rparr>" "inflated e = a"
      using assms(2) Inr g by (auto simp: inflate_def Let_def split: if_splits simp flip: win_def)
    then show ?thesis using assms(1) la by (simp add: pool_ok_def)
  qed
qed

lemma releaseInflated_pool:
  assumes "pool_ok p"
  shows "pool_ok (releaseInflated p)" and "infl (extra (releaseInflated p)) = nilSlice"
proof -
  let ?a = "infl (extra p)"
  have p: "leases_ok (pool p)" "live (pool p) ?a" "live (pool p) (buffer p)" "live (pool p) (owned p)"
    "apart ?a (buffer p)" "apart ?a (owned p)" using assms by (simp_all add: pool_ok_def)
  have "leases_ok (Put (pool p) ?a)" "live (Put (pool p) ?a) (buffer p)" "live (Put (pool p) ?a) (owned p)"
    by (rule Put_ok [OF p(1,2)], rule live_Put [OF p(3) apart_sym [OF p(5)]], rule live_Put [OF p(4) apart_sym [OF p(6)]])
  then have "pool_ok (p\<lparr>pool := Put (pool p) ?a, extra := Some e\<rparr>)" if "inflated e = nilSlice" for e
    using assms that by (simp add: pool_ok_def)
  then show "pool_ok (releaseInflated p)" "infl (extra (releaseInflated p)) = nilSlice"
    using assms by (auto simp: releaseInflated_def split: option.split)
qed

lemma nil_facts [simp]: "sid nilSlice = None" "sbytes nilSlice = []" "sid (lent b) = None" "sbytes (lent b) = b" "scap (lent b) = length b"
  by (simp_all add: nilSlice_def lent_def)

lemma pool_ok_unborrow: "pool_ok p \<Longrightarrow> pool_ok (p\<lparr>borrowedBuffer := False\<rparr>)"
  by (simp add: pool_ok_def)

lemma pool_ok_buffer: "pool_ok p \<Longrightarrow> sid s = None \<Longrightarrow> slen s \<le> scap s \<Longrightarrow> pool_ok (p\<lparr>buffer := s\<rparr>)"
  by (auto simp: pool_ok_def live_def)

lemma pool_ok_shrink: "pool_ok p \<Longrightarrow> length b \<le> slen (buffer p) \<Longrightarrow> pool_ok (p\<lparr>buffer := (buffer p)\<lparr>sbytes := b\<rparr>\<rparr>)"
  by (auto simp: pool_ok_def)

lemma consume_pool: "pool_ok p \<Longrightarrow> pool_ok (consume n p)"
  unfolding consume_def Let_def
  by (simp add: pool_ok_unborrow pool_ok_release(1) pool_ok_buffer pool_ok_shrink split: if_split)

lemma finishFrame_pool: "pool_ok p \<Longrightarrow> pool_ok (finishFrame n b p)"
  by (simp add: finishFrame_def consume_pool)

lemma applyPending_pool: "pool_ok p \<Longrightarrow> pool_ok (applyPending p)"
  by (simp add: applyPending_def consume_pool)

lemma keepOwned_pool:
  assumes "grown (pool p) (buffer p) l s" and "pool_ok p" and "slen s \<le> scap s" and "borrowedBuffer p \<longrightarrow> l = pool p \<and> sid s = None"
  shows "pool_ok (keepOwned (p\<lparr>pool := l, buffer := s\<rparr>))"
proof -
  have "live (pool p) (infl (extra p))" "apart (infl (extra p)) (buffer p)" using assms(2) by (simp_all add: pool_ok_def)
  note inf = live_grown [OF assms(1) this]
  show ?thesis
proof (cases "borrowedBuffer p \<or> scap s < scap (owned p)")
  case True
  have "live l (owned p)" if "\<not> borrowedBuffer p"
  proof (cases "l = pool p")
    case False
    then have "scap (buffer p) < scap s" using assms(1) by (auto simp: grown_def)
    then have "sid (buffer p) = None \<or> sid (buffer p) \<noteq> sid (owned p)"
      using assms(2) True that by (auto simp: pool_ok_def)
    then show ?thesis using assms(1,2) by (fastforce simp: pool_ok_def live_def grown_def split: option.splits)
  qed (use assms(2) in \<open>simp add: pool_ok_def\<close>)
  moreover have "sid s = None \<or> sid s \<noteq> sid (owned p) \<or> scap s = scap (owned p)"
  proof -
    consider "sid s = sid (buffer p)" "scap s = scap (buffer p)" | j where "sid s = Some j" "opened (pool p) \<le> j"
      using assms(1) by (auto simp: grown_def)
    then show ?thesis
    proof cases
      case 1
      then show ?thesis using assms(2) by (auto simp: pool_ok_def)
    next
      case 2
      moreover have "i < opened (pool p)" if "sid (owned p) = Some i" for i
        using assms(2) that by (simp add: pool_ok_def live_def)
      ultimately show ?thesis by fastforce
    qed
  qed
  ultimately show ?thesis using True assms inf by (auto simp: keepOwned_def pool_ok_def grown_def)
next
  case False
  then show ?thesis using assms inf by (auto simp: keepOwned_def pool_ok_def grown_def)
qed
qed

lemma adopt_pool:
  assumes "pool_ok p" and "borrowedBuffer p"
  shows "pool_ok (adoptOwned p)"
proof -
  define capacity where "capacity = adoptCapacity p"
  have c: "length (pbytes p) \<le> capacity"
    by (auto simp: capacity_def adoptCapacity_def Let_def split: option.splits)
  show ?thesis
  proof (cases "scap (owned p) < capacity")
    case True
    then have "0 < capacity" by linarith
    note g = Get_lease [OF this, of "Put (pool p) (owned p)"]
    define l where "l = Put (pool p) (owned p)"
    have l: "leases_ok l" unfolding l_def using assms(1) by (intro Put_ok) (auto simp: pool_ok_def)
    define s where "s = snd (Get l (int capacity))"
    have "fst (Get l (int capacity)) = l\<lparr>opened := Suc (opened l)\<rparr>" using g(1) unfolding l_def by (metis fst_conv)
    then have "adoptOwned p = p\<lparr>pool := l\<lparr>opened := Suc (opened l)\<rparr>, owned := s\<lparr>sbytes := pbytes p\<rparr>, buffer := s\<lparr>sbytes := pbytes p\<rparr>,
        borrowedBuffer := False\<rparr>"
      using True by (simp add: adoptOwned_def Let_def l_def [symmetric] s_def capacity_def [symmetric])
    moreover have "sid s = Some (opened l)" "capacity \<le> scap s" using g by (simp_all add: l_def s_def)
    moreover have "live l (infl (extra p))" using assms(1) unfolding l_def by (intro live_Put) (simp_all add: pool_ok_def)
    moreover from this have "live (l\<lparr>opened := Suc (opened l)\<rparr>) (infl (extra p))" "apart (infl (extra p)) s"
      using live_open apart_fresh [of l "infl (extra p)" s "opened l"] \<open>sid s = Some (opened l)\<close> by auto
    moreover have "leases_ok (l\<lparr>opened := Suc (opened l)\<rparr>)" "live (l\<lparr>opened := Suc (opened l)\<rparr>) s"
      using l \<open>sid s = Some (opened l)\<close> by (auto simp: leases_ok_def live_def)
    ultimately show ?thesis using c by (simp add: pool_ok_def)
  next
    case False
    then show ?thesis using assms c by (auto simp: pool_ok_def adoptOwned_def Let_def capacity_def [symmetric])
  qed
qed

lemma takeTail_pool: "pool_ok p \<Longrightarrow> pool_ok (takeTail p)"
  unfolding takeTail_def by (auto simp: pool_ok_def live_def)

lemma dropExtra_pool: "pool_ok p \<Longrightarrow> pool_ok (dropExtra p)"
  by (simp add: dropExtra_def pool_ok_extra releaseInflated_pool)

lemma failParser_pool: "pool_ok p \<Longrightarrow> pool_ok (failParser p)"
  by (simp add: failParser_def dropExtra_pool pool_ok_release(2) pool_ok_unborrow)


subsection \<open>Frames and reads\<close>

lemma extra_kept [simp]: "infl (extra (consume n p)) = infl (extra p)" "infl (extra (snd (takeChecked p))) = infl (extra p)"
  by (simp_all add: takeChecked_def split: option.split)

lemma checkPartialText_pool: "pool_ok p \<Longrightarrow> pool_ok (fst (checkPartialText p a k))"
  by (auto simp: checkPartialText_def Let_def pool_ok_extra split: prod.split)

lemma finishControl_pool: "pool_ok p \<Longrightarrow> pool_ok (fst (finishControl b p oc pl n))"
  by (simp add: finishControl_def finishFrame_pool)

lemma finishData_pool:
  assumes "pool_ok p"
  shows "pool_ok (fst (finishData fl b p oc fin c t ch pl n))"
proof (cases "fin \<and> c")
  case True
  obtain q r where i: "inflate fl p pl b = (q, r)" by fastforce
  note inflate_pool [OF assms i]
  then show ?thesis using True i by (cases r) (auto simp: finishData_def finishFrame_pool)
next
  case False
  then show ?thesis using assms
    by (auto simp: finishData_def Let_def pool_ok_extra finishFrame_pool consume_pool split: prod.split option.split)
qed

lemma finishContinuation_pool:
  assumes "pool_ok p"
  shows "pool_ok (fst (finishContinuation fl b p f fin t ch pl n))"
proof -
  obtain v ok where v: "(if t then uwrite (utext (moreExtra p)) (drop ch pl) else (utext (moreExtra p), True)) = (v, ok)" by fastforce
  define e where "e = (moreExtra p)\<lparr>utext := v\<rparr>"
  define f' where "f' = f\<lparr>fmData := fmData f @ pl\<rparr>"
  define q where "q = consume n (p\<lparr>extra := Some (e\<lparr>fragment := Some f'\<rparr>)\<rparr>)"
  have e: "inflated e = infl (extra p)" by (simp add: e_def)
  have q: "pool_ok q" using assms by (simp add: q_def consume_pool pool_ok_extra e)
  obtain q' r where i: "inflate fl q (fmData f') b = (q', r)" by fastforce
  note q' = inflate_pool [OF q i]
  have keep: "pool_ok (q\<lparr>extra := Some ((moreExtra q)\<lparr>utext := u, fragment := None\<rparr>)\<rparr>)" if "pool_ok q" for q u
    using that by (simp add: pool_ok_extra)
  show ?thesis
  proof (cases "t \<and> (\<not> ok \<or> fin \<and> \<not> complete v)")
    case True
    then show ?thesis unfolding finishContinuation_def Let_def v prod.case e_def [symmetric]
      using assms e by (auto simp: pool_ok_extra)
  next
    case False
    then show ?thesis unfolding finishContinuation_def Let_def v prod.case e_def [symmetric] f'_def [symmetric] q_def [symmetric] i
      using assms e q q' keep by (cases r) (auto simp: pool_ok_extra finishFrame_pool)
  qed
qed

lemma next_pool:
  assumes "pool_ok p" and "next_frame fl b p = (q, r)"
  shows "pool_ok q"
proof (cases "frameHead (cfg p) (fragmentOf p) (pbytes p)")
  case (Head first n off key t)
  note facts = frameHead_facts [OF Head]
  show ?thesis
  proof (cases "length (pbytes p) - off < n")
    case True
    then show ?thesis using assms Head checkPartialText_pool [OF assms(1), of "drop off (pbytes p)" key]
      by (auto simp: next_frame_def split: if_splits prod.splits)
  next
    case False
    let ?pl = "unmaskPayload key (take n (drop off (pbytes p)))"
    let ?q = "lendPayload b (snd (takeChecked p)) off ?pl"
    have tf: "takeFrame fl b p first n off key t = (q, r)" using assms(2) Head False by (simp add: next_frame_def)
    have len: "off + length ?pl \<le> length (pbytes p)" using False facts(2) length_unmask [OF facts(5)] by simp
    have "slen (buffer ?q) = slen (buffer p)" using lendPayload_bytes(1) [of off ?pl "snd (takeChecked p)" b] len by simp
    then have ok: "pool_ok ?q" using assms(1) by (intro pool_ok_cong [OF _ _ _ _ _ _ _ assms(1)]) (simp_all add: pool_ok_def)
    note fin = finishControl_pool [OF ok] finishData_pool [OF ok] finishContinuation_pool [OF ok]
    have "pool_ok (fst (takeFrame fl b p first n off key t))"
      using ok fin unfolding takeFrame_def Let_def case_prod_unfold takeChecked_simps by (simp split: option.split)
    then show ?thesis using tf by simp
  qed
qed (use assms in \<open>auto simp: next_frame_def\<close>)

lemma feedLoop_pool: "pool_ok p \<Longrightarrow> pool_ok (fst (feedLoop fl b p))"
proof (induction fl b p rule: feedLoop.induct)
  case (1 fl b p)
  obtain p' r where nf: "next_frame fl b p = (p', r)" by fastforce
  note ok = next_pool [OF 1(3) nf]
  show ?case
    using ok 1(1) [OF nf [symmetric]] 1(2) [OF nf [symmetric]] nf
    by (cases r) (auto simp: feedLoop.simps [of fl b p] failParser_pool adopt_pool takeTail_pool)
qed

lemma feedInput_pool:
  assumes "pool_ok p"
  shows "pool_ok (feedInput p data b)"
proof -
  have lok: "leases_ok (pool q)" "live (pool q) (buffer q)" "slen (buffer q) \<le> scap (buffer q)" if "pool_ok q" for q
    using that by (simp_all add: pool_ok_def)
  consider "b \<and> pbytes p = [] \<and> data \<noteq> []"
    | "\<not> (b \<and> pbytes p = [] \<and> data \<noteq> [])" "b \<and> \<not> borrowedBuffer p \<and> pbytes p \<noteq> [] \<and> data \<noteq> []"
    | "\<not> (b \<and> pbytes p = [] \<and> data \<noteq> [])" "\<not> (b \<and> \<not> borrowedBuffer p \<and> pbytes p \<noteq> [] \<and> data \<noteq> [])" by blast
  then show ?thesis
  proof cases
    case 1
    then show ?thesis using assms by (simp add: feedInput_def pool_ok_lent)
  next
    case 2
    obtain l s tail where a: "appendCurrentFrame (pool p) (buffer p) data = (l, s, tail)" by (metis prod_cases3)
    note g = appendCurrentFrame_grown [OF lok(1,2) [OF assms] a]
    have "slen s \<le> scap s" using appendCurrentFrame_fits [OF lok(3) [OF assms] a] .
    with 2 have "pool_ok (keepOwned (p\<lparr>pool := l, buffer := s\<rparr>))" by (intro keepOwned_pool [OF g assms]) simp_all
    moreover have "feedInput p data b = (keepOwned (p\<lparr>pool := l, buffer := s\<rparr>))\<lparr>borrowedTail := tail\<rparr>"
      using 2 a by (auto simp: feedInput_def keepOwned_def)
    ultimately show ?thesis by simp
  next
    case 3
    define p1 where "p1 = (if borrowedBuffer p \<and> data \<noteq> [] then adoptOwned p else p)"
    have p1: "pool_ok p1" "borrowedBuffer p1 \<Longrightarrow> data = []" using assms by (auto simp: p1_def adopt_pool split: if_splits)
    obtain l s where a: "AppendPool (pool p1) (buffer p1) data = (l, s)" by fastforce
    note g = AppendPool_grown [OF lok(1,2) [OF p1(1)] a]
    have "slen s \<le> scap s" using AppendPool_fits [OF lok(3) [OF p1(1)], of data "pool p1"] a
      AppendPool_bytes [of "pool p1" "buffer p1" data] by simp
    moreover have "borrowedBuffer p1 \<longrightarrow> l = pool p1 \<and> sid s = None"
      using p1 a lok(3) [OF p1(1)] by (auto simp: AppendPool_def Grow_def pool_ok_def)
    ultimately have "pool_ok (keepOwned (p1\<lparr>pool := l, buffer := s\<rparr>))" using keepOwned_pool [OF g p1(1)] by blast
    moreover have "feedInput p data b = keepOwned (p1\<lparr>pool := l, buffer := s\<rparr>)"
      using 3 a unfolding feedInput_def p1_def by (auto simp: Let_def)
    ultimately show ?thesis by simp
  qed
qed


lemma feedOne_pool: "pool_ok p \<Longrightarrow> pool_ok (fst (feedOne fl p data b))"
  by (simp add: feedOne_split feedLoop_pool feedInput_pool feedStart_def Let_def applyPending_pool takeTail_pool)

lemma ReleaseBorrowed_pool:
  assumes "pool_ok p"
  shows "pool_ok (ReleaseBorrowed p)"
proof -
  define q where "q = releaseInflated ((applyPending p)\<lparr>borrowedTail := []\<rparr>)"
  have "pool_ok q" using applyPending_pool [OF assms] by (simp add: q_def releaseInflated_pool)
  then show ?thesis unfolding ReleaseBorrowed_def Let_def q_def [symmetric]
    by (simp add: pool_ok_lent pool_ok_release(2) split: if_split)
qed

lemma Reset_pool:
  assumes "pool_ok p"
  shows "pool_ok (Reset p)"
proof -
  define q where "q = (if borrowedBuffer p then p\<lparr>buffer := nilSlice\<rparr> else p\<lparr>buffer := (buffer p)\<lparr>sbytes := []\<rparr>\<rparr>)"
  have "pool_ok q" using assms by (simp add: q_def pool_ok_buffer pool_ok_shrink)
  then have "pool_ok ((dropExtra q)\<lparr>pendingConsume := 0, borrowedBuffer := False, borrowedTail := []\<rparr>)"
    using pool_ok_unborrow [of "(dropExtra q)\<lparr>pendingConsume := 0\<rparr>"] dropExtra_pool by simp
  then show ?thesis unfolding Reset_def Let_def q_def [symmetric] by (simp add: pool_ok_release(2) split: if_split)
qed

text \<open>Any use of a parser: reads lent or copied, releases and resets, in any order.\<close>

datatype parser_op = OpFeed bool bytes | OpRelease | OpReset

fun runOp :: "flate \<Rightarrow> Parser \<Rightarrow> parser_op \<Rightarrow> Parser" where
  "runOp fl p (OpFeed b data) = fst (feedOne fl p data b)"
| "runOp fl p OpRelease = ReleaseBorrowed p"
| "runOp fl p OpReset = Reset p"

definition noLeases :: leases where
  "noLeases = \<lparr>opened = 0, ended = []\<rparr>"

lemma run_pool: "pool_ok p \<Longrightarrow> pool_ok (foldl (runOp fl) p ops)"
proof (induction ops arbitrary: p)
  case (Cons op ops)
  then have "pool_ok (runOp fl p op)" by (cases op) (simp_all add: feedOne_pool ReleaseBorrowed_pool Reset_pool)
  with Cons.IH show ?case by simp
qed simp

text \<open>
  C25. Over any use of a parser, no buffer is put into the pool twice, and none the parser or its caller
  still uses has been put there: neither the buffer that holds the unparsed bytes, with the payload last
  lent to the caller, nor the array kept for the next partial frame, nor the array a lent message was
  inflated into, which is never one of the other two.
\<close>

theorem parser_pool_safe:
  "let p = foldl (runOp fl) (parserFor noLeases m s f d t) ops in
   distinct (ended (pool p)) \<and> live (pool p) (buffer p) \<and> live (pool p) (owned p) \<and>
   live (pool p) (infl (extra p)) \<and> apart (infl (extra p)) (buffer p) \<and> apart (infl (extra p)) (owned p)"
proof -
  have "pool_ok (parserFor noLeases m s f d t)"
    by (simp add: parserFor_def SetPerFrame_def NewServerFrameParser_def NewParser_def pool_ok_def noLeases_def leases_ok_def)
  from run_pool [OF this, of fl ops] show ?thesis by (simp add: pool_ok_def leases_ok_def Let_def)
qed

end
