(* ===== verification/Ws_Deflate.thy ===== *)
theory Ws_Deflate
  imports Ws_Frame Hpack_Tables
begin

text \<open>
  The negotiation of permessage-deflate in \<^verbatim>\<open>websocket/deflate.go\<close>, with the tokens of
  \<^verbatim>\<open>websocket/token.go\<close>: the parser of Sec-WebSocket-Extensions values, what a server answers to the
  offers of a client, what a client makes of a server's answer, and how a message to compress is cut
  to the window agreed. The DEFLATE compressor itself (\<^verbatim>\<open>compress/flate\<close>) is an argument. \<^verbatim>\<open>strings\<close> and
  \<^verbatim>\<open>strconv\<close> are modelled on bytes: the sets of characters searched for are all ASCII.
\<close>

subsection \<open>Tokens\<close>

definition separators :: bytes where
  "separators = str ''()<>@,;:'' @ [0x5c, 0x22] @ str ''/[]?={} '' @ [9]"

definition validTokenBytes :: "bytes \<Rightarrow> bool" where
  "validTokenBytes val =
     (val \<noteq> [] \<and> list_all (\<lambda>c. \<not> (c < 0x21 \<or> c > 0x7e \<or> c \<in> set separators)) val)"

definition validToken :: "bytes \<Rightarrow> bool" where "validToken val = validTokenBytes val"

subsection \<open>The parser of extensions\<close>

record extensionParam =
  epName :: bytes
  epValue :: bytes
  epHasValue :: bool

definition blank :: "byte \<Rightarrow> bool" where "blank c \<longleftrightarrow> c = 0x20 \<or> c = 9"

text \<open>\<^verbatim>\<open>strings.TrimLeft\<close> of spaces and tabs, and a string cut where \<^verbatim>\<open>strings.IndexAny\<close> finds one of the characters.\<close>

definition trimLeft :: "bytes \<Rightarrow> bytes" where "trimLeft val = dropWhile blank val"

definition cutAny :: "bytes \<Rightarrow> bytes \<Rightarrow> bytes \<times> bytes" where
  "cutAny chars val = (takeWhile (\<lambda>c. c \<notin> set chars) val, dropWhile (\<lambda>c. c \<notin> set chars) val)"

text \<open>The quoted string of \<^verbatim>\<open>parseParamValue\<close>, after its opening quote.\<close>

fun unquote :: "bytes \<Rightarrow> bytes \<Rightarrow> bytes \<times> bytes \<times> bool" where
  "unquote unquoted [] = ([], [], False)"
| "unquote unquoted (c # rest) =
     (if c = 0x22 then (unquoted, rest, validToken unquoted)
      else if c = 0x5c then (case rest of [] \<Rightarrow> ([], [], False) | d # rest \<Rightarrow> unquote (unquoted @ [d]) rest)
      else unquote (unquoted @ [c]) rest)"

definition parseParamValue :: "bytes \<Rightarrow> bytes \<times> bytes \<times> bool" where
  "parseParamValue val =
     (if val \<noteq> [] \<and> hd val = 0x22 then unquote [] (tl val)
      else (let (v, rest) = cutAny (str '',; '' @ [9]) val in (v, rest, validToken v)))"

lemma unquote_length: "length (fst (snd (unquote acc val))) \<le> length val"
proof (induction acc val rule: unquote.induct)
  case (2 acc c rest)
  show ?case
  proof (cases "c = 0x22 \<or> (c = 0x5c \<and> rest = [])")
    case False
    show ?thesis
    proof (cases "c = 0x5c")
      case True
      then obtain d rest' where r: "rest = d # rest'" using False by (cases rest) auto
      have "length (fst (snd (unquote (acc @ [d]) rest'))) \<le> length rest'" using "2.IH"(1) True r by auto
      then show ?thesis using True r by simp
    next
      case c: False
      then have "length (fst (snd (unquote (acc @ [c]) rest))) \<le> length rest" using "2.IH"(2) False by simp
      then show ?thesis using False c by simp
    qed
  qed auto
qed simp

lemma parseParamValue_length [consumes]: "parseParamValue val = (v, rest, valid) \<Longrightarrow> length rest \<le> length val"
proof -
  assume a: "parseParamValue val = (v, rest, valid)"
  show ?thesis
  proof (cases "val \<noteq> [] \<and> hd val = 0x22")
    case True
    then have "unquote [] (tl val) = (v, rest, valid)" using a by (simp add: parseParamValue_def)
    then show ?thesis using unquote_length [of "[]" "tl val"] by simp
  next
    case False
    then have "rest = dropWhile (\<lambda>c. c \<notin> set (str '',; '' @ [9])) val" using a unfolding parseParamValue_def cutAny_def by auto
    then show ?thesis by (simp add: length_dropWhile_le del: set_append)
  qed
qed

lemma trimLeft_length [consumes]: "length (trimLeft val) \<le> length val"
  by (simp add: trimLeft_def length_dropWhile_le)

lemma cutAny_length [consumes]: "cutAny cs val = (a, b) \<Longrightarrow> length b \<le> length val"
  by (auto simp: cutAny_def length_dropWhile_le)

text \<open>One parameter, as each round of the inner loop of \<^verbatim>\<open>parseExtensions\<close> reads it; \<open>first\<close> is whether it is the extension's name.\<close>

definition parseParam :: "bool \<Rightarrow> bytes \<Rightarrow> (extensionParam \<times> bytes) option" where
  "parseParam first val =
     (let (name, val) = cutAny (str '',;= '' @ [9]) (trimLeft val); val = trimLeft val in
      if \<not> validToken name then None
      else if val \<noteq> [] \<and> hd val = 0x3d then
        if first then None
        else
          (case parseParamValue (trimLeft (tl val)) of
             (v, val, valid) \<Rightarrow>
               if valid then Some (\<lparr>epName = name, epValue = v, epHasValue = True\<rparr>, trimLeft val) else None)
      else Some (\<lparr>epName = name, epValue = [], epHasValue = False\<rparr>, val))"

lemma parseParam_length [consumes]: "parseParam first val = Some (p, rest) \<Longrightarrow> length rest \<le> length val"
proof -
  assume a: "parseParam first val = Some (p, rest)"
  obtain name v1 where c: "cutAny (str '',;= '' @ [9]) (trimLeft val) = (name, v1)" by fastforce
  have v1: "length (trimLeft v1) \<le> length val" using cutAny_length [OF c] trimLeft_length [of val] trimLeft_length [of v1] by linarith
  show ?thesis
  proof (cases "trimLeft v1 \<noteq> [] \<and> hd (trimLeft v1) = 0x3d")
    case True
    obtain v v2 valid where p: "parseParamValue (trimLeft (tl (trimLeft v1))) = (v, v2, valid)" by (metis prod_cases3)
    have r: "rest = trimLeft v2" using a c p True by (auto simp: parseParam_def Let_def split: if_splits)
    have "length (trimLeft (tl (trimLeft v1))) \<le> length (trimLeft v1)" using trimLeft_length [of "tl (trimLeft v1)"] by simp
    then show ?thesis unfolding r using parseParamValue_length [OF p] trimLeft_length [of v2] v1 by linarith
  next
    case False
    then have "rest = trimLeft v1" using a c by (auto simp: parseParam_def Let_def split: if_splits)
    then show ?thesis using v1 by simp
  qed
qed

function parseExtension :: "extensionParam list \<Rightarrow> bytes \<Rightarrow> (extensionParam list \<times> bytes) option" where
  "parseExtension extension val =
     (case parseParam (extension = []) val of
        None \<Rightarrow> None
      | Some (param, []) \<Rightarrow> Some (extension @ [param], [])
      | Some (param, c # val) \<Rightarrow>
          if c = 0x2c then Some (extension @ [param], c # val)
          else if c \<noteq> 0x3b then None
          else parseExtension (extension @ [param]) val)"
  by pat_completeness auto
termination
  by (relation "measure (\<lambda>(e, v). length v)") (auto dest: parseParam_length)

declare parseExtension.simps [simp del]

lemma parseExtension_length [consumes]:
  "parseExtension extension val = Some (e, rest) \<Longrightarrow> length rest \<le> length val \<and> e \<noteq> []"
proof (induction extension val rule: parseExtension.induct)
  case (1 extension val)
  obtain param v where p: "parseParam (extension = []) val = Some (param, v)"
    using "1.prems" unfolding parseExtension.simps [of extension val] by (auto split: option.splits)
  note len = parseParam_length [OF p]
  show ?case
  proof (cases v)
    case Nil
    then show ?thesis using "1.prems" p len unfolding parseExtension.simps [of extension val] by auto
  next
    case (Cons c v')
    show ?thesis
    proof (cases "c = 0x2c \<or> c \<noteq> 0x3b")
      case True
      then show ?thesis using "1.prems" p len Cons unfolding parseExtension.simps [of extension val] by (auto split: if_splits)
    next
      case False
      then have "parseExtension (extension @ [param]) v' = Some (e, rest)"
        using "1.prems" p Cons unfolding parseExtension.simps [of extension val] by simp
      with "1.IH" [OF p refl Cons] False have "length rest \<le> length v' \<and> e \<noteq> []" by blast
      then show ?thesis using len Cons by simp
    qed
  qed
qed

text \<open>The extensions of one header value, and of all of them.\<close>

function parseValue :: "bytes \<Rightarrow> extensionParam list list option" where
  "parseValue val =
     (if val = [] then Some []
      else
        (case parseExtension [] val of
           None \<Rightarrow> None
         | Some (extension, []) \<Rightarrow> Some [extension]
         | Some (extension, _ # val) \<Rightarrow>
             if trimLeft val = [] then None
             else (case parseValue val of None \<Rightarrow> None | Some extensions \<Rightarrow> Some (extension # extensions))))"
  by pat_completeness auto
termination
  by (relation "measure length") (auto dest: parseExtension_length)

declare parseValue.simps [simp del]

fun parseExtensions :: "bytes list \<Rightarrow> extensionParam list list option" where
  "parseExtensions [] = Some []"
| "parseExtensions (val # vals) =
     (case parseValue val of
        None \<Rightarrow> None
      | Some extensions \<Rightarrow>
          (case parseExtensions vals of None \<Rightarrow> None | Some others \<Rightarrow> Some (extensions @ others)))"

lemma parseValue_nonempty: "parseValue val = Some es \<Longrightarrow> e \<in> set es \<Longrightarrow> e \<noteq> []"
proof (induction val arbitrary: es rule: parseValue.induct)
  case (1 val)
  then obtain x rest where x: "parseExtension [] val = Some (x, rest)"
    unfolding parseValue.simps [of val] by (auto split: if_splits option.splits)
  have ne: "x \<noteq> []" using parseExtension_length [OF x] by simp
  show ?case
  proof (cases rest)
    case Nil
    then show ?thesis using "1.prems" x ne unfolding parseValue.simps [of val] by (auto split: if_splits)
  next
    case (Cons c val')
    then obtain es' where "parseValue val' = Some es'" "es = x # es'" "trimLeft val' \<noteq> []" "val \<noteq> []"
      using "1.prems" x unfolding parseValue.simps [of val] by (auto split: if_splits option.splits)
    then show ?thesis using "1.IH" [OF _ x refl Cons, of es'] "1.prems"(2) ne by auto
  qed
qed

text \<open>An extension is never empty, so its name is there.\<close>

lemma parseExtensions_nonempty: "parseExtensions vals = Some es \<Longrightarrow> e \<in> set es \<Longrightarrow> e \<noteq> []"
proof (induction vals arbitrary: es)
  case (Cons val vals)
  then obtain a b where "parseValue val = Some a" "parseExtensions vals = Some b" "es = a @ b" by (auto split: option.splits)
  then show ?case using Cons.IH Cons.prems(2) parseValue_nonempty by auto
qed simp

subsection \<open>Windows\<close>

definition maxWindowBits :: int where "maxWindowBits = 15"
definition minWindowBits :: int where "minWindowBits = 8"

definition isDigit :: "byte \<Rightarrow> bool" where "isDigit c \<longleftrightarrow> 0x30 \<le> c \<and> c \<le> 0x39"

text \<open>\<^verbatim>\<open>strconv.Atoi\<close>: a sign is allowed, and so are leading zeros.\<close>

definition decimal :: "bytes \<Rightarrow> nat" where
  "decimal ds = foldl (\<lambda>n d. n * 10 + unat (d - 0x30)) 0 ds"

definition atoi :: "bytes \<Rightarrow> int option" where
  "atoi s =
     (let neg = (s \<noteq> [] \<and> hd s = 0x2d); ds = (if s \<noteq> [] \<and> (hd s = 0x2d \<or> hd s = 0x2b) then tl s else s) in
      if ds = [] \<or> \<not> list_all isDigit ds then None
      else if neg then (if decimal ds > 2 ^ 63 then None else Some (- int (decimal ds)))
      else (if decimal ds \<ge> 2 ^ 63 then None else Some (int (decimal ds))))"

text \<open>The number \<^verbatim>\<open>parseWindowBits\<close> returns with false is not looked at.\<close>

definition parseWindowBits :: "bytes \<Rightarrow> int option" where
  "parseWindowBits val =
     (if val = [] \<or> hd val = 0x30 then None
      else
        (case atoi val of
           None \<Rightarrow> None
         | Some bits \<Rightarrow> if minWindowBits \<le> bits \<and> bits \<le> maxWindowBits then Some bits else None))"

lemma parseWindowBits_range: "parseWindowBits val = Some b \<Longrightarrow> 8 \<le> b \<and> b \<le> 15"
  by (auto simp: parseWindowBits_def minWindowBits_def maxWindowBits_def split: if_splits option.splits)

text \<open>A plus sign gets past the check of the first digit, and zeros after it too.\<close>

lemma parseWindowBits_plus: "parseWindowBits (str ''+9'') = Some 9" "parseWindowBits (str ''+010'') = Some 10"
  by (simp_all add: parseWindowBits_def atoi_def decimal_def isDigit_def str_def minWindowBits_def maxWindowBits_def Let_def)

subsection \<open>The server's answer\<close>

record deflateParams =
  windowBits :: int
  peerContextTakeover :: bool

definition noParams :: deflateParams where
  "noParams = \<lparr>windowBits = 0, peerContextTakeover = False\<rparr>"

definition deflateExtension :: bytes where "deflateExtension = str ''permessage-deflate''"

text \<open>\<^verbatim>\<open>strconv.Itoa\<close> of a number that is not negative.\<close>

fun itoa :: "nat \<Rightarrow> bytes" where
  "itoa n = (if n < 10 then [0x30 + of_nat n] else itoa (n div 10) @ [0x30 + of_nat (n mod 10)])"

declare itoa.simps [simp del]

text \<open>The loop over the parameters of one offer; \<open>None\<close> goes on to the next offer.\<close>

fun offerParams :: "bytes list \<Rightarrow> deflateParams \<Rightarrow> extensionParam list \<Rightarrow> deflateParams option" where
  "offerParams seen params [] = Some params"
| "offerParams seen params (p # ps) =
     (if epName p \<in> set seen then None
      else
        (let seen = epName p # seen in
         if epName p = str ''server_no_context_takeover'' \<or> epName p = str ''client_no_context_takeover'' then
           if epHasValue p then None
           else offerParams seen
             (if epName p = str ''client_no_context_takeover'' then params\<lparr>peerContextTakeover := False\<rparr> else params) ps
         else if epName p = str ''server_max_window_bits'' then
           (case parseWindowBits (epValue p) of
              None \<Rightarrow> None
            | Some bits \<Rightarrow> offerParams seen (params\<lparr>windowBits := bits\<rparr>) ps)
         else if epName p = str ''client_max_window_bits'' then
           if epHasValue p \<and> parseWindowBits (epValue p) = None then None else offerParams seen params ps
         else None))"

definition offerResponse :: "deflateParams \<Rightarrow> bytes" where
  "offerResponse params =
     deflateExtension @ str ''; server_no_context_takeover'' @
     (if peerContextTakeover params then [] else str ''; client_no_context_takeover'') @
     (if windowBits params = maxWindowBits then [] else str ''; server_max_window_bits='' @ itoa (nat (windowBits params)))"

fun acceptOffers :: "extensionParam list list \<Rightarrow> bytes \<times> deflateParams" where
  "acceptOffers [] = ([], noParams)"
| "acceptOffers (extension # extensions) =
     (if epName (hd extension) \<noteq> deflateExtension \<or> epHasValue (hd extension) then acceptOffers extensions
      else
        (case offerParams [] \<lparr>windowBits = maxWindowBits, peerContextTakeover = True\<rparr> (tl extension) of
           None \<Rightarrow> acceptOffers extensions
         | Some params \<Rightarrow> (offerResponse params, params)))"

definition acceptDeflateOffer :: "bytes list \<Rightarrow> bytes \<times> deflateParams" where
  "acceptDeflateOffer vals =
     (case parseExtensions vals of None \<Rightarrow> ([], noParams) | Some extensions \<Rightarrow> acceptOffers extensions)"

subsection \<open>The client's check of it\<close>

definition deflateOffer :: bytes where
  "deflateOffer = deflateExtension @ str ''; client_no_context_takeover; client_max_window_bits''"

fun responseParams :: "bytes list \<Rightarrow> deflateParams \<Rightarrow> extensionParam list \<Rightarrow> deflateParams option" where
  "responseParams seen params [] = Some params"
| "responseParams seen params (p # ps) =
     (if epName p \<in> set seen then None
      else
        (let seen = epName p # seen in
         if epName p = str ''server_no_context_takeover'' \<or> epName p = str ''client_no_context_takeover'' then
           if epHasValue p then None
           else responseParams seen
             (if epName p = str ''server_no_context_takeover'' then params\<lparr>peerContextTakeover := False\<rparr> else params) ps
         else if epName p = str ''server_max_window_bits'' then
           if parseWindowBits (epValue p) = None then None else responseParams seen params ps
         else if epName p = str ''client_max_window_bits'' then
           (case parseWindowBits (epValue p) of
              None \<Rightarrow> None
            | Some bits \<Rightarrow> responseParams seen (params\<lparr>windowBits := bits\<rparr>) ps)
         else None))"

text \<open>The parameters, whether compression is on, and whether the answer is one a server may give.\<close>

definition acceptDeflateResponse :: "bytes list \<Rightarrow> deflateParams \<times> bool \<times> bool" where
  "acceptDeflateResponse vals =
     (case parseExtensions vals of
        None \<Rightarrow> (noParams, False, False)
      | Some [] \<Rightarrow> (noParams, False, True)
      | Some [extension] \<Rightarrow>
          if epName (hd extension) \<noteq> deflateExtension \<or> epHasValue (hd extension) then (noParams, False, False)
          else
            (case responseParams [] \<lparr>windowBits = maxWindowBits, peerContextTakeover = True\<rparr> (tl extension) of
               None \<Rightarrow> (noParams, False, False)
             | Some params \<Rightarrow> (params, True, True))
      | Some _ \<Rightarrow> (noParams, False, False))"

subsection \<open>The two sides agree\<close>

text \<open>What is written as a list of parameters is read back: a token ends where the next character is none.\<close>

lemma token_facts:
  assumes "validToken n"
  shows "n \<noteq> []" and "c \<in> set n \<Longrightarrow> c \<notin> set separators"
  using assms by (auto simp: validToken_def validTokenBytes_def list_all_iff)

lemma cut_chars: "set (str '',;= '' @ [9]) \<subseteq> set separators" "set (str '',; '' @ [9]) \<subseteq> set separators" "0x20 \<in> set separators"
  "0x22 \<in> set separators" "9 \<in> set separators"
  by (simp_all add: separators_def str_def)

lemma cutAny_token:
  assumes "validToken n" and "set cs \<subseteq> set separators" and "rest = [] \<or> hd rest \<in> set cs"
  shows "cutAny cs (n @ rest) = (n, rest)"
proof -
  have "\<forall>c\<in>set n. c \<notin> set cs" using token_facts(2) [OF assms(1)] assms(2) by blast
  then have "takeWhile (\<lambda>c. c \<notin> set cs) (n @ rest) = n @ takeWhile (\<lambda>c. c \<notin> set cs) rest"
    "dropWhile (\<lambda>c. c \<notin> set cs) (n @ rest) = dropWhile (\<lambda>c. c \<notin> set cs) rest" by simp_all
  moreover have "takeWhile (\<lambda>c. c \<notin> set cs) rest = []" "dropWhile (\<lambda>c. c \<notin> set cs) rest = rest" using assms(3) by (cases rest; simp)+
  ultimately show ?thesis by (simp add: cutAny_def)
qed

lemma trimLeft_token: "validToken n \<Longrightarrow> trimLeft (n @ rest) = n @ rest" "validToken n \<Longrightarrow> trimLeft (0x20 # n @ rest) = n @ rest"
proof -
  assume n: "validToken n"
  then obtain c m where m: "n = c # m" using token_facts(1) by (cases n) auto
  then have "\<not> blank c" using token_facts(2) [OF n, of c] cut_chars(3,5) by (auto simp: blank_def)
  then show "trimLeft (n @ rest) = n @ rest" "trimLeft (0x20 # n @ rest) = n @ rest" by (simp_all add: trimLeft_def m blank_def)
qed

text \<open>The end of a parameter: of the header value, of the extension, or another parameter.\<close>

definition param_end :: "bytes \<Rightarrow> bool" where
  "param_end rest \<longleftrightarrow> rest = [] \<or> hd rest = 0x3b \<or> hd rest = 0x2c"

lemma param_end_facts:
  assumes "param_end rest"
  shows "rest = [] \<or> hd rest \<in> set (str '',;= '' @ [9])" "rest = [] \<or> hd rest \<in> set (str '',; '' @ [9])" "trimLeft rest = rest"
    "rest \<noteq> [] \<Longrightarrow> hd rest \<noteq> 0x3d"
  using assms by (cases rest; auto simp: param_end_def str_def trimLeft_def blank_def)+

lemma parseParam_name:
  assumes "validToken n" and "param_end rest" and "pre = [] \<or> pre = [0x20]"
  shows "parseParam first (pre @ n @ rest) = Some (\<lparr>epName = n, epValue = [], epHasValue = False\<rparr>, rest)"
proof -
  note e = param_end_facts [OF assms(2)]
  have "trimLeft (pre @ n @ rest) = n @ rest" using assms(3) trimLeft_token [OF assms(1)] by auto
  then show ?thesis using assms(1) e(3,4) cutAny_token [OF assms(1) cut_chars(1) e(1)] by (auto simp: parseParam_def Let_def)
qed

lemma parseParam_pair:
  assumes "validToken n" and "validToken v" and "param_end rest"
  shows "parseParam False (0x20 # n @ 0x3d # v @ rest) = Some (\<lparr>epName = n, epValue = v, epHasValue = True\<rparr>, rest)"
proof -
  note e = param_end_facts [OF assms(3)]
  have eq: "0x3d \<in> set (str '',;= '' @ [9])" by (simp add: str_def)
  have c: "cutAny (str '',;= '' @ [9]) (n @ 0x3d # v @ rest) = (n, 0x3d # v @ rest)"
    by (rule cutAny_token [OF assms(1) cut_chars(1)]) (use eq in simp)
  have "v \<noteq> []" "hd (v @ rest) \<noteq> 0x22" using token_facts [OF assms(2)] cut_chars(4) by (cases v; auto)+
  then have v: "parseParamValue (v @ rest) = (v, rest, True)"
    using cutAny_token [OF assms(2) cut_chars(2) e(2)] assms(2) by (simp add: parseParamValue_def)
  have "trimLeft (0x3d # v @ rest) = 0x3d # v @ rest" by (simp add: trimLeft_def blank_def)
  then show ?thesis using assms(1) c v e(3) trimLeft_token [OF assms(1), of "0x3d # v @ rest"] trimLeft_token(1) [OF assms(2), of rest]
    by (simp add: parseParam_def Let_def)
qed

text \<open>Parameters as they are written, each after a semicolon and a space.\<close>

definition paramText :: "extensionParam \<Rightarrow> bytes" where
  "paramText p = epName p @ (if epHasValue p then 0x3d # epValue p else [])"

definition paramsText :: "extensionParam list \<Rightarrow> bytes" where
  "paramsText ps = concat (map (\<lambda>p. 0x3b # 0x20 # paramText p) ps)"

definition param_ok :: "extensionParam \<Rightarrow> bool" where
  "param_ok p \<longleftrightarrow> validToken (epName p) \<and> (if epHasValue p then validToken (epValue p) else epValue p = [])"

lemma paramsText_end: "param_end (paramsText ps)"
  by (cases ps) (simp_all add: paramsText_def param_end_def)

lemma parseParam_text:
  assumes "param_ok p" and "param_end rest"
  shows "parseParam False (0x20 # paramText p @ rest) = Some (p, rest)"
proof (cases "epHasValue p")
  case True
  then show ?thesis using parseParam_pair [of "epName p" "epValue p" rest] assms by (cases p) (simp add: param_ok_def paramText_def)
next
  case False
  then show ?thesis using parseParam_name [of "epName p" rest "[0x20]" False] assms by (cases p) (simp add: param_ok_def paramText_def)
qed

lemma parseExtension_params:
  "list_all param_ok (p # ps) \<Longrightarrow> extension \<noteq> [] \<Longrightarrow>
   parseExtension extension (0x20 # paramText p @ paramsText ps) = Some (extension @ p # ps, [])"
proof (induction ps arbitrary: extension p)
  case Nil
  then show ?case using parseParam_text [of p "[]"]
    by (simp add: parseExtension.simps [of extension] paramsText_def param_end_def)
next
  case (Cons q ps)
  have "parseParam False (0x20 # paramText p @ paramsText (q # ps)) = Some (p, paramsText (q # ps))"
    using Cons.prems(1) by (intro parseParam_text paramsText_end) simp
  moreover have "paramsText (q # ps) = 0x3b # 0x20 # paramText q @ paramsText ps" by (simp add: paramsText_def)
  ultimately show ?case using Cons.IH [of q "extension @ [p]"] Cons.prems
    by (simp add: parseExtension.simps [of extension])
qed

lemma parseExtensions_text:
  assumes "validToken n" and "list_all param_ok ps"
  shows "parseExtensions [n @ paramsText ps] = Some [\<lparr>epName = n, epValue = [], epHasValue = False\<rparr> # ps]"
proof -
  let ?e = "\<lparr>epName = n, epValue = [], epHasValue = False\<rparr>"
  have h: "parseParam True (n @ paramsText ps) = Some (?e, paramsText ps)"
    using parseParam_name [OF assms(1) paramsText_end, of "[]" True ps] by simp
  have "parseExtension [] (n @ paramsText ps) = Some (?e # ps, [])"
  proof (cases ps)
    case Nil
    then show ?thesis using h by (simp add: parseExtension.simps [of "[]"] paramsText_def)
  next
    case (Cons p qs)
    then have "paramsText ps = 0x3b # 0x20 # paramText p @ paramsText qs" by (simp add: paramsText_def)
    then show ?thesis using h parseExtension_params [of p qs "[?e]"] assms(2) Cons by (simp add: parseExtension.simps [of "[]"])
  qed
  moreover have "n @ paramsText ps \<noteq> []" using token_facts(1) [OF assms(1)] by simp
  ultimately show ?thesis by (simp add: parseValue.simps)
qed

text \<open>What a server answers, as parameters.\<close>

definition flag :: "bytes \<Rightarrow> extensionParam" where
  "flag n = \<lparr>epName = n, epValue = [], epHasValue = False\<rparr>"

definition responseList :: "deflateParams \<Rightarrow> extensionParam list" where
  "responseList params =
     [flag (str ''server_no_context_takeover'')] @
     (if peerContextTakeover params then [] else [flag (str ''client_no_context_takeover'')]) @
     (if windowBits params = maxWindowBits then []
      else [\<lparr>epName = str ''server_max_window_bits'', epValue = itoa (nat (windowBits params)), epHasValue = True\<rparr>])"

lemma offerResponse_text: "offerResponse params = deflateExtension @ paramsText (responseList params)"
  by (simp add: offerResponse_def responseList_def paramsText_def paramText_def flag_def str_def)

lemma window_cases: "8 \<le> w \<Longrightarrow> w \<le> 15 \<Longrightarrow> w = 8 \<or> w = 9 \<or> w = 10 \<or> w = 11 \<or> w = 12 \<or> w = 13 \<or> w = 14 \<or> w = (15 :: int)"
  by presburger

lemma window_written:
  assumes "8 \<le> w" and "w \<le> 15"
  shows "validToken (itoa (nat w))" and "parseWindowBits (itoa (nat w)) = Some w"
  using window_cases [OF assms]
  by (elim disjE; simp add: itoa.simps validToken_def validTokenBytes_def separators_def str_def parseWindowBits_def atoi_def
      decimal_def isDigit_def minWindowBits_def maxWindowBits_def)+

lemma tokens: "validToken deflateExtension" "validToken (str ''server_no_context_takeover'')"
  "validToken (str ''client_no_context_takeover'')" "validToken (str ''server_max_window_bits'')"
  by (simp_all add: validToken_def validTokenBytes_def separators_def str_def deflateExtension_def)

lemma offerParams_window:
  "offerParams seen params ps = Some q \<Longrightarrow> 8 \<le> windowBits params \<Longrightarrow> windowBits params \<le> 15 \<Longrightarrow> 8 \<le> windowBits q \<and> windowBits q \<le> 15"
proof (induction ps arbitrary: seen params)
  case (Cons p ps)
  consider (flag) b where "offerParams (epName p # seen) (if b then params\<lparr>peerContextTakeover := False\<rparr> else params) ps = Some q"
    | (bits) w where "parseWindowBits (epValue p) = Some w" "offerParams (epName p # seen) (params\<lparr>windowBits := w\<rparr>) ps = Some q"
  proof (cases "epName p = str ''server_max_window_bits'' \<and> epName p \<noteq> str ''server_no_context_takeover'' \<and> epName p \<noteq> str ''client_no_context_takeover''")
    case True
    then show ?thesis using Cons.prems(1) that(2) by (auto split: if_splits option.splits)
  next
    case False
    then have "offerParams (epName p # seen) (params\<lparr>peerContextTakeover := False\<rparr>) ps = Some q \<or> offerParams (epName p # seen) params ps = Some q"
      using Cons.prems(1) by (auto simp: Let_def split: if_splits)
    then show ?thesis using that(1) [of True] that(1) [of False] by auto
  qed
  then show ?case
  proof cases
    case (flag b)
    then show ?thesis using Cons.IH Cons.prems(2,3) by (cases b) fastforce+
  next
    case (bits w)
    then show ?thesis using Cons.IH [OF bits(2)] parseWindowBits_range [OF bits(1)] by simp
  qed
qed simp

lemma acceptOffers_window:
  "acceptOffers es = (r, q) \<Longrightarrow> r \<noteq> [] \<Longrightarrow> r = offerResponse q \<and> 8 \<le> windowBits q \<and> windowBits q \<le> 15"
proof (induction es)
  case (Cons e es)
  show ?case
  proof (cases "acceptOffers (e # es) = acceptOffers es")
    case True
    then show ?thesis using Cons by simp
  next
    case False
    then obtain q' where "offerParams [] \<lparr>windowBits = maxWindowBits, peerContextTakeover = True\<rparr> (tl e) = Some q'"
      "acceptOffers (e # es) = (offerResponse q', q')" by (auto split: if_splits option.splits)
    moreover from this have "r = offerResponse q'" "q = q'" using Cons.prems(1) by (simp_all del: acceptOffers.simps)
    ultimately show ?thesis using offerParams_window [of "[]" "\<lparr>windowBits = maxWindowBits, peerContextTakeover = True\<rparr>" "tl e" q']
      by (simp add: maxWindowBits_def del: acceptOffers.simps)
  qed
qed simp

lemma responseList_ok:
  assumes "8 \<le> windowBits q" and "windowBits q \<le> 15"
  shows "list_all param_ok (responseList q)"
    and "responseParams [] \<lparr>windowBits = maxWindowBits, peerContextTakeover = True\<rparr> (responseList q) =
      Some \<lparr>windowBits = maxWindowBits, peerContextTakeover = False\<rparr>"
  using tokens window_written [OF assms] by (simp_all add: responseList_def param_ok_def flag_def str_def)

text \<open>
  Whatever a client offers, a server that accepts answers with a window between 8 and 15 bits, and its
  answer is one the client side takes: as what it is, with no limit on the client's own window and a
  server that keeps no context. So neither side of this package refuses the other, and a server that
  declines answers nothing.
\<close>

lemma deflate_negotiated:
  assumes "acceptDeflateOffer vals = (response, q)" and "response \<noteq> []"
  shows "8 \<le> windowBits q \<and> windowBits q \<le> 15 \<and>
    parseExtensions [response] = Some [flag deflateExtension # responseList q] \<and>
    acceptDeflateResponse [response] = (\<lparr>windowBits = maxWindowBits, peerContextTakeover = False\<rparr>, True, True)"
proof -
  obtain es where "acceptOffers es = (response, q)" using assms by (auto simp: acceptDeflateOffer_def split: option.splits)
  then have q: "response = offerResponse q" "8 \<le> windowBits q" "windowBits q \<le> 15" using acceptOffers_window assms(2) by blast+
  note ok = responseList_ok [OF q(2,3)]
  have "parseExtensions [response] = Some [flag deflateExtension # responseList q]"
    unfolding q(1) offerResponse_text flag_def by (rule parseExtensions_text [OF tokens(1) ok(1)])
  then show ?thesis using ok(2) q by (simp add: acceptDeflateResponse_def flag_def del: parseExtensions.simps)
qed

lemma deflate_own_offer:
  "acceptDeflateOffer [deflateOffer] =
     (offerResponse \<lparr>windowBits = maxWindowBits, peerContextTakeover = False\<rparr>, \<lparr>windowBits = maxWindowBits, peerContextTakeover = False\<rparr>)"
proof -
  let ?ps = "[flag (str ''client_no_context_takeover''), flag (str ''client_max_window_bits'')]"
  have t: "validToken (str ''client_max_window_bits'')" by (simp add: validToken_def validTokenBytes_def separators_def str_def)
  have "deflateOffer = deflateExtension @ paramsText ?ps"
    by (simp add: deflateOffer_def paramsText_def paramText_def flag_def str_def)
  then have "parseExtensions [deflateOffer] = Some [flag deflateExtension # ?ps]"
    using parseExtensions_text [OF tokens(1), of ?ps] t tokens(3) by (simp add: param_ok_def flag_def)
  then show ?thesis by (simp add: acceptDeflateOffer_def flag_def str_def del: parseExtensions.simps)
qed

subsection \<open>Compressing within the window\<close>

text \<open>
  The pieces \<^verbatim>\<open>compressMessage\<close> gives to a fresh compressor each, at least one. With bytes left a piece is
  never empty, since its length is that of the payload or a power of two.
\<close>

function cutPieces :: "nat \<Rightarrow> bytes \<Rightarrow> bytes list" where
  "cutPieces chunk payload =
     (let piece = (if length payload > chunk then take chunk payload else payload); payload = drop (length piece) payload in
      piece # (if payload = [] \<or> piece = [] then [] else cutPieces chunk payload))"
  by pat_completeness auto
termination
  by (relation "measure (\<lambda>(chunk, payload). length payload)") (auto split: if_splits)

declare cutPieces.simps [simp del]

text \<open>\<open>deflated\<close> is what a fresh compressor writes for a piece and a flush.\<close>

definition compressMessage :: "(bytes \<Rightarrow> bytes) \<Rightarrow> bytes \<Rightarrow> int \<Rightarrow> bytes" where
  "compressMessage deflated payload bits =
     (let chunk = (if bits < maxWindowBits then 2 ^ nat bits else length payload);
          out = concat (map deflated (cutPieces chunk payload)) in
      take (length out - 4) out)"

lemma cutPieces_ok:
  "0 < chunk \<or> payload = [] \<Longrightarrow> concat (cutPieces chunk payload) = payload \<and> (\<forall>p\<in>set (cutPieces chunk payload). length p \<le> chunk)"
proof (induction chunk payload rule: cutPieces.induct)
  case (1 chunk payload)
  show ?case
  proof (cases "length payload > chunk")
    case True
    then have c: "0 < chunk" "payload \<noteq> []" using "1.prems" by auto
    then have "cutPieces chunk payload = take chunk payload # cutPieces chunk (drop chunk payload)"
      using True by (simp add: cutPieces.simps [of chunk payload] Let_def min_absorb2)
    moreover have "concat (cutPieces chunk (drop chunk payload)) = drop chunk payload \<and>
        (\<forall>p\<in>set (cutPieces chunk (drop chunk payload)). length p \<le> chunk)"
      using "1.IH" [of "take chunk payload" "drop chunk payload"] True c by (simp add: min_absorb2)
    ultimately show ?thesis by simp
  next
    case False
    then have "cutPieces chunk payload = [payload]" by (simp add: cutPieces.simps [of chunk payload] Let_def)
    then show ?thesis using False by simp
  qed
qed

text \<open>
  Under a window smaller than DEFLATE's the pieces are the message and none is longer than that window;
  otherwise the message is one piece.
\<close>

lemma compress_within_window:
  "concat (cutPieces (2 ^ bits) payload) = payload \<and> (\<forall>p\<in>set (cutPieces (2 ^ bits) payload). length p \<le> 2 ^ bits)"
  "cutPieces (length payload) payload = [payload]"
  by (rule cutPieces_ok, simp) (simp add: cutPieces.simps [of "length payload"])

end
