(* ===== verification/H2_Frame.thy ===== *)
theory H2_Frame
  imports Big_Endian Hpack_Tables
begin

text \<open>
  HTTP/2 framing, \<^verbatim>\<open>http/h2_frame.go\<close>: the frame reader shared by server and client, and the writers of
  every frame they send. A connection error is kept by its code; the reason, which is text for a log,
  is left out. A writer that loops, or that the slice bounds of its arguments can stop, returns an
  option, none when it panics or never returns.
\<close>

subsection \<open>Constants\<close>

definition h2Preface :: bytes where
  "h2Preface = str ''PRI * HTTP/2.0'' @ [13, 10, 13, 10] @ str ''SM'' @ [13, 10, 13, 10]"

definition h2FrameHeaderLen :: nat where "h2FrameHeaderLen = 9"
definition h2DefaultMaxFrameSize :: nat where "h2DefaultMaxFrameSize = 16384"
definition h2MaxFrameSizeLimit :: nat where "h2MaxFrameSizeLimit = 2 ^ 24 - 1"
definition h2DefaultWindow :: int where "h2DefaultWindow = 65535"
definition h2MaxWindow :: int where "h2MaxWindow = 2 ^ 31 - 1"

type_synonym h2FrameType = byte

definition h2FrameData :: h2FrameType where "h2FrameData = 0x0"
definition h2FrameHeaders :: h2FrameType where "h2FrameHeaders = 0x1"
definition h2FramePriority :: h2FrameType where "h2FramePriority = 0x2"
definition h2FrameRSTStream :: h2FrameType where "h2FrameRSTStream = 0x3"
definition h2FrameSettings :: h2FrameType where "h2FrameSettings = 0x4"
definition h2FramePushPromise :: h2FrameType where "h2FramePushPromise = 0x5"
definition h2FramePing :: h2FrameType where "h2FramePing = 0x6"
definition h2FrameGoAway :: h2FrameType where "h2FrameGoAway = 0x7"
definition h2FrameWindowUpdate :: h2FrameType where "h2FrameWindowUpdate = 0x8"
definition h2FrameContinuation :: h2FrameType where "h2FrameContinuation = 0x9"

definition h2FlagEndStream :: byte where "h2FlagEndStream = 0x1"
definition h2FlagAck :: byte where "h2FlagAck = 0x1"
definition h2FlagEndHeaders :: byte where "h2FlagEndHeaders = 0x4"
definition h2FlagPadded :: byte where "h2FlagPadded = 0x8"

lemmas h2_types = h2FrameData_def h2FrameHeaders_def h2FrameRSTStream_def h2FrameSettings_def
  h2FramePushPromise_def h2FrameGoAway_def h2FrameWindowUpdate_def h2FrameContinuation_def
definition h2SettingHeaderTableSize :: uint16 where "h2SettingHeaderTableSize = 0x1"
definition h2SettingEnablePush :: uint16 where "h2SettingEnablePush = 0x2"
definition h2SettingMaxConcurrentStreams :: uint16 where "h2SettingMaxConcurrentStreams = 0x3"
definition h2SettingInitialWindowSize :: uint16 where "h2SettingInitialWindowSize = 0x4"
definition h2SettingMaxFrameSize :: uint16 where "h2SettingMaxFrameSize = 0x5"
definition h2SettingMaxHeaderListSize :: uint16 where "h2SettingMaxHeaderListSize = 0x6"

lemmas h2_flags = h2FlagEndStream_def h2FlagEndHeaders_def h2FlagPadded_def

type_synonym H2ErrorCode = uint32

definition H2ProtocolError :: H2ErrorCode where "H2ProtocolError = 0x1"
definition H2FlowControlError :: H2ErrorCode where "H2FlowControlError = 0x3"
definition H2FrameSizeError :: H2ErrorCode where "H2FrameSizeError = 0x6"

definition h2ErrorNames :: "bytes list" where
  "h2ErrorNames = map str
     [''NO_ERROR'', ''PROTOCOL_ERROR'', ''INTERNAL_ERROR'', ''FLOW_CONTROL_ERROR'', ''SETTINGS_TIMEOUT'',
      ''STREAM_CLOSED'', ''FRAME_SIZE_ERROR'', ''REFUSED_STREAM'', ''CANCEL'', ''COMPRESSION_ERROR'',
      ''CONNECT_ERROR'', ''ENHANCE_YOUR_CALM'', ''INADEQUATE_SECURITY'', ''HTTP_1_1_REQUIRED'']"

text \<open>The verb \<^verbatim>\<open>%x\<close> of \<^verbatim>\<open>fmt.Sprintf\<close>.\<close>

definition hexDigit :: "nat \<Rightarrow> byte" where
  "hexDigit d = (if d < 10 then 0x30 + of_nat d else 0x61 + of_nat (d - 10))"

fun hexNat :: "nat \<Rightarrow> bytes" where
  "hexNat n = (if n < 16 then [hexDigit n] else hexNat (n div 16) @ [hexDigit (n mod 16)])"

definition errorCodeString :: "H2ErrorCode \<Rightarrow> bytes" where
  "errorCodeString c =
     (if unat c < length h2ErrorNames then h2ErrorNames ! unat c
      else str ''unknown error code 0x'' @ hexNat (unat c))"

datatype h2_error = H2ConnError H2ErrorCode | H2StreamError uint32 H2ErrorCode

subsection \<open>Reading a frame\<close>

record h2Frame =
  ftyp :: h2FrameType
  flags :: byte
  streamID :: uint32
  payload :: bytes
  flength :: uint32

definition has :: "h2Frame \<Rightarrow> byte \<Rightarrow> bool" where
  "has f flag \<longleftrightarrow> flags f AND flag \<noteq> 0"

text \<open>The padding, which the three types of frame that may carry any lose on the way in.\<close>

definition unpad :: "h2Frame \<Rightarrow> h2_error + h2Frame" where
  "unpad f =
     (if has f h2FlagPadded \<and> (ftyp f = h2FrameData \<or> ftyp f = h2FrameHeaders \<or> ftyp f = h2FramePushPromise) then
        (if payload f = [] then Inl (H2ConnError H2FrameSizeError)
         else
           (let pad = unat (payload f ! 0) in
            if pad \<ge> length (payload f) then Inl (H2ConnError H2ProtocolError)
            else Inr (f\<lparr>payload := drop 1 (take (length (payload f) - pad) (payload f))\<rparr>)))
      else Inr f)"

definition h2ReadFrame :: "bytes \<Rightarrow> uint32 \<Rightarrow> h2_error + (h2Frame \<times> nat) option" where
  "h2ReadFrame buf maxFrameSize =
     (if length buf < h2FrameHeaderLen then Inr None
      else
        (let len = be_read (take 3 buf) :: uint32 in
         if len > maxFrameSize then Inl (H2ConnError H2FrameSizeError)
         else
           (let end = h2FrameHeaderLen + unat len in
            if length buf < end then Inr None
            else
              (case unpad \<lparr>ftyp = buf ! 3, flags = buf ! 4,
                           streamID = be_read (take 4 (drop 5 buf)) AND 0x7fffffff,
                           payload = drop h2FrameHeaderLen (take end buf), flength = len\<rparr> of
                 Inl e \<Rightarrow> Inl e
               | Inr f \<Rightarrow> Inr (Some (f, end))))))"

subsection \<open>Writing frames\<close>

definition h2AppendFrameHeader :: "bytes \<Rightarrow> h2FrameType \<Rightarrow> byte \<Rightarrow> uint32 \<Rightarrow> nat \<Rightarrow> bytes" where
  "h2AppendFrameHeader dst t fl sid len =
     dst @ be_bytes 3 (of_nat len :: uint32) @ [t, fl, ucast (drop_bit 24 sid) AND 0x7f] @ be_bytes 3 sid"

definition h2AppendSettings :: "bytes \<Rightarrow> (uint32 \<times> uint32) list \<Rightarrow> bytes" where
  "h2AppendSettings dst settings =
     foldl (\<lambda>dst s. dst @ be_bytes 2 (ucast (fst s) :: uint16) @ be_bytes 4 (snd s))
       (h2AppendFrameHeader dst h2FrameSettings 0 0 (6 * length settings)) settings"

definition h2AppendWindowUpdate :: "bytes \<Rightarrow> uint32 \<Rightarrow> uint32 \<Rightarrow> bytes" where
  "h2AppendWindowUpdate dst sid increment =
     h2AppendFrameHeader dst h2FrameWindowUpdate 0 sid 4 @ be_bytes 4 (increment AND 0x7fffffff)"

definition h2AppendRSTStream :: "bytes \<Rightarrow> uint32 \<Rightarrow> H2ErrorCode \<Rightarrow> bytes" where
  "h2AppendRSTStream dst sid code = h2AppendFrameHeader dst h2FrameRSTStream 0 sid 4 @ be_bytes 4 code"

definition h2AppendGoAway :: "bytes \<Rightarrow> uint32 \<Rightarrow> H2ErrorCode \<Rightarrow> bytes \<Rightarrow> bytes" where
  "h2AppendGoAway dst lastStreamID code debug =
     h2AppendFrameHeader dst h2FrameGoAway 0 0 (8 + length debug) @
     be_bytes 4 (lastStreamID AND 0x7fffffff) @ be_bytes 4 code @ debug"

text \<open>
  The loop of \<^verbatim>\<open>h2AppendHeaderBlock\<close>. A frame size of zero makes it write empty frames forever, and a
  negative one is out of a slice's bounds.
\<close>

partial_function (option) headerLoop ::
  "h2FrameType \<Rightarrow> byte \<Rightarrow> bytes \<Rightarrow> uint32 \<Rightarrow> bytes \<Rightarrow> int \<Rightarrow> bytes option" where
  "headerLoop t fl dst sid block maxFrameSize =
     (if int (length block) > maxFrameSize \<and> maxFrameSize < 0 then None
      else
        (let chunk = (if int (length block) > maxFrameSize then take (nat maxFrameSize) block else block);
             block = drop (length chunk) block;
             f = (if block = [] then fl OR h2FlagEndHeaders else fl);
             dst = h2AppendFrameHeader dst t f sid (length chunk) @ chunk in
         if block = [] then Some dst else headerLoop h2FrameContinuation 0 dst sid block maxFrameSize))"

definition h2AppendHeaderBlock :: "bytes \<Rightarrow> uint32 \<Rightarrow> bytes \<Rightarrow> bool \<Rightarrow> int \<Rightarrow> bytes option" where
  "h2AppendHeaderBlock dst sid block endStream maxFrameSize =
     headerLoop h2FrameHeaders (if endStream then h2FlagEndStream else 0) dst sid block maxFrameSize"

partial_function (option) promiseLoop :: "bytes \<Rightarrow> uint32 \<Rightarrow> bytes \<Rightarrow> int \<Rightarrow> bytes option" where
  "promiseLoop dst sid block maxFrameSize =
     (if block = [] then Some dst
      else if maxFrameSize < 0 then None
      else
        (let chunk = take (nat maxFrameSize) block;
             block = drop (length chunk) block;
             fl = (if block = [] then h2FlagEndHeaders else 0) in
         promiseLoop (h2AppendFrameHeader dst h2FrameContinuation fl sid (length chunk) @ chunk) sid block maxFrameSize))"

definition h2AppendPushPromise :: "bytes \<Rightarrow> uint32 \<Rightarrow> uint32 \<Rightarrow> bytes \<Rightarrow> int \<Rightarrow> bytes option" where
  "h2AppendPushPromise dst sid promisedID block maxFrameSize =
     (if maxFrameSize - 4 < 0 then None
      else
        (let chunk = take (nat (maxFrameSize - 4)) block;
             block = drop (length chunk) block;
             fl = (if block = [] then h2FlagEndHeaders else 0);
             dst = h2AppendFrameHeader dst h2FramePushPromise fl sid (4 + length chunk) @
                   be_bytes 4 (promisedID AND 0x7fffffff) @ chunk in
         promiseLoop dst sid block maxFrameSize))"

subsection \<open>Settings\<close>

text \<open>
  \<^verbatim>\<open>h2ParseSettings\<close>: what \<open>apply\<close> does to the state it closes over, up to the first error.
\<close>

fun settingsLoop :: "(uint16 \<Rightarrow> uint32 \<Rightarrow> 's \<Rightarrow> 's \<times> h2_error option) \<Rightarrow> bytes \<Rightarrow> 's \<Rightarrow> 's \<times> h2_error option" where
  "settingsLoop applySetting pl s =
     (if pl = [] then (s, None)
      else
        (case applySetting (be_read (take 2 pl)) (be_read (take 4 (drop 2 pl))) s of
           (s, Some e) \<Rightarrow> (s, Some e)
         | (s, None) \<Rightarrow> settingsLoop applySetting (drop 6 pl) s))"

definition h2ParseSettings ::
  "bytes \<Rightarrow> (uint16 \<Rightarrow> uint32 \<Rightarrow> 's \<Rightarrow> 's \<times> h2_error option) \<Rightarrow> 's \<Rightarrow> 's \<times> h2_error option" where
  "h2ParseSettings pl applySetting s =
     (if length pl mod 6 \<noteq> 0 then (s, Some (H2ConnError H2FrameSizeError)) else settingsLoop applySetting pl s)"

declare settingsLoop.simps [simp del] hexNat.simps [simp del]

end
