(* ===== verification/H2_Framing.thy ===== *)
theory H2_Framing
  imports H2_Frame
begin

text \<open>
  What the frame reader and the writers promise each other: a reader fed in pieces sees the same frames,
  and every frame written is read back; a header block comes apart into HEADERS and CONTINUATION
  frames that fit and joins again.
\<close>

subsection \<open>One frame\<close>

lemma masks: "(0x7f :: byte) = mask 7" "(0x7fffffff :: uint32) = mask 31"
  by (simp_all add: mask_eq_exp_minus_1)

lemma be_bytes_stream:
  "(ucast (drop_bit 24 sid) AND 0x7f) # be_bytes 3 sid = be_bytes 4 (sid AND 0x7fffffff)" for sid :: uint32
proof -
  have "be_bytes 3 sid = be_bytes 3 (sid AND 0x7fffffff)"
    by (rule be_bytes_take_bit, rule bit_word_eqI) (auto simp: masks bit_simps)
  moreover have "(ucast (drop_bit 24 sid) AND 0x7f :: byte) = ucast (drop_bit 24 (sid AND 0x7fffffff))"
    unfolding masks by (rule bit_word_eqI) (auto simp: bit_simps)
  ultimately show ?thesis using be_bytes_Suc [of 3 "sid AND 0x7fffffff"] by simp
qed

lemma header_bytes:
  "h2AppendFrameHeader dst t fl sid len =
   dst @ be_bytes 3 (of_nat len :: uint32) @ [t, fl] @ be_bytes 4 (sid AND 0x7fffffff)"
  by (simp add: h2AppendFrameHeader_def be_bytes_stream [symmetric])

lemma length_header [simp]: "length (h2AppendFrameHeader dst t fl sid len) = length dst + 9"
  by (simp add: header_bytes)

lemma header_dst: "h2AppendFrameHeader dst t fl sid len = dst @ h2AppendFrameHeader [] t fl sid len"
  by (simp add: header_bytes)

lemma unat_length: "n < 2 ^ 24 \<Longrightarrow> unat (of_nat n :: uint32) = n"
  by (simp add: unat_of_nat)

definition frameOf :: "h2FrameType \<Rightarrow> byte \<Rightarrow> uint32 \<Rightarrow> bytes \<Rightarrow> h2Frame" where
  "frameOf t fl sid pl = \<lparr>ftyp = t, flags = fl, streamID = sid AND 0x7fffffff, payload = pl, flength = of_nat (length pl)\<rparr>"

lemma drop_take_middle: "length pre = k \<Longrightarrow> drop k (take (k + length pl) (pre @ pl @ rest)) = pl"
  by auto

lemma read_written:
  assumes "length pl \<le> unat m" and "length pl < 2 ^ 24" and "fl AND h2FlagPadded = 0"
  shows "h2ReadFrame (h2AppendFrameHeader [] t fl sid (length pl) @ pl @ rest) m =
    Inr (Some (frameOf t fl sid pl, 9 + length pl))"
proof -
  let ?h = "be_bytes 3 (of_nat (length pl) :: uint32)" and ?s = "be_bytes 4 (sid AND 0x7fffffff)"
  let ?buf = "?h @ [t, fl] @ ?s @ pl @ rest"
  have len: "be_read (take 3 ?buf) = (of_nat (length pl) :: uint32)"
    using assms(2) by (simp add: be_read_bytes unat_length)
  have "unat (sid AND 0x7fffffff) < 2 ^ 32" by (rule less_le_trans [OF unsigned_less]) simp
  then have sid: "be_read (take 4 (drop 5 ?buf)) = sid AND 0x7fffffff" by (simp add: be_read_bytes)
  have nth: "?buf ! 3 = t" "?buf ! 4 = fl" by (simp_all add: nth_append)
  have pl: "drop 9 (take (9 + length pl) ?buf) = pl"
    using drop_take_middle [of "?h @ [t, fl] @ ?s" 9 pl rest] by simp
  have "\<not> of_nat (length pl) > m" using assms(1,2) by (simp add: word_less_nat_alt unat_length)
  then show ?thesis
    using assms len sid nth pl unat_length [OF assms(2)]
    by (simp add: header_bytes h2ReadFrame_def h2FrameHeaderLen_def Let_def unpad_def has_def frameOf_def and.assoc)
qed

lemma unpad_facts:
  assumes "unpad f = Inr g"
  shows "ftyp g = ftyp f" "flags g = flags f" "streamID g = streamID f" "flength g = flength f"
    "length (payload g) \<le> length (payload f)"
  using assms by (auto simp: unpad_def Let_def split: if_splits)

lemma read_frame_cases:
  assumes "h2ReadFrame buf m = Inr (Some (f, n))"
  shows "9 \<le> n" "n \<le> length buf" "n = 9 + unat (flength f)" "flength f \<le> m" "length (payload f) \<le> unat (flength f)"
    "unat (streamID f) < 2 ^ 31"
proof -
  let ?len = "be_read (take 3 buf) :: uint32"
  let ?stop = "9 + unat ?len"
  let ?g = "\<lparr>ftyp = buf ! 3, flags = buf ! 4, streamID = be_read (take 4 (drop 5 buf)) AND 0x7fffffff,
     payload = drop 9 (take ?stop buf), flength = ?len\<rparr>"
  have u: "unpad ?g = Inr f" and n: "n = ?stop" and b: "?stop \<le> length buf" and m: "\<not> m < ?len"
    using assms by (auto simp: h2ReadFrame_def h2FrameHeaderLen_def Let_def split: if_splits sum.splits)
  note uf = unpad_facts [OF u]
  show "9 \<le> n" "n \<le> length buf" "n = 9 + unat (flength f)" "flength f \<le> m" using n b m uf by simp_all
  show "length (payload f) \<le> unat (flength f)" using uf(4,5) b by simp
  have "unat (w AND 0x7fffffff) < 2 ^ 31" for w :: uint32
    using unat_mask [of 31, where 'a = 32] word_and_le1 [of w "mask 31"]
    by (simp add: masks word_le_nat_alt)
  then show "unat (streamID f) < 2 ^ 31" using uf(3) by simp
qed

lemma read_shrinks: "h2ReadFrame buf m = Inr (Some (f, n)) \<Longrightarrow> length buf - n < length buf"
  using read_frame_cases(1,2) [of buf m f n] by linarith

text \<open>More bytes change neither a frame nor an error.\<close>

lemma read_append:
  assumes "h2ReadFrame buf m \<noteq> Inr None"
  shows "h2ReadFrame (buf @ rest) m = h2ReadFrame buf m"
proof -
  have 9: "9 \<le> length buf"
    by (rule ccontr) (use assms in \<open>simp add: h2ReadFrame_def h2FrameHeaderLen_def\<close>)
  let ?len = "be_read (take 3 buf) :: uint32"
  have eq: "take 3 (buf @ rest) = take 3 buf" "take 4 (drop 5 (buf @ rest)) = take 4 (drop 5 buf)"
    "(buf @ rest) ! 3 = buf ! 3" "(buf @ rest) ! 4 = buf ! 4" using 9 by (simp_all add: nth_append)
  show ?thesis
  proof (cases "m < ?len")
    case False
    then have b: "9 + unat ?len \<le> length buf"
      using assms 9 by (auto simp: h2ReadFrame_def h2FrameHeaderLen_def Let_def split: if_splits)
    then have "take (9 + unat ?len) (buf @ rest) = take (9 + unat ?len) buf" by simp
    then show ?thesis using b 9 eq by (simp add: h2ReadFrame_def h2FrameHeaderLen_def Let_def)
  qed (use 9 eq in \<open>simp add: h2ReadFrame_def h2FrameHeaderLen_def Let_def\<close>)
qed

subsection \<open>A stream of frames\<close>

text \<open>Every whole frame at the front of \<open>buf\<close>, the error that stops the reading, and the bytes left.\<close>

function h2Frames :: "uint32 \<Rightarrow> bytes \<Rightarrow> h2Frame list \<times> h2_error option \<times> bytes" where
  "h2Frames m buf =
     (case h2ReadFrame buf m of
        Inl e \<Rightarrow> ([], Some e, buf)
      | Inr None \<Rightarrow> ([], None, buf)
      | Inr (Some (f, n)) \<Rightarrow> (case h2Frames m (drop n buf) of (fs, e, r) \<Rightarrow> (f # fs, e, r)))"
  by pat_completeness auto
termination
proof (relation "measure (\<lambda>(m, buf). length buf)", goal_cases)
  case (2 m buf y z f n)
  then have "h2ReadFrame buf m = Inr (Some (f, n))" by simp
  from read_shrinks [OF this] show ?case by simp
qed simp

declare h2Frames.simps [simp del]

definition andThen :: "'a list \<Rightarrow> 'a list \<times> 'b \<times> 'c \<Rightarrow> 'a list \<times> 'b \<times> 'c" where
  "andThen fs x = (case x of (gs, e, r) \<Rightarrow> (fs @ gs, e, r))"

lemma andThen_simps [simp]: "andThen [] x = x" "andThen fs (andThen gs x) = andThen (fs @ gs) x"
  by (auto simp: andThen_def split: prod.splits)

lemma h2Frames_frame: "h2ReadFrame buf m = Inr (Some (f, n)) \<Longrightarrow> h2Frames m buf = andThen [f] (h2Frames m (drop n buf))"
  by (subst h2Frames.simps) (simp add: andThen_def)

lemma h2Frames_stop:
  "h2ReadFrame buf m = Inl x \<Longrightarrow> h2Frames m buf = ([], Some x, buf)"
  "h2ReadFrame buf m = Inr None \<Longrightarrow> h2Frames m buf = ([], None, buf)"
  by (subst h2Frames.simps, simp)+

lemma read_cases:
  obtains (Bad) x where "h2ReadFrame buf m = Inl x" | (Wait) "h2ReadFrame buf m = Inr None"
    | (Frame) f n where "h2ReadFrame buf m = Inr (Some (f, n))"
proof (cases "h2ReadFrame buf m")
  case (Inr y)
  then show ?thesis using Wait Frame by (cases y) auto
qed (rule Bad)

lemma h2Frames_induct [case_names step]:
  assumes "\<And>m buf. (\<And>f n. h2ReadFrame buf m = Inr (Some (f, n)) \<Longrightarrow> P m (drop n buf)) \<Longrightarrow> P m buf"
  shows "P m buf"
proof (induction m buf rule: h2Frames.induct)
  case (1 m buf)
  show ?case
  proof (rule assms)
    fix f n assume "h2ReadFrame buf m = Inr (Some (f, n))"
    from 1 [OF this refl refl] show "P m (drop n buf)" .
  qed
qed

lemma h2Frames_append:
  "h2Frames m buf = (fs, e, r) \<Longrightarrow>
   h2Frames m (buf @ b) = (case e of None \<Rightarrow> andThen fs (h2Frames m (r @ b)) | Some x \<Rightarrow> (fs, Some x, r @ b))"
proof (induction m buf arbitrary: fs e r rule: h2Frames_induct)
  case (step m buf)
  show ?case
  proof (cases rule: read_cases [of buf m])
    case (Bad x)
    then have "h2ReadFrame (buf @ b) m = Inl x" using read_append [of buf m b] by simp
    then show ?thesis using step(2) h2Frames_stop(1) Bad by auto
  next
    case Wait
    then show ?thesis using step(2) h2Frames_stop(2) by auto
  next
    case (Frame f n)
    then have rd': "h2ReadFrame (buf @ b) m = Inr (Some (f, n))" using read_append [of buf m b] by simp
    obtain gs e' r' where g: "h2Frames m (drop n buf) = (gs, e', r')" using prod_cases3 by blast
    have "fs = f # gs" "e = e'" "r = r'" using step(2) h2Frames_frame [OF Frame] g by (simp_all add: andThen_def)
    moreover have "drop n (buf @ b) = drop n buf @ b" using read_frame_cases(2) [OF Frame] by simp
    ultimately show ?thesis using step(1) [OF Frame g] h2Frames_frame [OF rd']
      by (auto simp: andThen_def split: option.splits prod.splits)
  qed
qed

text \<open>The frames of a connection whose bytes come in pieces, the rest of one kept for the next.\<close>

fun readPieces :: "uint32 \<Rightarrow> bytes \<Rightarrow> bytes list \<Rightarrow> h2Frame list \<times> h2_error option" where
  "readPieces m r [] = ([], None)"
| "readPieces m r (b # bs) =
     (case h2Frames m (r @ b) of
        (fs, Some e, _) \<Rightarrow> (fs, Some e)
      | (fs, None, r') \<Rightarrow> (case readPieces m r' bs of (gs, e) \<Rightarrow> (fs @ gs, e)))"

definition waiting :: "uint32 \<Rightarrow> bytes \<Rightarrow> bool" where
  "waiting m r \<longleftrightarrow> h2ReadFrame r m = Inr None"

lemma h2Frames_waiting: "h2Frames m buf = (fs, None, r) \<Longrightarrow> waiting m r"
proof (induction m buf arbitrary: fs r rule: h2Frames_induct)
  case (step m buf)
  show ?case
  proof (cases rule: read_cases [of buf m])
    case (Frame f n)
    obtain gs e r' where g: "h2Frames m (drop n buf) = (gs, e, r')" using prod_cases3 by blast
    then show ?thesis using step h2Frames_frame [OF Frame] Frame by (simp add: andThen_def)
  qed (use step(2) h2Frames_stop in \<open>auto simp: waiting_def\<close>)
qed

lemma readPieces_whole:
  "waiting m r \<Longrightarrow> readPieces m r bs = (case h2Frames m (r @ concat bs) of (fs, e, _) \<Rightarrow> (fs, e))"
proof (induction bs arbitrary: r)
  case Nil
  then show ?case by (simp add: waiting_def h2Frames.simps [of m r])
next
  case (Cons b bs)
  obtain fs e r' where f: "h2Frames m (r @ b) = (fs, e, r')" using prod_cases3 by blast
  note whole = h2Frames_append [OF f, of "concat bs"]
  show ?case
  proof (cases e)
    case None
    then have "waiting m r'" using f h2Frames_waiting by blast
    then show ?thesis using Cons.IH [of r'] f None whole by (auto simp: andThen_def split: prod.splits)
  qed (use f whole in simp)
qed

definition frame_ok :: "uint32 \<Rightarrow> h2Frame \<Rightarrow> bool" where
  "frame_ok m f \<longleftrightarrow> flength f \<le> m \<and> length (payload f) \<le> unat (flength f) \<and> unat (streamID f) < 2 ^ 31"

lemma h2Frames_ok: "list_all (frame_ok m) (fst (h2Frames m buf))"
proof (induction m buf rule: h2Frames_induct)
  case (step m buf)
  show ?case
  proof (cases rule: read_cases [of buf m])
    case (Frame f n)
    then show ?thesis using step [OF Frame] h2Frames_frame [OF Frame] read_frame_cases(4-6) [OF Frame]
      by (simp add: andThen_def frame_ok_def split: prod.splits)
  qed (simp_all add: h2Frames_stop)
qed

text \<open>
  C26. However the bytes of a connection are cut into reads, the same frames come out, and the same
  error ends them; every frame is within the size this side allows, its payload within its length,
  and its stream identifier has 31 bits.
\<close>

theorem h2_reader_cuts:
  "readPieces m [] bs = (case h2Frames m (concat bs) of (fs, e, _) \<Rightarrow> (fs, e)) \<and>
   list_all (frame_ok m) (fst (readPieces m [] bs))"
proof -
  have "waiting m []" by (simp add: waiting_def h2ReadFrame_def h2FrameHeaderLen_def)
  from readPieces_whole [OF this, of bs] have "readPieces m [] bs = (case h2Frames m (concat bs) of (fs, e, _) \<Rightarrow> (fs, e))"
    by simp
  then show ?thesis using h2Frames_ok [of m "concat bs"] by (simp split: prod.splits)
qed

subsection \<open>Header blocks\<close>

text \<open>A header block cut into pieces of \<open>k\<close> bytes, with the type and flags of the frame each goes in.\<close>

fun cuts :: "nat \<Rightarrow> h2FrameType \<Rightarrow> byte \<Rightarrow> bytes \<Rightarrow> (h2FrameType \<times> byte \<times> bytes) list" where
  "cuts k t fl block =
     (if length block \<le> k \<or> k = 0 then [(t, fl OR h2FlagEndHeaders, block)]
      else (t, fl, take k block) # cuts k h2FrameContinuation 0 (drop k block))"

declare cuts.simps [simp del]

definition wireOf :: "uint32 \<Rightarrow> h2FrameType \<times> byte \<times> bytes \<Rightarrow> bytes" where
  "wireOf sid x = (case x of (t, fl, pl) \<Rightarrow> h2AppendFrameHeader [] t fl sid (length pl) @ pl)"

definition framesOf :: "uint32 \<Rightarrow> (h2FrameType \<times> byte \<times> bytes) list \<Rightarrow> h2Frame list" where
  "framesOf sid xs = map (\<lambda>(t, fl, pl). frameOf t fl sid pl) xs"

definition frameFits :: "uint32 \<Rightarrow> h2FrameType \<times> byte \<times> bytes \<Rightarrow> bool" where
  "frameFits m x = (case x of (t, fl, pl) \<Rightarrow> length pl \<le> unat m \<and> length pl < 2 ^ 24 \<and> fl AND h2FlagPadded = 0)"

lemma read_frames:
  "list_all (frameFits m) xs \<Longrightarrow>
   h2Frames m (concat (map (wireOf sid) xs) @ rest) = andThen (framesOf sid xs) (h2Frames m rest)"
proof (induction xs)
  case (Cons x xs)
  obtain t fl pl where x: "x = (t, fl, pl)" using prod_cases3 by blast
  let ?tail = "concat (map (wireOf sid) xs) @ rest"
  have "h2ReadFrame (wireOf sid x @ ?tail) m = Inr (Some (frameOf t fl sid pl, 9 + length pl))"
    using read_written [of pl m fl t sid ?tail] Cons.prems by (simp add: x wireOf_def frameFits_def)
  from h2Frames_frame [OF this]
  have "h2Frames m (wireOf sid x @ ?tail) = andThen [frameOf t fl sid pl] (h2Frames m ?tail)"
    by (simp add: wireOf_def x)
  then show ?case using Cons by (simp add: framesOf_def x)
qed (simp add: framesOf_def)

lemma headerLoop_cuts:
  assumes "0 < k"
  shows "headerLoop t fl dst sid block (int k) = Some (dst @ concat (map (wireOf sid) (cuts k t fl block)))"
proof (induction block arbitrary: t fl dst rule: length_induct)
  case (1 block)
  show ?case
  proof (cases "length block \<le> k")
    case True
    then show ?thesis
      by (simp add: headerLoop.simps [of t] cuts.simps [of k t] wireOf_def header_dst [of dst])
  next
    case False
    then have "length (drop k block) < length block" "drop k block \<noteq> []" "min (length block) k = k"
      using assms by simp_all
    then show ?thesis using 1 False assms
      by (simp add: headerLoop.simps [of t] cuts.simps [of k t] wireOf_def header_dst [of dst])
  qed
qed

lemma cuts_concat: "concat (map (\<lambda>(t, fl, pl). pl) (cuts k t fl block)) = block"
proof (induction k t fl block rule: cuts.induct)
  case (1 k t fl block)
  then show ?case by (auto simp: cuts.simps [of k t])
qed

lemma cuts_fit: "0 < k \<Longrightarrow> fl AND h2FlagPadded = 0 \<Longrightarrow> list_all (\<lambda>(t, fl, pl). length pl \<le> k \<and> fl AND h2FlagPadded = 0) (cuts k t fl block)"
proof (induction k t fl block rule: cuts.induct)
  case (1 k t fl block)
  have "(fl OR h2FlagEndHeaders) AND h2FlagPadded = 0" using 1(3)
    by (simp add: bit.conj_disj_distrib2 h2_flags)
  then show ?case using 1 by (auto simp: cuts.simps [of k t])
qed

lemma cuts_shape:
  "cuts k t fl block \<noteq> [] \<and>
   map fst (cuts k t fl block) = t # replicate (length (cuts k t fl block) - 1) h2FrameContinuation \<and>
   map (fst \<circ> snd) (cuts k t fl block) =
     (if length (cuts k t fl block) = 1 then [fl OR h2FlagEndHeaders]
      else fl # replicate (length (cuts k t fl block) - 2) 0 @ [h2FlagEndHeaders])"
proof (induction k t fl block rule: cuts.induct)
  case (1 k t fl block)
  show ?case
  proof (cases "length block \<le> k \<or> k = 0")
    case False
    let ?r = "cuts k h2FrameContinuation 0 (drop k block)"
    from 1 [OF False] obtain x xs where r: "?r = x # xs" by (cases ?r) auto
    have "replicate (length xs) y = y # replicate (length xs - 1) y" if "xs \<noteq> []" for y :: byte
      using that by (cases xs) auto
    then show ?thesis using 1 [OF False] False r by (auto simp: cuts.simps [of k t])
  qed (simp add: cuts.simps [of k t])
qed

text \<open>
  The frames a header block arrives in: the first of type \<open>t\<close> with the flags \<open>fl\<close>, CONTINUATION after it,
  END_HEADERS on the last of them only, all on one stream and of at most \<open>k\<close> bytes, and the block in
  order in their payloads.
\<close>

definition block_frames :: "h2FrameType \<Rightarrow> byte \<Rightarrow> uint32 \<Rightarrow> nat \<Rightarrow> bytes \<Rightarrow> h2Frame list \<Rightarrow> bool" where
  "block_frames t fl sid k block fs \<longleftrightarrow>
     concat (map payload fs) = block \<and>
     list_all (\<lambda>f. streamID f = sid AND 0x7fffffff \<and> length (payload f) \<le> k) fs \<and>
     map ftyp fs = t # replicate (length fs - 1) h2FrameContinuation \<and>
     map flags fs = (if length fs = 1 then [fl OR h2FlagEndHeaders] else fl # replicate (length fs - 2) 0 @ [h2FlagEndHeaders])"

lemma cuts_frames:
  assumes "0 < k" and "k \<le> unat m" and "k < 2 ^ 24" and "fl AND h2FlagPadded = 0"
  shows "h2Frames m (concat (map (wireOf sid) (cuts k t fl block)) @ rest) =
      andThen (framesOf sid (cuts k t fl block)) (h2Frames m rest) \<and>
    block_frames t fl sid k block (framesOf sid (cuts k t fl block))"
proof -
  let ?c = "cuts k t fl block"
  have fit: "list_all (\<lambda>(t, fl, pl). length pl \<le> k \<and> fl AND h2FlagPadded = 0) ?c"
    using cuts_fit assms(1,4) by blast
  then have "list_all (frameFits m) ?c" using assms(2,3) by (auto simp: list_all_iff frameFits_def)
  note read = read_frames [OF this, of sid rest]
  have maps: "map payload (framesOf sid ?c) = map (\<lambda>(t, fl, pl). pl) ?c" "map ftyp (framesOf sid ?c) = map fst ?c"
    "map flags (framesOf sid ?c) = map (fst \<circ> snd) ?c" "length (framesOf sid ?c) = length ?c"
    by (auto simp: framesOf_def frameOf_def)
  have "list_all (\<lambda>f. streamID f = sid AND 0x7fffffff \<and> length (payload f) \<le> k) (framesOf sid ?c)"
    using fit by (auto simp: list_all_iff framesOf_def frameOf_def)
  then have "block_frames t fl sid k block (framesOf sid ?c)"
    using maps cuts_shape [of k t fl block] cuts_concat [of k t fl block] by (simp add: block_frames_def)
  with read show ?thesis by blast
qed

text \<open>
  C27. A header block is always written, whatever its length, in frames no larger than the peer
  takes; the peer reads back a HEADERS frame and CONTINUATION frames on the same stream, END_HEADERS on
  the last of them only and END_STREAM on the first exactly when asked for, whose payloads put together
  are the block, and goes on reading after them.
\<close>

theorem header_block_roundtrip:
  assumes "0 < k" and "k \<le> unat m" and "k < 2 ^ 24"
  shows "\<exists>wire fs. h2AppendHeaderBlock dst sid block endStream (int k) = Some (dst @ wire) \<and>
    h2Frames m (wire @ rest) = andThen fs (h2Frames m rest) \<and>
    block_frames h2FrameHeaders (if endStream then h2FlagEndStream else 0) sid k block fs"
proof -
  let ?fl = "if endStream then h2FlagEndStream else 0"
  have "?fl AND h2FlagPadded = 0" by (simp add: h2_flags)
  from cuts_frames [OF assms this, of sid h2FrameHeaders block rest] headerLoop_cuts [OF assms(1)]
  show ?thesis unfolding h2AppendHeaderBlock_def by blast
qed

theorem header_block_roundtrip_witness:
  "\<exists>wire fs. h2AppendHeaderBlock [] 3 [1, 2, 3, 4, 5] True (int 2) = Some ([] @ wire) \<and>
    h2Frames 16384 (wire @ [7]) = andThen fs (h2Frames 16384 [7]) \<and>
    block_frames h2FrameHeaders (if True then h2FlagEndStream else 0) 3 2 [1, 2, 3, 4, 5] fs"
  by (rule header_block_roundtrip) simp_all

lemma promiseLoop_cuts:
  assumes "0 < k"
  shows "block \<noteq> [] \<Longrightarrow>
    promiseLoop dst sid block (int k) = Some (dst @ concat (map (wireOf sid) (cuts k h2FrameContinuation 0 block)))"
proof (induction block arbitrary: dst rule: length_induct)
  case (1 block)
  show ?case
  proof (cases "length block \<le> k")
    case True
    then show ?thesis using 1(2)
      by (simp add: promiseLoop.simps cuts.simps [of k] wireOf_def header_dst [of dst])
  next
    case False
    then have "length (drop k block) < length block" "drop k block \<noteq> []" "min (length block) k = k"
      using assms by simp_all
    then show ?thesis using 1 False assms
      by (simp add: promiseLoop.simps [of dst] cuts.simps [of k _ _ block] wireOf_def header_dst [of dst])
  qed
qed

lemma PushPromise_cuts:
  assumes "4 \<le> k"
  shows "h2AppendPushPromise dst sid promised block (int k) =
    Some (dst @ concat (map (wireOf sid) (cuts k h2FramePushPromise 0 (be_bytes 4 (promised AND 0x7fffffff) @ block))))"
proof -
  define p where "p = be_bytes 4 (promised AND 0x7fffffff)"
  have p: "length p = 4" by (simp add: p_def)
  have n: "nat (int k - 4) = k - 4" using assms by linarith
  show ?thesis
  proof (cases "length block \<le> k - 4")
    case True
    then have "length (p @ block) \<le> k" using p assms by simp
    then show ?thesis using True assms p n unfolding h2AppendPushPromise_def p_def [symmetric]
      by (simp add: promiseLoop.simps [of _ _ "[]"] cuts.simps [of k _ _ "p @ block"] wireOf_def header_dst [of dst])
  next
    case False
    then have "drop (k - 4) block \<noteq> []" "min (length block) (k - 4) = k - 4" "\<not> 4 + length block \<le> k"
      using assms by auto
    then show ?thesis using False assms p n promiseLoop_cuts [of k "drop (k - 4) block"]
      unfolding h2AppendPushPromise_def p_def [symmetric]
      by (simp add: cuts.simps [of k _ _ "p @ block"] wireOf_def header_dst [of dst])
  qed
qed

text \<open>
  C28. A push promise is written likewise: the promised stream's identifier, of 31 bits, starts the
  PUSH_PROMISE frame, and the header block follows it over as many CONTINUATION frames as it takes.
\<close>

theorem push_promise_roundtrip:
  assumes "4 \<le> k" and "k \<le> unat m" and "k < 2 ^ 24"
  shows "\<exists>wire fs. h2AppendPushPromise dst sid promised block (int k) = Some (dst @ wire) \<and>
    h2Frames m (wire @ rest) = andThen fs (h2Frames m rest) \<and>
    block_frames h2FramePushPromise 0 sid k (be_bytes 4 (promised AND 0x7fffffff) @ block) fs"
proof -
  have "0 < k" using assms(1) by simp
  from cuts_frames [OF this assms(2,3), of 0 sid h2FramePushPromise "be_bytes 4 (promised AND 0x7fffffff) @ block" rest]
  show ?thesis unfolding PushPromise_cuts [OF assms(1)] by auto
qed

theorem push_promise_roundtrip_witness:
  "\<exists>wire fs. h2AppendPushPromise [] 3 2 [1, 2, 3, 4, 5] (int 6) = Some ([] @ wire) \<and>
    h2Frames 16384 (wire @ [7]) = andThen fs (h2Frames 16384 [7]) \<and>
    block_frames h2FramePushPromise 0 3 6 (be_bytes 4 ((2 :: uint32) AND 0x7fffffff) @ [1, 2, 3, 4, 5]) fs"
  by (rule push_promise_roundtrip) simp_all

end
