(* ===== verification/H2_Settings.thy ===== *)
theory H2_Settings
  imports H2_Framing Hpack_Roundtrip
begin

text \<open>
  What an HTTP/2 server does with the settings its client sends: \<^verbatim>\<open>applySettingsLocked\<close> of
  \<^verbatim>\<open>http/h2_server.go\<close>, over the fields of the connection it changes. The streams are listed with
  their send windows in the order the map is gone through. The state is an option, none when the
  HPACK encoder it resizes panics.
\<close>

record peer =
  enc :: Encoder
  pushEnabled :: bool
  peerMaxPush :: uint32
  peerWindow :: int
  streams :: "(uint32 \<times> int) list"
  peerMaxFrame :: int
  peerMaxHeaderList :: int

definition newPeer :: "Encoder \<Rightarrow> peer" where
  "newPeer e =
     \<lparr>enc = e, pushEnabled = True, peerMaxPush = -1, peerWindow = h2DefaultWindow, streams = [],
      peerMaxFrame = int h2DefaultMaxFrameSize, peerMaxHeaderList = 2 ^ 63 - 1\<rparr>"

text \<open>The windows of the streams, up to the first that overflows.\<close>

fun moveWindows :: "int \<Rightarrow> (uint32 \<times> int) list \<Rightarrow> (uint32 \<times> int) list \<times> bool" where
  "moveWindows delta [] = ([], True)"
| "moveWindows delta ((sid, w) # sts) =
     (if w + delta > h2MaxWindow then ((sid, w + delta) # sts, False)
      else (case moveWindows delta sts of (sts, ok) \<Rightarrow> ((sid, w + delta) # sts, ok)))"

definition applySetting ::
  "(bytes \<Rightarrow> uint64) \<Rightarrow> uint16 \<Rightarrow> uint32 \<Rightarrow> peer option \<Rightarrow> peer option \<times> h2_error option" where
  "applySetting hash sid value s =
     (case s of
        None \<Rightarrow> (None, None)
      | Some p \<Rightarrow>
          if sid = h2SettingHeaderTableSize then
            (map_option (\<lambda>e. p\<lparr>enc := e\<rparr>) (SetMaxTableSize hash (enc p) (min (uint value) MaxEncoderTableSize)), None)
          else if sid = h2SettingEnablePush then
            (if value > 1 then (s, Some (H2ConnError H2ProtocolError)) else (Some (p\<lparr>pushEnabled := (value = 1)\<rparr>), None))
          else if sid = h2SettingMaxConcurrentStreams then (Some (p\<lparr>peerMaxPush := value\<rparr>), None)
          else if sid = h2SettingInitialWindowSize then
            (if uint value > h2MaxWindow then (s, Some (H2ConnError H2FlowControlError))
             else
               (let delta = uint value - peerWindow p;
                    (sts, ok) = moveWindows delta (streams p);
                    p = p\<lparr>peerWindow := uint value, streams := sts\<rparr> in
                (Some p, if ok then None else Some (H2ConnError H2FlowControlError))))
          else if sid = h2SettingMaxFrameSize then
            (if unat value < h2DefaultMaxFrameSize \<or> unat value > h2MaxFrameSizeLimit then
               (s, Some (H2ConnError H2ProtocolError))
             else (Some (p\<lparr>peerMaxFrame := uint value\<rparr>), None))
          else if sid = h2SettingMaxHeaderListSize then (Some (p\<lparr>peerMaxHeaderList := uint value\<rparr>), None)
          else (s, None))"

definition applySettingsLocked ::
  "(bytes \<Rightarrow> uint64) \<Rightarrow> bytes \<Rightarrow> peer option \<Rightarrow> peer option \<times> h2_error option" where
  "applySettingsLocked hash pl s = h2ParseSettings pl (applySetting hash) s"

subsection \<open>Settings written are the settings applied\<close>

definition settingBytes :: "uint32 \<times> uint32 \<Rightarrow> bytes" where
  "settingBytes s = be_bytes 2 (ucast (fst s) :: uint16) @ be_bytes 4 (snd s)"

fun applyAll :: "(uint16 \<Rightarrow> uint32 \<Rightarrow> 's \<Rightarrow> 's \<times> h2_error option) \<Rightarrow> (uint32 \<times> uint32) list \<Rightarrow> 's \<Rightarrow> 's \<times> h2_error option" where
  "applyAll ap [] s = (s, None)"
| "applyAll ap ((i, v) # ss) s = (case ap (ucast i) v s of (s, Some e) \<Rightarrow> (s, Some e) | (s, None) \<Rightarrow> applyAll ap ss s)"

lemma AppendSettings_bytes:
  "h2AppendSettings dst ss = h2AppendFrameHeader dst h2FrameSettings 0 0 (6 * length ss) @ concat (map settingBytes ss)"
proof -
  have "foldl (\<lambda>dst s. dst @ be_bytes 2 (ucast (fst s) :: uint16) @ be_bytes 4 (snd s)) d ss = d @ concat (map settingBytes ss)" for d
    by (induction ss arbitrary: d) (simp_all add: settingBytes_def)
  then show ?thesis by (simp add: h2AppendSettings_def)
qed

lemma length_settings: "length (concat (map settingBytes ss)) = 6 * length ss"
  by (induction ss) (simp_all add: settingBytes_def)

lemma settingsLoop_written: "settingsLoop ap (concat (map settingBytes ss)) s = applyAll ap ss s"
proof (induction ss arbitrary: s)
  case Nil
  then show ?case by (simp add: settingsLoop.simps)
next
  case (Cons x ss)
  obtain i v where x: "x = (i, v)" by fastforce
  define rest where "rest = concat (map settingBytes ss)"
  define pl where "pl = settingBytes x @ rest"
  have read: "take 2 pl = be_bytes 2 (ucast i :: uint16)" "take 4 (drop 2 pl) = be_bytes 4 v" "drop 6 pl = rest" "pl \<noteq> []"
    by (auto simp: pl_def x settingBytes_def be_bytes_numeral)
  have "unat (ucast i :: uint16) < 2 ^ 16" "unat v < 2 ^ 32"
    using unsigned_less [of "ucast i :: uint16"] unsigned_less [of v] by simp_all
  then have "be_read (be_bytes 2 (ucast i :: uint16)) = (ucast i :: uint16)" "be_read (be_bytes 4 v) = v"
    by (simp_all add: be_read_bytes)
  with read Cons.IH have "settingsLoop ap pl s = applyAll ap (x # ss) s"
    by (simp add: settingsLoop.simps [of ap pl] x rest_def)
  then show ?case by (simp add: pl_def rest_def)
qed

text \<open>
  C29. A SETTINGS frame this side writes reaches the peer as one frame of its type on stream 0, without
  the ACK flag, and parsing it there applies exactly the settings written, in order, up to the first
  one that is refused.
\<close>

theorem settings_roundtrip:
  assumes "6 * length ss \<le> unat m" and "6 * length ss < 2 ^ 24"
  shows "\<exists>f. h2Frames m (h2AppendSettings [] ss @ rest) = andThen [f] (h2Frames m rest) \<and>
    ftyp f = h2FrameSettings \<and> streamID f = 0 \<and> \<not> has f h2FlagAck \<and>
    h2ParseSettings (payload f) ap s = applyAll ap ss s"
proof -
  let ?pl = "concat (map settingBytes ss)"
  have "h2ReadFrame (h2AppendSettings [] ss @ rest) m = Inr (Some (frameOf h2FrameSettings 0 0 ?pl, 9 + length ?pl))"
    using read_written [of ?pl m 0 h2FrameSettings 0 rest] assms by (simp add: AppendSettings_bytes length_settings)
  from h2Frames_frame [OF this]
  have "h2Frames m (h2AppendSettings [] ss @ rest) = andThen [frameOf h2FrameSettings 0 0 ?pl] (h2Frames m rest)"
    by (simp add: AppendSettings_bytes length_settings)
  moreover have "h2ParseSettings ?pl ap s = applyAll ap ss s"
    by (simp add: h2ParseSettings_def length_settings settingsLoop_written)
  ultimately show ?thesis
    by (intro exI [of _ "frameOf h2FrameSettings 0 0 ?pl"]) (simp add: frameOf_def has_def)
qed

theorem settings_roundtrip_witness:
  "\<exists>f. h2Frames 16384 (h2AppendSettings [] [(4, 65535), (2, 7)] @ [1]) = andThen [f] (h2Frames 16384 [1]) \<and>
    ftyp f = h2FrameSettings \<and> streamID f = 0 \<and> \<not> has f h2FlagAck \<and>
    h2ParseSettings (payload f) (applySetting (\<lambda>_. 7)) (Some (newPeer NewEncoder)) =
      applyAll (applySetting (\<lambda>_. 7)) [(4, 65535), (2, 7)] (Some (newPeer NewEncoder))"
  by (rule settings_roundtrip) simp_all

subsection \<open>The state of the peer stays in range\<close>

definition peer_ok :: "(bytes \<Rightarrow> uint64) \<Rightarrow> peer \<Rightarrow> bool" where
  "peer_ok hash p \<longleftrightarrow>
     encoder_ok hash (enc p) \<and> 0 \<le> peerWindow p \<and> peerWindow p \<le> h2MaxWindow \<and>
     int h2DefaultMaxFrameSize \<le> peerMaxFrame p \<and> peerMaxFrame p \<le> int h2MaxFrameSizeLimit \<and>
     list_all (\<lambda>(sid, w). w \<le> h2MaxWindow) (streams p)"

text \<open>How far each stream's window is from the initial one, which only the data sent and WINDOW_UPDATE change.\<close>

definition windowOffsets :: "peer \<Rightarrow> (uint32 \<times> int) list" where
  "windowOffsets p = map (\<lambda>(sid, w). (sid, w - peerWindow p)) (streams p)"

lemma moveWindows_ok:
  "moveWindows delta sts = (sts', True) \<Longrightarrow>
   sts' = map (\<lambda>(sid, w). (sid, w + delta)) sts \<and> list_all (\<lambda>(sid, w). w \<le> h2MaxWindow) sts'"
  by (induction delta sts arbitrary: sts' rule: moveWindows.induct) (auto split: if_splits prod.splits)

lemma SetMaxTableSize_ok:
  assumes "encoder_ok hash e" and "0 \<le> n"
  shows "\<exists>e'. SetMaxTableSize hash e n = Some e' \<and> encoder_ok hash e'"
proof -
  have "enc_table_ok hash (etable e)" "0 \<le> tableLimit e" "tableLimit e \<le> MaxEncoderTableSize"
    "pendingSize e \<longrightarrow> 0 \<le> minPending e \<and> minPending e \<le> maxSize (etable e)"
    using assms(1) unfolding encoder_ok_def by blast+
  from SetMaxTableSize_sync [OF this assms(2)] show ?thesis by blast
qed

lemma applySetting_ok:
  assumes "peer_ok hash p"
  shows "\<exists>p' err. applySetting hash i v (Some p) = (Some p', err) \<and>
    (err = None \<longrightarrow> peer_ok hash p' \<and> windowOffsets p' = windowOffsets p)"
proof -
  consider "i = h2SettingHeaderTableSize" | "i = h2SettingInitialWindowSize" | "i = h2SettingMaxFrameSize"
    | "i \<noteq> h2SettingHeaderTableSize" "i \<noteq> h2SettingInitialWindowSize" "i \<noteq> h2SettingMaxFrameSize" by blast
  then show ?thesis
  proof cases
    case 1
    have "0 \<le> min (uint v) MaxEncoderTableSize" by (simp add: MaxEncoderTableSize_def)
    moreover have "encoder_ok hash (enc p)" using assms by (simp add: peer_ok_def)
    ultimately obtain e' where "SetMaxTableSize hash (enc p) (min (uint v) MaxEncoderTableSize) = Some e'" "encoder_ok hash e'"
      using SetMaxTableSize_ok by blast
    then show ?thesis using 1 assms by (simp add: applySetting_def peer_ok_def windowOffsets_def)
  next
    case 2
    obtain sts ok where mv: "moveWindows (uint v - peerWindow p) (streams p) = (sts, ok)" by fastforce
    have off: "ok \<Longrightarrow> map (\<lambda>(sid, w). (sid, w - uint v)) sts = windowOffsets p"
      "ok \<Longrightarrow> list_all (\<lambda>(sid, w). w \<le> h2MaxWindow) sts"
      using moveWindows_ok [of "uint v - peerWindow p" "streams p" sts] mv by (auto simp: windowOffsets_def)
    show ?thesis
    proof (cases "uint v > h2MaxWindow")
      case True
      then show ?thesis using 2 by (simp add: applySetting_def h2SettingHeaderTableSize_def h2SettingEnablePush_def
          h2SettingMaxConcurrentStreams_def h2SettingInitialWindowSize_def)
    next
      case False
      then have "applySetting hash i v (Some p) =
          (Some (p\<lparr>peerWindow := uint v, streams := sts\<rparr>), if ok then None else Some (H2ConnError H2FlowControlError))"
        using 2 mv by (simp add: applySetting_def h2SettingHeaderTableSize_def h2SettingEnablePush_def
          h2SettingMaxConcurrentStreams_def h2SettingInitialWindowSize_def)
      moreover have "peer_ok hash (p\<lparr>peerWindow := uint v, streams := sts\<rparr>)" if "ok"
        using off(2) [OF that] assms False by (simp add: peer_ok_def)
      moreover have "windowOffsets (p\<lparr>peerWindow := uint v, streams := sts\<rparr>) = windowOffsets p" if "ok"
        using off(1) [OF that] by (simp add: windowOffsets_def)
      ultimately show ?thesis by simp
    qed
  next
    case 3
    have eq: "applySetting hash i v (Some p) =
        (if unat v < h2DefaultMaxFrameSize \<or> unat v > h2MaxFrameSizeLimit then (Some p, Some (H2ConnError H2ProtocolError))
         else (Some (p\<lparr>peerMaxFrame := uint v\<rparr>), None))"
      using 3 by (simp add: applySetting_def h2SettingHeaderTableSize_def h2SettingEnablePush_def
          h2SettingMaxConcurrentStreams_def h2SettingInitialWindowSize_def h2SettingMaxFrameSize_def)
    show ?thesis
    proof (cases "unat v < h2DefaultMaxFrameSize \<or> unat v > h2MaxFrameSizeLimit")
      case False
      then have "int h2DefaultMaxFrameSize \<le> int (unat v)" "int (unat v) \<le> int h2MaxFrameSizeLimit"
        by (simp_all del: of_nat_unat)
      then have "peer_ok hash (p\<lparr>peerMaxFrame := uint v\<rparr>)" using assms by (simp add: peer_ok_def)
      then show ?thesis using eq False by (simp add: windowOffsets_def)
    qed (simp add: eq)
  next
    case 4
    then show ?thesis using assms by (auto simp: applySetting_def peer_ok_def windowOffsets_def)
  qed
qed

lemma settingsLoop_ok:
  "peer_ok hash p \<Longrightarrow> \<exists>p' err. settingsLoop (applySetting hash) pl (Some p) = (Some p', err) \<and>
     (err = None \<longrightarrow> peer_ok hash p' \<and> windowOffsets p' = windowOffsets p)"
proof (induction pl arbitrary: p rule: length_induct)
  case (1 pl)
  show ?case
  proof (cases "pl = []")
    case False
    let ?i = "be_read (take 2 pl)" and ?v = "be_read (take 4 (drop 2 pl))"
    obtain p' err where a: "applySetting hash ?i ?v (Some p) = (Some p', err)"
      "err = None \<longrightarrow> peer_ok hash p' \<and> windowOffsets p' = windowOffsets p"
      using applySetting_ok [OF 1(2)] by blast
    show ?thesis
    proof (cases err)
      case None
      have "length (drop 6 pl) < length pl" using False by simp
      with 1(1) a(2) None obtain q err' where "settingsLoop (applySetting hash) (drop 6 pl) (Some p') = (Some q, err')"
        "err' = None \<longrightarrow> peer_ok hash q \<and> windowOffsets q = windowOffsets p'" by blast
      then show ?thesis using a None False by (simp add: settingsLoop.simps [of _ pl])
    qed (use a False in \<open>simp add: settingsLoop.simps [of _ pl]\<close>)
  qed (use 1(2) in \<open>simp add: settingsLoop.simps\<close>)
qed

text \<open>
  C30. Whatever a client puts in its SETTINGS, applying them never panics; and unless they end the
  connection, the frame size and the initial window stay in the ranges RFC 9113 allows, no stream's send
  window passes the largest there may be, and a change of the initial window moves every stream's
  window by the same amount.
\<close>

theorem settings_keep_peer:
  assumes "peer_ok hash p"
  shows "\<exists>p' err. applySettingsLocked hash pl (Some p) = (Some p', err) \<and>
    (err = None \<longrightarrow> peer_ok hash p' \<and> windowOffsets p' = windowOffsets p)"
proof (cases "length pl mod 6 = 0")
  case True
  then show ?thesis using settingsLoop_ok [OF assms, of pl] by (simp add: applySettingsLocked_def h2ParseSettings_def)
qed (simp add: applySettingsLocked_def h2ParseSettings_def)

lemma newPeer_ok: "encoder_ok hash e \<Longrightarrow> peer_ok hash (newPeer e)"
  by (simp add: newPeer_def peer_ok_def h2DefaultWindow_def h2MaxWindow_def h2DefaultMaxFrameSize_def h2MaxFrameSizeLimit_def)

theorem settings_keep_peer_witness:
  "\<exists>p'. applySettingsLocked (\<lambda>_. 7) [0, 4, 0, 0, 1, 0] (Some (newPeer NewEncoder)) = (Some p', None) \<and>
    peer_ok (\<lambda>_. 7) p' \<and> windowOffsets p' = windowOffsets (newPeer NewEncoder)"
proof -
  have "snd (applySettingsLocked (\<lambda>_. 7) [0, 4, 0, 0, 1, 0] (Some (newPeer NewEncoder))) = None"
    by (simp add: applySettingsLocked_def h2ParseSettings_def settingsLoop.simps applySetting_def newPeer_def
        be_read_def be_step_def h2SettingHeaderTableSize_def h2SettingEnablePush_def h2SettingMaxConcurrentStreams_def
        h2SettingInitialWindowSize_def h2MaxWindow_def)
  then show ?thesis
    using settings_keep_peer [OF newPeer_ok [OF NewEncoder_ok(1)], of "\<lambda>_. 7" "[0, 4, 0, 0, 1, 0]"] by auto
qed

text \<open>The payloads of the SETTINGS frames of a connection, one after the other.\<close>

definition applyPayloads :: "(bytes \<Rightarrow> uint64) \<Rightarrow> bytes list \<Rightarrow> peer option \<Rightarrow> peer option \<times> h2_error option" where
  "applyPayloads hash pls s =
     foldl (\<lambda>(s, err) pl. if err = None then applySettingsLocked hash pl s else (s, err)) (s, None) pls"

lemma applyPayloads_frame:
  "peer_ok hash p \<Longrightarrow> applyPayloads hash pls (Some p) = (s, None) \<Longrightarrow> \<exists>p'. s = Some p' \<and> peer_ok hash p'"
proof (induction pls arbitrary: s rule: rev_induct)
  case (snoc pl pls)
  obtain s1 e1 where s1: "applyPayloads hash pls (Some p) = (s1, e1)" by fastforce
  then have step: "(if e1 = None then applySettingsLocked hash pl s1 else (s1, e1)) = (s, None)"
    using snoc(3) by (simp add: applyPayloads_def)
  then have e1: "e1 = None" by (auto split: if_splits)
  with snoc s1 obtain q where q: "s1 = Some q" "peer_ok hash q" by blast
  from settingsLoop_ok [OF q(2), of pl] show ?case
    using step e1 q by (auto simp: applySettingsLocked_def h2ParseSettings_def split: if_splits)
qed (auto simp: applyPayloads_def)

text \<open>
  C31. Writing a header block, and a push promise, always ends: no SETTINGS a client can send brings a
  connection to a frame size at which the loops over the block's frames would not, or at which they
  would cut a slice out of its bounds.
\<close>

theorem header_blocks_end:
  assumes "encoder_ok hash e" and "applyPayloads hash pls (Some (newPeer e)) = (s, None)"
  shows "\<exists>p out promise. s = Some p \<and>
    h2AppendHeaderBlock dst sid block endStream (peerMaxFrame p) = Some out \<and>
    h2AppendPushPromise dst sid promised block (peerMaxFrame p) = Some promise"
proof -
  obtain p where p: "s = Some p" "peer_ok hash p" using applyPayloads_frame [OF newPeer_ok [OF assms(1)] assms(2)] by blast
  define k where "k = nat (peerMaxFrame p)"
  have k: "peerMaxFrame p = int k" "4 \<le> k" "0 < k"
    using p(2) by (auto simp: k_def peer_ok_def h2DefaultMaxFrameSize_def)
  show ?thesis using p(1) k headerLoop_cuts [OF k(3)] PushPromise_cuts [OF k(2)]
    by (simp add: h2AppendHeaderBlock_def)
qed

theorem header_blocks_end_witness:
  "\<exists>s p out promise. applyPayloads (\<lambda>_. 7) [[], [0, 9, 0, 0, 0, 1]] (Some (newPeer NewEncoder)) = (s, None) \<and> s = Some p \<and>
    h2AppendHeaderBlock [] 1 [1, 2, 3] True (peerMaxFrame p) = Some out \<and>
    h2AppendPushPromise [] 1 2 [1, 2, 3] (peerMaxFrame p) = Some promise"
proof -
  have "applyPayloads (\<lambda>_. 7) [[], [0, 9, 0, 0, 0, 1]] (Some (newPeer NewEncoder)) = (Some (newPeer NewEncoder), None)"
    by (simp add: applyPayloads_def applySettingsLocked_def h2ParseSettings_def settingsLoop.simps applySetting_def
        be_read_def be_step_def h2SettingHeaderTableSize_def h2SettingEnablePush_def h2SettingMaxConcurrentStreams_def
        h2SettingInitialWindowSize_def h2SettingMaxFrameSize_def h2SettingMaxHeaderListSize_def)
  from header_blocks_end [OF NewEncoder_ok(1) this, of "[]" 1 "[1, 2, 3]" True 2] this show ?thesis by blast
qed

end
