(* ===== verification/H2_Fields.thy ===== *)
theory H2_Fields
  imports Hpack_Tables
begin

text \<open>
  The names and values of HTTP/2 fields: the tables and checks of \<^verbatim>\<open>http/h2_frame.go\<close> and
  \<^verbatim>\<open>http/h2_pseudo.go\<close>, with \<^verbatim>\<open>tokenByte\<close> of \<^verbatim>\<open>http/request_head.go\<close>. \<^verbatim>\<open>strings.ToLower\<close> and
  \<^verbatim>\<open>textproto.CanonicalMIMEHeaderKey\<close> are given as they act on bytes; what the first does to a string
  that is not ASCII is an argument \<open>lower\<close>.
\<close>

subsection \<open>Classes of bytes\<close>

definition isDigit :: "byte \<Rightarrow> bool" where "isDigit c \<longleftrightarrow> 0x30 \<le> c \<and> c \<le> 0x39"
definition isLower :: "byte \<Rightarrow> bool" where "isLower c \<longleftrightarrow> 0x61 \<le> c \<and> c \<le> 0x7a"
definition isUpper :: "byte \<Rightarrow> bool" where "isUpper c \<longleftrightarrow> 0x41 \<le> c \<and> c \<le> 0x5a"

definition tokenMarks :: bytes where
  "tokenMarks = [0x21, 0x23, 0x24, 0x25, 0x26, 0x27, 0x2a, 0x2b, 0x2d, 0x2e, 0x5e, 0x5f, 0x60, 0x7c, 0x7e]"

definition tokenByte :: "byte \<Rightarrow> bool" where
  "tokenByte c \<longleftrightarrow> isDigit c \<or> isLower c \<or> isUpper c \<or> c \<in> set tokenMarks"

definition h2TokenByte :: byte where "h2TokenByte = 1"
definition h2SchemeByte :: byte where "h2SchemeByte = 2"
definition h2HostByte :: byte where "h2HostByte = 4"
definition h2PathByte :: byte where "h2PathByte = 8"
definition h2NameByte :: byte where "h2NameByte = 16"
definition h2ValueByte :: byte where "h2ValueByte = 32"

lemmas h2_classes = h2TokenByte_def h2SchemeByte_def h2HostByte_def h2PathByte_def h2NameByte_def h2ValueByte_def

definition hostMarks :: bytes where
  "hostMarks = [0x21, 0x24, 0x25, 0x26, 0x27, 0x28, 0x29, 0x2a, 0x2b, 0x2c, 0x2d, 0x2e, 0x3a, 0x3b, 0x3d, 0x5b, 0x5d, 0x5f, 0x7e]"

definition h2ByteClass :: "byte \<Rightarrow> byte" where
  "h2ByteClass c =
     (if tokenByte c then h2TokenByte else 0) OR
     (if isDigit c \<or> isLower c \<or> isUpper c \<or> c = 0x2b \<or> c = 0x2d \<or> c = 0x2e then h2SchemeByte else 0) OR
     (if c > 0x20 \<and> c \<noteq> 0x7f then h2PathByte else 0) OR
     (if c > 0x20 \<and> c < 0x7f \<and> \<not> isUpper c \<and> c \<noteq> 0x3a then h2NameByte else 0) OR
     (if c \<noteq> 0 \<and> c \<noteq> 0x0d \<and> c \<noteq> 0x0a then h2ValueByte else 0) OR
     (if isDigit c \<or> isLower c \<or> isUpper c \<or> c \<in> set hostMarks then h2HostByte else 0)"

definition h2Bytes :: "bytes \<Rightarrow> byte \<Rightarrow> bool" where
  "h2Bytes s cl \<longleftrightarrow> list_all (\<lambda>c. h2ByteClass c AND cl \<noteq> 0) s"

definition h2ValidMethod :: "bytes \<Rightarrow> bool" where
  "h2ValidMethod s \<longleftrightarrow> s \<noteq> [] \<and> h2Bytes s h2TokenByte"

definition h2ValidScheme :: "bytes \<Rightarrow> bool" where
  "h2ValidScheme s =
     (if s = str ''https'' \<or> s = str ''http'' then True
      else if s = [] then False
      else isLower ((s ! 0) OR 0x20) \<and> h2Bytes s h2SchemeByte)"

definition h2ValidAuthority :: "bytes \<Rightarrow> bool" where
  "h2ValidAuthority s \<longleftrightarrow> h2Bytes s h2HostByte"

definition h2ValidHeaderName :: "bytes \<Rightarrow> bool" where
  "h2ValidHeaderName name \<longleftrightarrow>
     name \<noteq> [] \<and> list_all (\<lambda>i. h2ByteClass (name ! i) AND h2NameByte \<noteq> 0 \<or> (name ! i = 0x3a \<and> i = 0)) [0..<length name]"

definition h2ValidHeaderValue :: "bytes \<Rightarrow> bool" where
  "h2ValidHeaderValue v \<longleftrightarrow>
     h2Bytes v h2ValueByte \<and>
     \<not> (v \<noteq> [] \<and> (v ! 0 = 0x20 \<or> v ! 0 = 0x09 \<or> v ! (length v - 1) = 0x20 \<or> v ! (length v - 1) = 0x09))"

subsection \<open>Known fields\<close>

definition h2HopField :: "bytes \<Rightarrow> bool" where
  "h2HopField name =
     (if length name = 7 then name = str ''upgrade''
      else if length name = 10 then name = str ''connection'' \<or> name = str ''keep-alive''
      else if length name = 16 then name = str ''proxy-connection''
      else if length name = 17 then name = str ''transfer-encoding''
      else False)"

definition lowerByte :: "byte \<Rightarrow> byte" where
  "lowerByte c = (if isUpper c then c + 0x20 else c)"

definition toLower :: "(bytes \<Rightarrow> bytes) \<Rightarrow> bytes \<Rightarrow> bytes" where
  "toLower lower s = (if list_all (\<lambda>c. c < 0x80) s then map lowerByte s else lower s)"

fun capitalize :: "bool \<Rightarrow> bytes \<Rightarrow> bytes" where
  "capitalize upper [] = []"
| "capitalize upper (c # s) =
     (let c = (if upper \<and> isLower c then c - 0x20 else if \<not> upper \<and> isUpper c then c + 0x20 else c) in
      c # capitalize (c = 0x2d) s)"

definition CanonicalMIMEHeaderKey :: "bytes \<Rightarrow> bytes" where
  "CanonicalMIMEHeaderKey s = (if list_all tokenByte s then capitalize True s else s)"

definition lowerKeys :: "bytes list" where
  "lowerKeys = map str
     [''Accept'', ''Accept-Charset'', ''Accept-Encoding'', ''Accept-Language'', ''Accept-Ranges'',
      ''Access-Control-Allow-Headers'', ''Access-Control-Allow-Methods'', ''Access-Control-Allow-Origin'',
      ''Age'', ''Allow'', ''Authorization'', ''Cache-Control'', ''Content-Disposition'', ''Content-Encoding'',
      ''Content-Language'', ''Content-Length'', ''Content-Location'', ''Content-Range'', ''Content-Type'',
      ''Cookie'', ''Date'', ''Etag'', ''Expect'', ''Expires'', ''Forwarded'', ''Host'', ''If-Match'',
      ''Grpc-Accept-Encoding'', ''Grpc-Encoding'', ''Grpc-Message'', ''Grpc-Status'',
      ''Grpc-Status-Details-Bin'', ''Grpc-Timeout'',
      ''If-Modified-Since'', ''If-None-Match'', ''If-Range'', ''If-Unmodified-Since'', ''Last-Modified'',
      ''Link'', ''Location'', ''Origin'', ''Pragma'', ''Range'', ''Referer'', ''Retry-After'', ''Server'',
      ''Set-Cookie'', ''Strict-Transport-Security'', ''Te'', ''Trailer'', ''User-Agent'', ''Vary'', ''Via'',
      ''Www-Authenticate'', ''X-Content-Type-Options'', ''X-Forwarded-For'', ''X-Forwarded-Host'',
      ''X-Forwarded-Proto'', ''X-Frame-Options'', ''X-Real-Ip'', ''X-Request-Id'']"

definition hopKeys :: "bytes list" where
  "hopKeys = map str [''Connection'', ''Keep-Alive'', ''Proxy-Connection'', ''Transfer-Encoding'', ''Upgrade'']"

record h2KnownField =
  kkey :: bytes
  kname :: bytes
  khop :: bool

text \<open>The keys are ASCII, so what \<^verbatim>\<open>strings.ToLower\<close> does to other strings does not matter here.\<close>

definition knownField :: "bytes \<Rightarrow> h2KnownField" where
  "knownField key = (let name = toLower id key in \<lparr>kkey = key, kname = name, khop = h2HopField name\<rparr>)"

definition h2KnownNames :: "bytes \<rightharpoonup> h2KnownField" where
  "h2KnownNames = map_of (map (\<lambda>key. (kname (knownField key), knownField key)) (lowerKeys @ hopKeys))"

definition h2KnownKeys :: "bytes \<rightharpoonup> h2KnownField" where
  "h2KnownKeys = map_of (map (\<lambda>key. (key, knownField key)) (lowerKeys @ hopKeys))"

definition h2LowerKey :: "(bytes \<Rightarrow> bytes) \<Rightarrow> bytes \<Rightarrow> bytes" where
  "h2LowerKey lower key = (case h2KnownKeys key of Some known \<Rightarrow> kname known | None \<Rightarrow> toLower lower key)"

definition h2CanonicalKey :: "bytes \<Rightarrow> bytes" where
  "h2CanonicalKey name = (case h2KnownNames name of Some known \<Rightarrow> kkey known | None \<Rightarrow> CanonicalMIMEHeaderKey name)"

subsection \<open>The size of a header list\<close>

definition h2FieldSize :: "bytes \<Rightarrow> bytes \<Rightarrow> int" where
  "h2FieldSize name v = int (length name + length v) + 32"

fun h2PairsSize :: "bytes list \<Rightarrow> int" where
  "h2PairsSize (name # v # fs) = h2FieldSize name v + h2PairsSize fs"
| "h2PairsSize _ = 0"

subsection \<open>Lookups agree with what they stand for\<close>

lemmas byte_ranges = isDigit_def isLower_def isUpper_def
lemmas known_keys = lowerKeys_def hopKeys_def str_def

lemma class_bits:
  fixes a b p n v h :: bool
  defines "w \<equiv> (if a then 1 else 0) OR (if b then 2 else 0) OR (if p then 8 else 0) OR (if n then 16 else 0) OR
    (if v then 32 else 0) OR (if h then 4 else 0 :: byte)"
  shows "w AND 1 \<noteq> 0 \<longleftrightarrow> a" "w AND 2 \<noteq> 0 \<longleftrightarrow> b" "w AND 4 \<noteq> 0 \<longleftrightarrow> h" "w AND 8 \<noteq> 0 \<longleftrightarrow> p"
    "w AND 16 \<noteq> 0 \<longleftrightarrow> n" "w AND 32 \<noteq> 0 \<longleftrightarrow> v"
  unfolding w_def by (cases a; cases b; cases p; cases n; cases v; cases h; simp)+

lemma byte_classes:
  "h2ByteClass c AND h2TokenByte \<noteq> 0 \<longleftrightarrow> tokenByte c"
  "h2ByteClass c AND h2SchemeByte \<noteq> 0 \<longleftrightarrow> isDigit c \<or> isLower c \<or> isUpper c \<or> c = 0x2b \<or> c = 0x2d \<or> c = 0x2e"
  "h2ByteClass c AND h2HostByte \<noteq> 0 \<longleftrightarrow> isDigit c \<or> isLower c \<or> isUpper c \<or> c \<in> set hostMarks"
  "h2ByteClass c AND h2PathByte \<noteq> 0 \<longleftrightarrow> c > 0x20 \<and> c \<noteq> 0x7f"
  "h2ByteClass c AND h2NameByte \<noteq> 0 \<longleftrightarrow> c > 0x20 \<and> c < 0x7f \<and> \<not> isUpper c \<and> c \<noteq> 0x3a"
  "h2ByteClass c AND h2ValueByte \<noteq> 0 \<longleftrightarrow> c \<noteq> 0 \<and> c \<noteq> 0x0d \<and> c \<noteq> 0x0a"
  unfolding h2ByteClass_def h2_classes class_bits by (rule refl)+

text \<open>A canonical key of letters and hyphens.\<close>

fun shape :: "bool \<Rightarrow> bytes \<Rightarrow> bool" where
  "shape up [] = True"
| "shape up (c # s) \<longleftrightarrow> (if c = 0x2d then True else if up then isUpper c else isLower c) \<and> shape (c = 0x2d) s"

lemma known_shape: "list_all (shape True) (lowerKeys @ hopKeys)"
  by (simp add: known_keys byte_ranges)

lemma upper_lower: "isUpper c \<Longrightarrow> isLower (c + 0x20)"
  unfolding byte_ranges by (unat_arith, auto)

lemma letter_cases: "isUpper c \<Longrightarrow> \<not> isLower c" "isLower c \<Longrightarrow> \<not> isUpper c"
  by (simp_all add: byte_ranges word_le_nat_alt)

lemma printable: "isDigit c \<or> isLower c \<or> isUpper c \<Longrightarrow> 0x20 < c \<and> c < 0x7f \<and> c \<noteq> 0x3a \<and> c \<noteq> 0x2d"
  by (auto simp: byte_ranges word_le_nat_alt word_less_nat_alt)

lemma lower_of_shape:
  assumes "if c = 0x2d then True else if up then isUpper c else isLower c"
  shows "lowerByte c = 0x2d \<or> isLower (lowerByte c)" and "lowerByte c = 0x2d \<longleftrightarrow> c = 0x2d"
    and "(if up \<and> isLower (lowerByte c) then lowerByte c - 0x20
          else if \<not> up \<and> isUpper (lowerByte c) then lowerByte c + 0x20 else lowerByte c) = c"
proof -
  have hyphen: "\<not> isUpper 0x2d" "\<not> isLower 0x2d" by (simp_all add: byte_ranges)
  consider "c = 0x2d" | "c \<noteq> 0x2d" "up" "isUpper c" | "c \<noteq> 0x2d" "\<not> up" "isLower c" using assms by (auto split: if_splits)
  then have "(lowerByte c = 0x2d \<or> isLower (lowerByte c)) \<and> (lowerByte c = 0x2d \<longleftrightarrow> c = 0x2d) \<and>
    (if up \<and> isLower (lowerByte c) then lowerByte c - 0x20
          else if \<not> up \<and> isUpper (lowerByte c) then lowerByte c + 0x20 else lowerByte c) = c"
  proof cases
    case 1
    then show ?thesis using hyphen by (simp add: lowerByte_def)
  next
    case 2
    then have "lowerByte c = c + 0x20" "isLower (c + 0x20)" using upper_lower by (simp_all add: lowerByte_def)
    moreover have "c + 0x20 \<noteq> 0x2d" using calculation(2) hyphen(2) by metis
    ultimately show ?thesis using 2 by simp
  next
    case 3
    then have "lowerByte c = c" "\<not> isUpper c" using letter_cases(2) by (simp_all add: lowerByte_def)
    then show ?thesis using 3 by simp
  qed
  then show "lowerByte c = 0x2d \<or> isLower (lowerByte c)" and "lowerByte c = 0x2d \<longleftrightarrow> c = 0x2d"
    and "(if up \<and> isLower (lowerByte c) then lowerByte c - 0x20
          else if \<not> up \<and> isUpper (lowerByte c) then lowerByte c + 0x20 else lowerByte c) = c" by blast+
qed

lemma capitalize_shape: "shape up key \<Longrightarrow> capitalize up (map lowerByte key) = key"
proof (induction up key rule: shape.induct)
  case (2 up c s)
  then have "if c = 0x2d then True else if up then isUpper c else isLower c" by simp
  from lower_of_shape(3) [OF this] show ?case using 2 by (simp add: Let_def)
qed simp

lemma lower_shape: "shape up key \<Longrightarrow> list_all (\<lambda>c. c = 0x2d \<or> isLower c) (map lowerByte key)"
proof (induction up key rule: shape.induct)
  case (2 up c s)
  then have "if c = 0x2d then True else if up then isUpper c else isLower c" by simp
  from lower_of_shape(1) [OF this] show ?case using 2 by simp
qed simp

lemma toLower_known: "key \<in> set (lowerKeys @ hopKeys) \<Longrightarrow> toLower lower key = map lowerByte key"
proof -
  assume key: "key \<in> set (lowerKeys @ hopKeys)"
  have "list_all (\<lambda>key. list_all (\<lambda>c. c < 0x80) key) (lowerKeys @ hopKeys)" by (simp add: known_keys)
  then have "list_all (\<lambda>c. c < 0x80) key" using key unfolding list_all_iff by blast
  then show ?thesis by (simp add: toLower_def)
qed

lemma known_key: "key \<in> set (lowerKeys @ hopKeys) \<Longrightarrow> shape True key \<and> key \<noteq> []"
proof -
  assume key: "key \<in> set (lowerKeys @ hopKeys)"
  have "list_all (\<lambda>key. key \<noteq> []) (lowerKeys @ hopKeys)" by (simp add: known_keys)
  then show ?thesis using key known_shape unfolding list_all_iff by blast
qed

lemma known_name:
  assumes "h2KnownNames name = Some f"
  shows "\<exists>key. key \<in> set (lowerKeys @ hopKeys) \<and> f = knownField key \<and> name = map lowerByte key"
  using map_of_SomeD [OF assms [unfolded h2KnownNames_def]] toLower_known
  by (auto simp: knownField_def Let_def)

lemma hyphen_token: "c = 0x2d \<or> isLower c \<Longrightarrow> tokenByte c"
  by (auto simp: tokenByte_def tokenMarks_def)

lemma hyphen_name: "c = 0x2d \<or> isLower c \<Longrightarrow> h2ByteClass c AND h2NameByte \<noteq> 0"
  unfolding byte_classes using printable [of c] letter_cases(2) [of c] by (auto simp: isUpper_def)

text \<open>
  C32. The tables of known fields only save work: a key in lower case and a name's canonical key are
  always what \<^verbatim>\<open>strings.ToLower\<close> and \<^verbatim>\<open>textproto.CanonicalMIMEHeaderKey\<close> make of them, and a name found there is
  a valid one, stored as it is, and marked as hop-by-hop exactly when it is.
\<close>

theorem known_fields_agree:
  "h2LowerKey lower key = toLower lower key \<and> h2CanonicalKey name = CanonicalMIMEHeaderKey name \<and>
   (case h2KnownNames name of
      None \<Rightarrow> True
    | Some f \<Rightarrow> kname f = name \<and> h2ValidHeaderName name \<and> khop f = h2HopField name)"
proof -
  have "h2LowerKey lower key = toLower lower key"
  proof (cases "h2KnownKeys key")
    case (Some f)
    then have "key \<in> set (lowerKeys @ hopKeys)" "f = knownField key"
      using map_of_SomeD [OF Some [unfolded h2KnownKeys_def]] by auto
    then show ?thesis using Some toLower_known [of key] by (simp add: h2LowerKey_def knownField_def Let_def)
  qed (simp add: h2LowerKey_def)
  moreover have "kkey f = CanonicalMIMEHeaderKey name \<and> kname f = name \<and> h2ValidHeaderName name \<and> khop f = h2HopField name"
    if found: "h2KnownNames name = Some f" for f
  proof -
    obtain k where k: "k \<in> set (lowerKeys @ hopKeys)" "f = knownField k" "name = map lowerByte k"
      using known_name [OF found] by blast
    note low = lower_shape [OF conjunct1 [OF known_key [OF k(1)]]]
    have "list_all tokenByte name" using low hyphen_token unfolding k(3) list_all_iff by blast
    then have "CanonicalMIMEHeaderKey name = k"
      using capitalize_shape known_key [OF k(1)] by (simp add: CanonicalMIMEHeaderKey_def k(3))
    moreover have "h2ByteClass (name ! i) AND h2NameByte \<noteq> 0" if "i < length name" for i
      using low hyphen_name nth_mem [OF that] unfolding k(3) list_all_iff by blast
    then have "h2ValidHeaderName name" using known_key [OF k(1)] by (simp add: h2ValidHeaderName_def list_all_iff k(3))
    ultimately show ?thesis using k toLower_known [OF k(1)] by (simp add: knownField_def Let_def)
  qed
  then have "h2CanonicalKey name = CanonicalMIMEHeaderKey name" by (auto simp: h2CanonicalKey_def split: option.split)
  ultimately show ?thesis using \<open>\<And>f. h2KnownNames name = Some f \<Longrightarrow> _\<close> by (auto split: option.split)
qed

lemma marks_printable:
  "c \<in> set hostMarks \<Longrightarrow> 0x20 < c \<and> c < 0x7f" "c \<in> set tokenMarks \<Longrightarrow> 0x20 < c \<and> c < 0x7f"
  by (auto simp: hostMarks_def tokenMarks_def)

lemma class_printable:
  assumes "h2ByteClass c AND h2TokenByte \<noteq> 0 \<or> h2ByteClass c AND h2SchemeByte \<noteq> 0 \<or> h2ByteClass c AND h2HostByte \<noteq> 0 \<or>
    h2ByteClass c AND h2NameByte \<noteq> 0"
  shows "0x20 < c \<and> c < 0x7f"
  using assms printable [of c] marks_printable [of c] unfolding byte_classes tokenByte_def by auto

text \<open>
  C33. What a request's pseudo-header fields and a field's name are let through with cannot end or split a
  line of an HTTP/1 request: every byte of a valid method, scheme, authority or name is printable ASCII
  and not a space, and a valid value holds no NUL, CR or LF and neither starts nor ends with a space or
  a tab.
\<close>

theorem fields_cannot_split_lines:
  assumes "h2ValidMethod s \<or> h2ValidScheme s \<or> h2ValidAuthority s \<or> h2ValidHeaderName s" and "h2ValidHeaderValue v"
  shows "list_all (\<lambda>c. 0x20 < c \<and> c < 0x7f) s \<and> set v \<inter> {0x00, 0x0a, 0x0d} = {} \<and>
    takeWhile (\<lambda>c. c = 0x20 \<or> c = 0x09) v = [] \<and> takeWhile (\<lambda>c. c = 0x20 \<or> c = 0x09) (rev v) = []"
proof -
  have "list_all (\<lambda>c. 0x20 < c \<and> c < 0x7f) s"
  proof (cases "h2ValidHeaderName s")
    case True
    have "0x20 < s ! i \<and> s ! i < 0x7f" if "i < length s" for i
    proof -
      have "h2ByteClass (s ! i) AND h2NameByte \<noteq> 0 \<or> s ! i = 0x3a"
        using True that unfolding h2ValidHeaderName_def list_all_iff by auto
      then show ?thesis using class_printable [of "s ! i"] by auto
    qed
    then show ?thesis by (auto simp: list_all_iff in_set_conv_nth)
  next
    case False
    have "list_all (\<lambda>c. 0x20 < c \<and> c < 0x7f) (str ''https'')" "list_all (\<lambda>c. 0x20 < c \<and> c < 0x7f) (str ''http'')"
      by (simp_all add: str_def)
    then show ?thesis
      using assms(1) False class_printable
      by (auto simp: h2ValidMethod_def h2ValidScheme_def h2ValidAuthority_def h2Bytes_def list_all_iff split: if_splits)
  qed
  moreover have "set v \<inter> {0x00, 0x0a, 0x0d} = {}"
    using assms(2) unfolding h2ValidHeaderValue_def h2Bytes_def byte_classes list_all_iff by blast
  moreover have "takeWhile (\<lambda>c. c = 0x20 \<or> c = 0x09) v = []" "takeWhile (\<lambda>c. c = 0x20 \<or> c = 0x09) (rev v) = []"
    using assms(2) unfolding h2ValidHeaderValue_def takeWhile_eq_Nil_iff hd_rev
    by (auto simp: hd_conv_nth last_conv_nth)
  ultimately show ?thesis by blast
qed

theorem fields_cannot_split_lines_witness:
  "h2ValidMethod [0x47, 0x45, 0x54] \<and> h2ValidHeaderValue [0x61, 0x20, 0x62] \<and>
   list_all (\<lambda>c. 0x20 < c \<and> c < 0x7f) [0x47, 0x45, 0x54 :: byte] \<and> set [0x61, 0x20, 0x62] \<inter> {0x00, 0x0a, 0x0d :: byte} = {}"
proof -
  have "h2ValidMethod [0x47, 0x45, 0x54]"
    unfolding h2ValidMethod_def h2Bytes_def byte_classes by (simp add: tokenByte_def byte_ranges)
  moreover have "h2ValidHeaderValue [0x61, 0x20, 0x62]"
    unfolding h2ValidHeaderValue_def h2Bytes_def byte_classes by simp
  ultimately show ?thesis
    using fields_cannot_split_lines [of "[0x47, 0x45, 0x54]" "[0x61, 0x20, 0x62]"] by blast
qed

end
