(* ===== verification/Bt_Bitfield.thy ===== *)
theory Bt_Bitfield
  imports Fib_Prelude
begin

text \<open>
  The set of pieces of a torrent a BitTorrent peer has, \<^verbatim>\<open>bittorrent/peer/bitfield.go\<close>: piece 0 is the
  high bit of the first byte. The number of pieces and the piece an operation is asked for are Go
  integers, so an operation may be handed one that is out of range. \<^verbatim>\<open>bits.OnesCount8\<close> and
  \<^verbatim>\<open>bits.LeadingZeros8\<close> are given by the bits they look at.
\<close>

record Bitfield =
  fb :: bytes
  fn :: int

text \<open>Go's division rounds towards zero, and a slice of negative length cannot be made.\<close>

definition goDiv8 :: "int \<Rightarrow> int" where
  "goDiv8 x = (if x < 0 then - (- x div 8) else x div 8)"

definition NewBitfield :: "int \<Rightarrow> Bitfield option" where
  "NewBitfield n =
     (if goDiv8 (n + 7) < 0 then None else Some \<lparr>fb = replicate (nat (goDiv8 (n + 7))) 0, fn = n\<rparr>)"

definition ParseBitfield :: "bytes \<Rightarrow> int \<Rightarrow> Bitfield option" where
  "ParseBitfield b n =
     (if n < 0 \<or> int (length b) \<noteq> (n + 7) div 8 then None
      else if n mod 8 \<noteq> 0 \<and> (b ! (length b - 1)) AND drop_bit (nat (n mod 8)) 0xff \<noteq> 0 then None
      else Some \<lparr>fb = b, fn = n\<rparr>)"

definition Len :: "Bitfield \<Rightarrow> int" where "Len f = fn f"

definition Bytes :: "Bitfield \<Rightarrow> bytes" where "Bytes f = fb f"

text \<open>\<^verbatim>\<open>0x80 >> (i & 7)\<close>, the bit of piece \<open>i\<close> in its byte.\<close>

definition pieceBit :: "nat \<Rightarrow> byte" where
  "pieceBit i = drop_bit (i mod 8) 0x80"

definition Has :: "Bitfield \<Rightarrow> int \<Rightarrow> bool" where
  "Has f i = (if i < 0 \<or> i \<ge> fn f then False else (fb f ! (nat i div 8)) AND pieceBit (nat i) \<noteq> 0)"

definition SetPiece :: "Bitfield \<Rightarrow> int \<Rightarrow> Bitfield" where
  "SetPiece f i =
     (if 0 \<le> i \<and> i < fn f then f\<lparr>fb := (fb f)[nat i div 8 := (fb f ! (nat i div 8)) OR pieceBit (nat i)]\<rparr> else f)"

definition Clear :: "Bitfield \<Rightarrow> int \<Rightarrow> Bitfield" where
  "Clear f i =
     (if 0 \<le> i \<and> i < fn f then f\<lparr>fb := (fb f)[nat i div 8 := (fb f ! (nat i div 8)) AND NOT (pieceBit (nat i))]\<rparr> else f)"

definition SetAll :: "Bitfield \<Rightarrow> Bitfield option" where
  "SetAll f =
     (let b = map (\<lambda>_. 0xff) (fb f); r = fn f mod 8 in
      if r \<noteq> 0 then
        (if b = [] then None else Some (f\<lparr>fb := b[length b - 1 := push_bit (nat (8 - r)) 0xff]\<rparr>))
      else Some (f\<lparr>fb := b\<rparr>))"

definition ClearAll :: "Bitfield \<Rightarrow> Bitfield" where
  "ClearAll f = f\<lparr>fb := map (\<lambda>_. 0) (fb f)\<rparr>"

definition onesCount8 :: "byte \<Rightarrow> nat" where
  "onesCount8 x = length (filter (\<lambda>j. bit x (7 - j)) [0..<8])"

definition Count :: "Bitfield \<Rightarrow> nat" where
  "Count f = foldl (\<lambda>c b. c + onesCount8 b) 0 (fb f)"

definition All_pieces :: "Bitfield \<Rightarrow> bool" where "All_pieces f \<longleftrightarrow> int (Count f) = fn f"

definition No_pieces :: "Bitfield \<Rightarrow> bool" where "No_pieces f \<longleftrightarrow> Count f = 0"

definition Clone :: "Bitfield \<Rightarrow> Bitfield" where "Clone f = \<lparr>fb = fb f, fn = fn f\<rparr>"

definition leadingZeros8 :: "byte \<Rightarrow> nat" where
  "leadingZeros8 x = length (takeWhile (\<lambda>j. \<not> bit x (7 - j)) [0..<8])"

subsection \<open>Bits of a byte\<close>

lemma less_8: "(k :: nat) < 8 \<Longrightarrow> k = 0 \<or> k = 1 \<or> k = 2 \<or> k = 3 \<or> k = 4 \<or> k = 5 \<or> k = 6 \<or> k = 7"
  by linarith

lemma pieceBit_exp: "pieceBit i = 2 ^ (7 - i mod 8)"
proof -
  have "i mod 8 < 8" by simp
  from less_8 [OF this] show ?thesis unfolding pieceBit_def by (elim disjE) simp_all
qed

lemma bit_pieceBit: "bit (pieceBit i) m \<longleftrightarrow> m = 7 - i mod 8"
  unfolding pieceBit_exp by (auto simp: bit_simps)

lemma and_pieceBit: "w AND pieceBit i \<noteq> 0 \<longleftrightarrow> bit w (7 - i mod 8)"
  by (simp add: pieceBit_exp and_exp_eq_0_iff_not_bit)

text \<open>The loop of \<^verbatim>\<open>Missing\<close> over the bits of one byte takes the highest one each time.\<close>

lemma leadingZeros8_first:
  assumes "x \<noteq> 0"
  shows "leadingZeros8 x < 8" "bit x (7 - leadingZeros8 x)" "j < leadingZeros8 x \<Longrightarrow> \<not> bit x (7 - j)"
proof -
  have "\<exists>n. bit x n"
  proof (rule ccontr)
    assume "\<nexists>n. bit x n"
    then have "x = 0" by (intro bit_word_eqI) simp
    with assms show False by simp
  qed
  then obtain n where n: "bit x n" by blast
  then have "n < 8" using bit_imp_le_length [of x n] by simp
  then have ex: "7 - n \<in> set [0..<8]" "bit x (7 - (7 - n))" using n by simp_all
  let ?t = "takeWhile (\<lambda>j. \<not> bit x (7 - j)) [0..<8]"
  have "?t \<noteq> [0..<8]" using ex by (metis (mono_tags, lifting) set_takeWhileD)
  then show lt: "leadingZeros8 x < 8"
    using length_takeWhile_le [of "\<lambda>j. \<not> bit x (7 - j)" "[0..<8]"] takeWhile_eq_take [of _ "[0..<8]"]
    by (metis diff_zero leadingZeros8_def le_neq_implies_less length_upt take_all_iff order_refl)
  have "\<not> (\<not> bit x (7 - ([0..<8] ! leadingZeros8 x)))"
    unfolding leadingZeros8_def by (rule nth_length_takeWhile) (use lt in \<open>simp add: leadingZeros8_def\<close>)
  then show "bit x (7 - leadingZeros8 x)" using lt by simp
  show "\<not> bit x (7 - j)" if "j < leadingZeros8 x"
  proof -
    have "?t ! j \<in> set ?t" using that by (simp add: leadingZeros8_def)
    moreover have "?t ! j = j" using that lt by (simp add: leadingZeros8_def takeWhile_nth)
    ultimately show ?thesis by (metis (mono_tags, lifting) set_takeWhileD)
  qed
qed

function missLoop :: "nat \<Rightarrow> byte \<Rightarrow> nat list" where
  "missLoop base x =
     (if x \<noteq> 0 then (let j = leadingZeros8 x in (base + j) # missLoop base (x AND NOT (pieceBit j))) else [])"
  by pat_completeness auto
termination
proof (relation "measure (\<lambda>(base, x). card {j. j < 8 \<and> bit x (7 - j)})", goal_cases)
  case (2 base x j)
  then have "bit x (7 - j)" "j < 8" using leadingZeros8_first [of x] by simp_all
  then have "{k. k < 8 \<and> bit (x AND NOT (pieceBit j)) (7 - k)} \<subset> {k. k < 8 \<and> bit x (7 - k)}"
    by (auto simp: bit_simps bit_pieceBit)
  then show ?case by (simp add: psubset_card_mono)
qed simp

declare missLoop.simps [simp del]

text \<open>\<^verbatim>\<open>Missing\<close>, over the bytes both have.\<close>

definition Missing :: "Bitfield \<Rightarrow> nat list \<Rightarrow> Bitfield \<Rightarrow> nat list" where
  "Missing f dst other =
     foldl (\<lambda>dst i. dst @ missLoop (i * 8) ((fb other ! i) AND NOT (fb f ! i))) dst
       [0..<min (length (fb f)) (length (fb other))]"

lemma missLoop_filter: "missLoop base x = map ((+) base) (filter (\<lambda>j. bit x (7 - j)) [0..<8])"
proof (induction base x rule: missLoop.induct)
  case (1 base x)
  show ?case
  proof (cases "x = 0")
    case False
    define j where "j = leadingZeros8 x"
    note first = leadingZeros8_first [OF False, folded j_def]
    let ?y = "x AND NOT (pieceBit j)"
    have y: "bit ?y (7 - k) \<longleftrightarrow> bit x (7 - k) \<and> k \<noteq> j" if "k < 8" for k
      using that first(1) by (auto simp: bit_simps bit_pieceBit)
    have split: "[0..<8] = [0..<j] @ j # [Suc j..<8]" using first(1)
      by (metis le_add_diff_inverse less_imp_le upt_add_eq_append upt_conv_Cons zero_le)
    have "filter (\<lambda>k. bit x (7 - k)) [0..<8] = j # filter (\<lambda>k. bit x (7 - k)) [Suc j..<8]"
      unfolding split using first(2,3) by simp
    moreover have "filter (\<lambda>k. bit ?y (7 - k)) [0..<8] = filter (\<lambda>k. bit x (7 - k)) [Suc j..<8]"
    proof -
      have "filter (\<lambda>k. bit ?y (7 - k)) [0..<j] = []" using first(1,3) y by simp
      moreover have "filter (\<lambda>k. bit ?y (7 - k)) [Suc j..<8] = filter (\<lambda>k. bit x (7 - k)) [Suc j..<8]"
        by (rule filter_cong) (use y in auto)
      moreover have "\<not> bit ?y (7 - j)" using y [OF first(1)] by simp
      ultimately show ?thesis unfolding split by simp
    qed
    moreover have "missLoop base ?y = map ((+) base) (filter (\<lambda>k. bit ?y (7 - k)) [0..<8])"
      using 1 [OF False j_def] by simp
    ultimately show ?thesis using False by (simp add: missLoop.simps [of base x] j_def [symmetric])
  qed (simp add: missLoop.simps)
qed

subsection \<open>The set a bitfield is\<close>

definition pbit :: "bytes \<Rightarrow> nat \<Rightarrow> bool" where
  "pbit b p \<longleftrightarrow> bit (b ! (p div 8)) (7 - p mod 8)"

text \<open>As many bytes as the pieces take, and the spare bits of the last one clear.\<close>

definition bf_ok :: "Bitfield \<Rightarrow> bool" where
  "bf_ok f \<longleftrightarrow> 0 \<le> fn f \<and> length (fb f) = (nat (fn f) + 7) div 8 \<and>
     list_all (\<lambda>p. \<not> pbit (fb f) p) [nat (fn f)..<8 * length (fb f)]"

lemma Has_pbit: "Has f (int p) \<longleftrightarrow> int p < fn f \<and> pbit (fb f) p"
  by (auto simp: Has_def and_pieceBit pbit_def)

lemma Has_negative: "Has f j \<Longrightarrow> 0 \<le> j"
  by (simp add: Has_def split: if_splits)

lemma Has_allI:
  assumes "\<And>p. Has f (int p) = Q (int p)" and "\<And>j. j < 0 \<Longrightarrow> \<not> Q j"
  shows "\<forall>j. Has f j = Q j"
proof
  fix j :: int
  show "Has f j = Q j"
  proof (cases "j < 0")
    case True
    then show ?thesis using assms(2) Has_negative [of f j] by auto
  next
    case False
    then have "j = int (nat j)" by simp
    then obtain p where "j = int p" by blast
    then show ?thesis using assms(1) by simp
  qed
qed

lemma bf_ok_bounds: "bf_ok f \<Longrightarrow> int p < fn f \<Longrightarrow> p div 8 < length (fb f)"
  by (simp add: bf_ok_def)

lemma bf_ok_spare: "bf_ok f \<Longrightarrow> p < 8 * length (fb f) \<Longrightarrow> \<not> int p < fn f \<Longrightarrow> \<not> pbit (fb f) p"
  by (auto simp: bf_ok_def list_all_iff)

lemma bf_okI:
  assumes "0 \<le> fn f" and "length (fb f) = (nat (fn f) + 7) div 8"
    and "\<And>p. p < 8 * length (fb f) \<Longrightarrow> \<not> int p < fn f \<Longrightarrow> \<not> pbit (fb f) p"
  shows "bf_ok f"
  using assms by (auto simp: bf_ok_def list_all_iff)

text \<open>Updating the byte of piece \<open>i\<close> changes what \<open>q\<close> says of the pieces of that byte.\<close>

lemma pbit_update:
  assumes "i div 8 < length b"
  shows "pbit (b[i div 8 := w]) p = (if p div 8 = i div 8 then bit w (7 - p mod 8) else pbit b p)"
  using assms by (auto simp: pbit_def)

lemma same_piece: "p div 8 = i div 8 \<Longrightarrow> (7 - p mod 8 = 7 - i mod 8) = (p = i)" for p i :: nat
proof -
  assume d: "p div 8 = i div 8"
  have "p mod 8 < 8" "i mod 8 < 8" by simp_all
  then have "(7 - p mod 8 = 7 - i mod 8) = (p mod 8 = i mod 8)" by linarith
  also have "\<dots> = (p = i)" using d div_mult_mod_eq [of p 8] div_mult_mod_eq [of i 8] by auto
  finally show ?thesis .
qed

lemma pbit_set:
  assumes "n div 8 < length b"
  shows "pbit (b[n div 8 := (b ! (n div 8)) OR pieceBit n]) p \<longleftrightarrow> pbit b p \<or> p = n"
proof (cases "p div 8 = n div 8")
  case True
  have "pbit b p = bit (b ! (n div 8)) (7 - p mod 8)" by (simp add: pbit_def True)
  then show ?thesis unfolding pbit_update [OF assms] bit_or_iff bit_pieceBit same_piece [OF True] using True by simp
next
  case False
  then have "p \<noteq> n" by blast
  with False show ?thesis by (simp add: pbit_update [OF assms])
qed

lemma pbit_clear:
  assumes "n div 8 < length b"
  shows "pbit (b[n div 8 := (b ! (n div 8)) AND NOT (pieceBit n)]) p \<longleftrightarrow> pbit b p \<and> p \<noteq> n"
proof (cases "p div 8 = n div 8")
  case True
  have "pbit b p = bit (b ! (n div 8)) (7 - p mod 8)" by (simp add: pbit_def True)
  moreover have "7 - p mod 8 < LENGTH(8)" by simp
  ultimately show ?thesis
    unfolding pbit_update [OF assms] bit_and_iff bit_not_iff bit_pieceBit same_piece [OF True] using True by simp
next
  case False
  then have "p \<noteq> n" by blast
  with False show ?thesis by (simp add: pbit_update [OF assms])
qed

lemma Set_ok:
  assumes "bf_ok f"
  shows "bf_ok (SetPiece f i) \<and> (\<forall>j. Has (SetPiece f i) j \<longleftrightarrow> Has f j \<or> (j = i \<and> 0 \<le> i \<and> i < fn f))"
proof (cases "0 \<le> i \<and> i < fn f")
  case True
  define n where "n = nat i"
  have i: "i = int n" "int n < fn f" using True by (simp_all add: n_def)
  note lt = bf_ok_bounds [OF assms i(2)]
  have b: "pbit (fb (SetPiece f i)) p \<longleftrightarrow> pbit (fb f) p \<or> p = n" for p
    using pbit_set [OF lt, of p] i by (simp add: SetPiece_def)
  have f: "fn (SetPiece f i) = fn f" "length (fb (SetPiece f i)) = length (fb f)" by (simp_all add: SetPiece_def)
  have "bf_ok (SetPiece f i)"
  proof (rule bf_okI)
    show "0 \<le> fn (SetPiece f i)" "length (fb (SetPiece f i)) = (nat (fn (SetPiece f i)) + 7) div 8"
      using assms f by (simp_all add: bf_ok_def)
    show "\<not> pbit (fb (SetPiece f i)) p" if "p < 8 * length (fb (SetPiece f i))" "\<not> int p < fn (SetPiece f i)" for p
      using that f b [of p] i bf_ok_spare [OF assms, of p] by auto
  qed
  moreover have "\<forall>j. Has (SetPiece f i) j = (Has f j \<or> (j = i \<and> 0 \<le> i \<and> i < fn f))"
  proof (rule Has_allI)
    show "Has (SetPiece f i) (int p) = (Has f (int p) \<or> (int p = i \<and> 0 \<le> i \<and> i < fn f))" for p
      using i b [of p] f by (auto simp: Has_pbit)
    show "\<not> (Has f j \<or> (j = i \<and> 0 \<le> i \<and> i < fn f))" if "j < 0" for j
      using that Has_negative [of f j] by linarith
  qed
  ultimately show ?thesis by blast
next
  case False
  then have "SetPiece f i = f" unfolding SetPiece_def by (rule if_not_P)
  then show ?thesis using assms False by auto
qed

lemma Clear_ok:
  assumes "bf_ok f"
  shows "bf_ok (Clear f i) \<and> (\<forall>j. Has (Clear f i) j \<longleftrightarrow> Has f j \<and> j \<noteq> i)"
proof (cases "0 \<le> i \<and> i < fn f")
  case True
  define n where "n = nat i"
  have i: "i = int n" "int n < fn f" using True by (simp_all add: n_def)
  note lt = bf_ok_bounds [OF assms i(2)]
  have b: "pbit (fb (Clear f i)) p \<longleftrightarrow> pbit (fb f) p \<and> p \<noteq> n" for p
    using pbit_clear [OF lt, of p] i by (simp add: Clear_def)
  have f: "fn (Clear f i) = fn f" "length (fb (Clear f i)) = length (fb f)" by (simp_all add: Clear_def)
  have "bf_ok (Clear f i)"
  proof (rule bf_okI)
    show "0 \<le> fn (Clear f i)" "length (fb (Clear f i)) = (nat (fn (Clear f i)) + 7) div 8"
      using assms f by (simp_all add: bf_ok_def)
    show "\<not> pbit (fb (Clear f i)) p" if "p < 8 * length (fb (Clear f i))" "\<not> int p < fn (Clear f i)" for p
      using that f b [of p] i bf_ok_spare [OF assms, of p] by auto
  qed
  moreover have "\<forall>j. Has (Clear f i) j = (Has f j \<and> j \<noteq> i)"
  proof (rule Has_allI)
    show "Has (Clear f i) (int p) = (Has f (int p) \<and> int p \<noteq> i)" for p using i b [of p] f by (auto simp: Has_pbit)
    show "\<not> (Has f j \<and> j \<noteq> i)" if "j < 0" for j using that Has_negative [of f j] by linarith
  qed
  ultimately show ?thesis by blast
next
  case False
  then have "Clear f i = f" "\<not> Has f i" by (auto simp: Clear_def Has_def)
  then show ?thesis using assms by auto
qed

lemma filter_bytes:
  "concat (map (\<lambda>k. map ((+) (k * 8)) (filter (\<lambda>j. Q (k * 8 + j)) [0..<8])) [0..<m]) = filter Q [0..<8 * m]"
proof (induction m)
  case (Suc m)
  have "[0..<8 * Suc m] = [0..<8 * m] @ [8 * m..<8 * m + 8]" using upt_add_eq_append [of 0 "8 * m" 8] by (simp add: add.commute)
  moreover have "[8 * m..<8 * m + 8] = map ((+) (m * 8)) [0..<8]"
  proof -
    have "map ((+) (m * 8)) [0..<8] = map (\<lambda>i. i + 8 * m) [0..<8]" by (rule map_cong) (simp_all add: mult.commute)
    then show ?thesis using map_add_upt [of "8 * m" 8] by (simp add: add.commute)
  qed
  moreover have "map ((+) (m * 8)) (filter (\<lambda>j. Q (m * 8 + j)) [0..<8]) = filter Q (map ((+) (m * 8)) [0..<8])"
    by (simp add: filter_map comp_def)
  ultimately show ?case using Suc.IH by simp
qed simp

lemma piece_of_byte: "j < 8 \<Longrightarrow> pbit b (k * 8 + j) = bit (b ! k) (7 - j)"
  by (simp add: pbit_def)

text \<open>The pieces a well-formed bitfield has, in order, are what its bits say.\<close>

lemma filter_Has:
  assumes "bf_ok f" and "\<And>p. p < 8 * length (fb f) \<Longrightarrow> Q p \<longleftrightarrow> int p < fn f \<and> Q' p"
  shows "filter Q [0..<8 * length (fb f)] = filter Q' [0..<nat (fn f)]"
proof -
  define m where "m = 8 * length (fb f)"
  have n: "nat (fn f) \<le> m" "0 \<le> fn f" using assms(1) by (auto simp: bf_ok_def m_def)
  then have "[0..<m] = [0..<nat (fn f)] @ [nat (fn f)..<m]"
    using upt_add_eq_append [of 0 "nat (fn f)" "m - nat (fn f)"] by simp
  moreover have "filter Q [nat (fn f)..<m] = []" using assms(2) n by (auto simp: m_def filter_empty_conv)
  moreover have "filter Q [0..<nat (fn f)] = filter Q' [0..<nat (fn f)]"
    by (rule filter_cong) (use assms(2) n in \<open>auto simp: m_def\<close>)
  ultimately show ?thesis by (simp add: m_def)
qed

lemma Count_length:
  assumes "bf_ok f"
  shows "Count f = length (filter (\<lambda>p. Has f (int p)) [0..<nat (fn f)])"
proof -
  have "foldl (\<lambda>c b. c + onesCount8 b) c bs = c + sum_list (map onesCount8 bs)" for c bs
    by (induction bs arbitrary: c) simp_all
  then have "Count f = sum_list (map onesCount8 (fb f))" by (simp add: Count_def)
  also have "\<dots> = sum_list (map (\<lambda>k. onesCount8 (fb f ! k)) [0..<length (fb f)])"
  proof -
    have "map onesCount8 (fb f) = map (\<lambda>k. onesCount8 (fb f ! k)) [0..<length (fb f)]" by (rule nth_equalityI) simp_all
    then show ?thesis by (rule arg_cong)
  qed
  also have "\<dots> = sum_list (map (\<lambda>k. length (map ((+) (k * 8)) (filter (\<lambda>j. pbit (fb f) (k * 8 + j)) [0..<8]))) [0..<length (fb f)])"
  proof -
    have "onesCount8 (fb f ! k) = length (map ((+) (k * 8)) (filter (\<lambda>j. pbit (fb f) (k * 8 + j)) [0..<8]))" for k
    proof -
      have "filter (\<lambda>j. pbit (fb f) (k * 8 + j)) [0..<8] = filter (\<lambda>j. bit (fb f ! k) (7 - j)) [0..<8]"
        by (rule filter_cong) (simp_all add: piece_of_byte)
      then show ?thesis by (simp add: onesCount8_def)
    qed
    then show ?thesis by simp
  qed
  also have "\<dots> = length (filter (pbit (fb f)) [0..<8 * length (fb f)])"
    unfolding filter_bytes [symmetric] length_concat map_map comp_def ..
  also have "filter (pbit (fb f)) [0..<8 * length (fb f)] = filter (\<lambda>p. Has f (int p)) [0..<nat (fn f)]"
    by (rule filter_Has [OF assms]) (use bf_ok_spare [OF assms] in \<open>auto simp: Has_pbit\<close>)
  finally show ?thesis .
qed

lemma Missing_pieces:
  assumes "bf_ok f" and "bf_ok g" and "fn g = fn f"
  shows "Missing f dst g = dst @ filter (\<lambda>p. Has g (int p) \<and> \<not> Has f (int p)) [0..<nat (fn f)]"
proof -
  let ?Q = "\<lambda>p. pbit (fb g) p \<and> \<not> pbit (fb f) p"
  have len: "length (fb g) = length (fb f)" using assms by (simp add: bf_ok_def)
  have fold: "foldl (\<lambda>dst i. dst @ h i) dst xs = dst @ concat (map h xs)" for h :: "nat \<Rightarrow> nat list" and xs
    by (induction xs arbitrary: dst) simp_all
  have byte: "missLoop (k * 8) ((fb g ! k) AND NOT (fb f ! k)) = map ((+) (k * 8)) (filter (\<lambda>j. ?Q (k * 8 + j)) [0..<8])" for k
  proof -
    have "filter (\<lambda>j. bit ((fb g ! k) AND NOT (fb f ! k)) (7 - j)) [0..<8] = filter (\<lambda>j. ?Q (k * 8 + j)) [0..<8]"
      by (rule filter_cong) (auto simp: piece_of_byte bit_and_iff bit_not_iff)
    then show ?thesis by (simp add: missLoop_filter)
  qed
  have "Missing f dst g = dst @ filter ?Q [0..<8 * length (fb f)]"
    unfolding Missing_def fold byte len min.idem filter_bytes [of ?Q] ..
  also have "filter ?Q [0..<8 * length (fb f)] = filter (\<lambda>p. Has g (int p) \<and> \<not> Has f (int p)) [0..<nat (fn f)]"
    by (rule filter_Has [OF assms(1)])
      (use bf_ok_spare [OF assms(2)] assms(3) len in \<open>auto simp: Has_pbit\<close>)
  finally show ?thesis .
qed

lemma bit_ff: "n < 8 \<Longrightarrow> bit (0xff :: byte) n"
proof -
  assume "n < 8"
  moreover have "(0xff :: byte) = mask 8" by (simp add: mask_eq_exp_minus_1)
  ultimately show ?thesis by (simp only: bit_mask_iff possible_bit_word, simp)
qed

text \<open>How many bytes a number of pieces takes, and how many pieces are in the last one.\<close>

lemma byte_count:
  fixes n :: nat
  shows "n mod 8 = 0 \<Longrightarrow> 8 * ((n + 7) div 8) = n"
    and "n mod 8 \<noteq> 0 \<Longrightarrow> 0 < (n + 7) div 8 \<and> n = 8 * ((n + 7) div 8 - 1) + n mod 8"
proof -
  define q r where "q = n div 8" and "r = n mod 8"
  have n: "n = 8 * q + r" "r < 8" by (simp_all add: q_def r_def)
  show "8 * ((n + 7) div 8) = n" if "n mod 8 = 0"
  proof -
    have "r = 0" using that by (simp add: r_def)
    then have "n = 8 * q" using n(1) by simp
    then show ?thesis by simp
  qed
  show "0 < (n + 7) div 8 \<and> n = 8 * ((n + 7) div 8 - 1) + n mod 8" if "n mod 8 \<noteq> 0"
  proof -
    have "0 < r" using that r_def by simp
    then have d: "(n + 7) div 8 = q + 1" using n by simp
    show ?thesis unfolding r_def [symmetric] d using n(1) by simp
  qed
qed

lemma pieces_mod: "0 \<le> n \<Longrightarrow> n mod 8 = int (nat n mod 8)"
  by (simp add: zmod_int)

lemma whole_bitfield:
  assumes "0 \<le> fn a" and "length (fb a) = (nat (fn a) + 7) div 8"
    and "\<And>p. p < 8 * length (fb a) \<Longrightarrow> pbit (fb a) p \<longleftrightarrow> int p < fn a"
  shows "bf_ok a \<and> (\<forall>j. Has a j \<longleftrightarrow> 0 \<le> j \<and> j < fn a)"
proof
  show ok: "bf_ok a" using assms by (intro bf_okI) simp_all
  show "\<forall>j. Has a j \<longleftrightarrow> 0 \<le> j \<and> j < fn a"
  proof (rule Has_allI)
    fix p
    have "p < 8 * length (fb a)" if "int p < fn a" using bf_ok_bounds [OF ok that] by linarith
    then show "Has a (int p) = (0 \<le> int p \<and> int p < fn a)" using assms(3) by (auto simp: Has_pbit)
  qed simp
qed

lemma SetAll_ok:
  assumes "bf_ok f"
  shows "\<exists>a. SetAll f = Some a \<and> bf_ok a \<and> fn a = fn f \<and> (\<forall>j. Has a j \<longleftrightarrow> 0 \<le> j \<and> j < fn f)"
proof -
  define n where "n = nat (fn f)"
  define L where "L = length (fb f)"
  have f: "fn f = int n" "L = (n + 7) div 8" using assms by (simp_all add: bf_ok_def n_def L_def)
  have r: "fn f mod 8 = int (n mod 8)" by (simp add: f zmod_int)
  have full: "pbit (map (\<lambda>_. 0xff) (fb f)) p" if "p < 8 * L" for p
    using that bit_ff [of "7 - p mod 8"] by (simp add: pbit_def L_def less_mult_imp_div_less mult.commute)
  show ?thesis
  proof (cases "n mod 8 = 0")
    case True
    let ?a = "f\<lparr>fb := map (\<lambda>_. 0xff) (fb f)\<rparr>"
    have "SetAll f = Some ?a" using r True by (simp add: SetAll_def)
    moreover have "bf_ok ?a \<and> (\<forall>j. Has ?a j \<longleftrightarrow> 0 \<le> j \<and> j < fn ?a)"
      by (rule whole_bitfield) (use f full byte_count(1) [OF True] in \<open>simp_all add: L_def\<close>)
    ultimately show ?thesis by auto
  next
    case False
    let ?b = "(map (\<lambda>_. 0xff) (fb f))[L - 1 := push_bit (8 - n mod 8) 0xff]"
    let ?a = "f\<lparr>fb := ?b\<rparr>"
    note last = byte_count(2) [OF False, folded f(2)]
    have "nat (8 - fn f mod 8) = 8 - n mod 8" by (simp add: r nat_diff_distrib')
    then have "SetAll f = Some ?a" using r False last by (auto simp: SetAll_def Let_def L_def)
    moreover have "bf_ok ?a \<and> (\<forall>j. Has ?a j \<longleftrightarrow> 0 \<le> j \<and> j < fn ?a)"
    proof (rule whole_bitfield)
      fix p assume "p < 8 * length (fb ?a)"
      then have p: "p < 8 * L" by (simp add: L_def)
      have pd: "p = 8 * (p div 8) + p mod 8" "p mod 8 < 8" "p div 8 < L" using p by simp_all
      show "pbit (fb ?a) p = (int p < fn ?a)"
      proof (cases "p div 8 = L - 1")
        case True
        then have "pbit ?b p \<longleftrightarrow> bit (push_bit (8 - n mod 8) (0xff :: byte)) (7 - p mod 8)"
          using pd by (simp add: pbit_def L_def)
        also have "\<dots> \<longleftrightarrow> 8 - n mod 8 \<le> 7 - p mod 8"
          using bit_ff [of "7 - p mod 8 - (8 - n mod 8)"] by (auto simp: bit_push_bit_iff)
        also have "\<dots> \<longleftrightarrow> p mod 8 < n mod 8" using pd(2) by linarith
        also have "\<dots> \<longleftrightarrow> p < n" using True pd(1) last by linarith
        finally show ?thesis by (simp add: f)
      next
        case False
        then have "p div 8 < L - 1" using pd(3) by linarith
        then have "p < n" using pd(1,2) last by linarith
        moreover have "pbit ?b p" using full [OF p] False by (simp add: pbit_def)
        ultimately show ?thesis by (simp add: f)
      qed
    qed (use f in \<open>simp_all add: L_def\<close>)
    ultimately show ?thesis by auto
  qed
qed

lemma ClearAll_ok: "bf_ok f \<Longrightarrow> bf_ok (ClearAll f) \<and> (\<forall>j. \<not> Has (ClearAll f) j)"
proof -
  assume ok: "bf_ok f"
  have clear: "\<not> pbit (fb (ClearAll f)) p" if "p < 8 * length (fb f)" for p
    using that by (simp add: ClearAll_def pbit_def less_mult_imp_div_less mult.commute)
  have "bf_ok (ClearAll f)"
    by (rule bf_okI) (use ok clear in \<open>simp_all add: bf_ok_def ClearAll_def\<close>)
  moreover have "\<forall>j. Has (ClearAll f) j = False"
  proof (rule Has_allI)
    fix p
    have "int p < fn f \<Longrightarrow> p < 8 * length (fb f)" using bf_ok_bounds [OF ok, of p] by linarith
    then show "Has (ClearAll f) (int p) = False" using clear [of p] by (auto simp: Has_pbit ClearAll_def)
  qed simp
  ultimately show ?thesis by simp
qed

text \<open>
  C34. The operations on a bitfield are those of a set of pieces. Setting and clearing one piece changes
  that piece and no other, and nothing for a piece there is none of; setting and clearing all leaves all
  and none; the count is the number of pieces in the set; and what is missing is the other's pieces
  that this one lacks, each once and in order. The length and the clear spare bits that a bitfield
  message must have are kept by all of them.
\<close>

theorem bitfield_is_set:
  assumes "bf_ok f" and "bf_ok g" and "fn g = fn f"
  shows "bf_ok (SetPiece f i) \<and> (\<forall>j. Has (SetPiece f i) j \<longleftrightarrow> Has f j \<or> (j = i \<and> 0 \<le> i \<and> i < fn f)) \<and>
    bf_ok (Clear f i) \<and> (\<forall>j. Has (Clear f i) j \<longleftrightarrow> Has f j \<and> j \<noteq> i) \<and>
    (\<exists>a. SetAll f = Some a \<and> bf_ok a \<and> fn a = fn f \<and> (\<forall>j. Has a j \<longleftrightarrow> 0 \<le> j \<and> j < fn f)) \<and>
    bf_ok (ClearAll f) \<and> (\<forall>j. \<not> Has (ClearAll f) j) \<and>
    Count f = length (filter (\<lambda>p. Has f (int p)) [0..<nat (fn f)]) \<and>
    Missing f dst g = dst @ filter (\<lambda>p. Has g (int p) \<and> \<not> Has f (int p)) [0..<nat (fn f)]"
  using Set_ok [OF assms(1)] Clear_ok [OF assms(1)] SetAll_ok [OF assms(1)] ClearAll_ok [OF assms(1)]
    Count_length [OF assms(1)] Missing_pieces [OF assms] by blast

lemma bf_ok_example: "bf_ok \<lparr>fb = [0xa0, 0x80], fn = 10\<rparr>" "bf_ok \<lparr>fb = [0x60, 0x40], fn = 10\<rparr>"
  by (simp_all add: bf_ok_def pbit_def bit_numeral_rec upt_rec)

theorem bitfield_is_set_witness:
  "bf_ok (SetPiece \<lparr>fb = [0xa0, 0x80], fn = 10\<rparr> 9) \<and> Count \<lparr>fb = [0xa0, 0x80], fn = 10\<rparr> = 3 \<and>
   Missing \<lparr>fb = [0xa0, 0x80], fn = 10\<rparr> [7] \<lparr>fb = [0x60, 0x40], fn = 10\<rparr> = [7, 1, 9]"
proof -
  let ?f = "\<lparr>fb = [0xa0, 0x80], fn = 10\<rparr>" and ?g = "\<lparr>fb = [0x60, 0x40], fn = 10\<rparr>"
  have "filter (\<lambda>p. Has ?f (int p)) [0..<nat (fn ?f)] = [0, 2, 8]"
    "filter (\<lambda>p. Has ?g (int p) \<and> \<not> Has ?f (int p)) [0..<nat (fn ?f)] = [1, 9]"
    by (simp_all add: upt_rec Has_def pieceBit_def)
  then show ?thesis using bitfield_is_set [OF bf_ok_example, of 9 "[7]"] by simp
qed

lemma and_zero_bits: "w AND v = 0 \<longleftrightarrow> (\<forall>m < 8. \<not> (bit w m \<and> bit v m))" for w v :: byte
proof
  assume "w AND v = 0"
  then show "\<forall>m < 8. \<not> (bit w m \<and> bit v m)" by (metis bit_and_iff bit_0_eq bot_apply bot_bool_def)
next
  assume "\<forall>m < 8. \<not> (bit w m \<and> bit v m)"
  then show "w AND v = 0" by (intro bit_word_eqI) (simp add: bit_and_iff)
qed

lemma spare_bits:
  assumes "n mod 8 \<noteq> 0" and "length b = (n + 7) div 8"
  shows "(b ! (length b - 1)) AND drop_bit (n mod 8) 0xff = 0 \<longleftrightarrow> list_all (\<lambda>p. \<not> pbit b p) [n..<8 * length b]"
proof -
  define L where "L = length b"
  define r where "r = n mod 8"
  have n: "0 < L" "n = 8 * (L - 1) + r" "r < 8" using byte_count(2) [OF assms(1)] by (simp_all add: L_def r_def assms(2))
  have v: "bit (drop_bit r (0xff :: byte)) m \<longleftrightarrow> m + r < 8" if "m < 8" for m
    using bit_ff [of "r + m"] bit_imp_le_length [of "0xff :: byte" "r + m"] by (auto simp: bit_drop_bit_eq)
  have "(b ! (L - 1)) AND drop_bit r 0xff = 0 \<longleftrightarrow> (\<forall>m < 8. bit (b ! (L - 1)) m \<longrightarrow> \<not> m + r < 8)"
    using v by (auto simp: and_zero_bits)
  also have "\<dots> \<longleftrightarrow> (\<forall>p. n \<le> p \<and> p < 8 * L \<longrightarrow> \<not> pbit b p)"
  proof safe
    fix p assume h: "\<forall>m < 8. bit (b ! (L - 1)) m \<longrightarrow> \<not> m + r < 8" "n \<le> p" "p < 8 * L" "pbit b p"
    define q where "q = p - 8 * (L - 1)"
    have q: "p = 8 * (L - 1) + q" "r \<le> q" "q < 8" using h(2,3) n by (simp_all add: q_def)
    then have "p div 8 = L - 1" "p mod 8 = q" by simp_all
    then have "bit (b ! (L - 1)) (7 - q)" using h(4) by (simp add: pbit_def)
    moreover have "7 - q < 8" "7 - q + r < 8" using q(2,3) by linarith+
    ultimately show False using h(1) by blast
  next
    fix m assume h: "\<forall>p. n \<le> p \<and> p < 8 * L \<longrightarrow> \<not> pbit b p" "m < 8" "bit (b ! (L - 1)) m" "m + r < 8"
    let ?p = "8 * (L - 1) + (7 - m)"
    have "?p div 8 = L - 1" "?p mod 8 = 7 - m" by simp_all
    then have "pbit b ?p" using h(2,3) by (simp add: pbit_def)
    moreover have "n \<le> ?p" "?p < 8 * L" using h(2,4) n by linarith+
    ultimately show False using h(1) by blast
  qed
  finally show ?thesis by (auto simp: L_def r_def list_all_iff)
qed

text \<open>
  C35. \<^verbatim>\<open>ParseBitfield\<close> accepts exactly the payloads a bitfield message may carry for the number of
  pieces there are, and returns the bitfield whose bytes they are; so it takes back what \<^verbatim>\<open>Bytes\<close> gives,
  and refuses a payload that is too short or too long or has a spare bit set.
\<close>

theorem parse_bitfield_exact:
  "ParseBitfield b n = Some f \<longleftrightarrow> bf_ok f \<and> Bytes f = b \<and> Len f = n"
proof (cases "n < 0")
  case True
  then show ?thesis by (auto simp: ParseBitfield_def bf_ok_def Len_def)
next
  case False
  define k where "k = nat n"
  have n: "n = int k" using False by (simp add: k_def)
  have m: "n mod 8 = int (k mod 8)" "(n + 7) div 8 = int ((k + 7) div 8)" by (simp_all add: n zmod_int zdiv_int)
  have ok: "bf_ok \<lparr>fb = b, fn = n\<rparr> \<longleftrightarrow> length b = (k + 7) div 8 \<and> list_all (\<lambda>p. \<not> pbit b p) [k..<8 * length b]"
    by (simp add: bf_ok_def n)
  have "ParseBitfield b n = (if bf_ok \<lparr>fb = b, fn = n\<rparr> then Some \<lparr>fb = b, fn = n\<rparr> else None)"
  proof (cases "length b = (k + 7) div 8")
    case True
    show ?thesis
    proof (cases "k mod 8 = 0")
      case z: True
      then have "8 * length b = k" using byte_count(1) True by simp
      then show ?thesis using True z m False ok by (simp add: ParseBitfield_def)
    next
      case nz: False
      then show ?thesis using spare_bits [OF nz True] True m False ok by (simp add: ParseBitfield_def)
    qed
  qed (use ok m False in \<open>simp add: ParseBitfield_def\<close>)
  then show ?thesis by (cases f) (auto simp: Bytes_def Len_def)
qed

end
