(* ===== verification/Dht_Id.thy ===== *)
theory Dht_Id
  imports Bt_Bitfield Big_Endian
begin

text \<open>
  Identifiers and compact node information of the BitTorrent DHT, \<^verbatim>\<open>bittorrent/dht/id.go\<close>. An identifier is
  a list of 20 bytes. A \<^verbatim>\<open>netip.Addr\<close> is the 4 or 16 bytes it holds; zones, which the compact forms do not
  carry, are left out. What \<^verbatim>\<open>crypto/rand\<close> gives is an argument.
\<close>

subsection \<open>Identifiers\<close>

type_synonym ID = bytes

definition is_id :: "ID \<Rightarrow> bool" where "is_id a \<longleftrightarrow> length a = 20"

text \<open>\<^verbatim>\<open>encoding/hex\<close>.\<close>

definition hexNibble :: "byte \<Rightarrow> byte" where
  "hexNibble d = (if d < 10 then 0x30 + d else 0x61 + (d - 10))"

definition fromHexChar :: "byte \<Rightarrow> byte option" where
  "fromHexChar c =
     (if 0x30 \<le> c \<and> c \<le> 0x39 then Some (c - 0x30)
      else if 0x61 \<le> c \<and> c \<le> 0x66 then Some (c - 0x61 + 10)
      else if 0x41 \<le> c \<and> c \<le> 0x46 then Some (c - 0x41 + 10)
      else None)"

definition hexEncode :: "bytes \<Rightarrow> bytes" where
  "hexEncode bs = concat (map (\<lambda>b. [hexNibble (drop_bit 4 b), hexNibble (b AND 0x0f)]) bs)"

text \<open>\<^verbatim>\<open>hex.Decode\<close>: the bytes written before the first digit that is not one, and whether there was none.\<close>

fun hexDecode :: "bytes \<Rightarrow> bytes \<times> bool" where
  "hexDecode [] = ([], True)"
| "hexDecode [c] = ([], False)"
| "hexDecode (c # d # s) =
     (case (fromHexChar c, fromHexChar d) of
        (Some x, Some y) \<Rightarrow> (case hexDecode s of (bs, ok) \<Rightarrow> ((push_bit 4 x OR y) # bs, ok))
      | _ \<Rightarrow> ([], False))"

text \<open>With an error the identifier holds what was decoded before it.\<close>

definition ParseID :: "bytes \<Rightarrow> ID \<times> bool" where
  "ParseID s =
     (if length s \<noteq> 40 then (replicate 20 0, False)
      else (case hexDecode s of (bs, ok) \<Rightarrow> (bs @ replicate (20 - length bs) 0, ok)))"

definition IDString :: "ID \<Rightarrow> bytes" where "IDString a = hexEncode a"

definition IsZero :: "ID \<Rightarrow> bool" where "IsZero a \<longleftrightarrow> a = replicate 20 0"

definition Xor :: "ID \<Rightarrow> ID \<Rightarrow> ID" where
  "Xor a b = map (\<lambda>i. a ! i XOR b ! i) [0..<20]"

fun cmpLoop :: "(byte \<times> byte \<times> byte) list \<Rightarrow> int" where
  "cmpLoop [] = 0"
| "cmpLoop ((x, a, b) # r) =
     (let da = a XOR x; db = b XOR x in if da \<noteq> db then (if da < db then -1 else 1) else cmpLoop r)"

definition cmpDistance :: "ID \<Rightarrow> ID \<Rightarrow> ID \<Rightarrow> int" where
  "cmpDistance x a b = cmpLoop (zip x (zip a b))"

definition Closer :: "ID \<Rightarrow> ID \<Rightarrow> ID \<Rightarrow> bool" where
  "Closer x a b \<longleftrightarrow> cmpDistance x a b < 0"

fun prefixLoop :: "nat \<Rightarrow> (byte \<times> byte) list \<Rightarrow> nat" where
  "prefixLoop i [] = 160"
| "prefixLoop i ((x, y) # r) = (if x XOR y \<noteq> 0 then i * 8 + leadingZeros8 (x XOR y) else prefixLoop (Suc i) r)"

definition commonPrefixLen :: "ID \<Rightarrow> ID \<Rightarrow> nat" where
  "commonPrefixLen a b = prefixLoop 0 (zip a b)"

definition id_bit :: "ID \<Rightarrow> nat \<Rightarrow> bool" where
  "id_bit a i \<longleftrightarrow> (a ! (i div 8)) AND pieceBit i \<noteq> 0"

definition setBit :: "ID \<Rightarrow> nat \<Rightarrow> bool \<Rightarrow> ID" where
  "setBit a i v =
     (if v then a[i div 8 := (a ! (i div 8)) OR pieceBit i] else a[i div 8 := (a ! (i div 8)) AND NOT (pieceBit i)])"

text \<open>
  The loop copies the bits below \<open>n\<close>, and below 160. A negative \<open>n\<close> is out of the identifier's bounds when
  its bit is asked for.
\<close>

definition randomIDWithPrefix :: "ID \<Rightarrow> ID \<Rightarrow> int \<Rightarrow> bool \<Rightarrow> ID option" where
  "randomIDWithPrefix rnd a n exact =
     (let r = foldl (\<lambda>r i. setBit r i (id_bit a i)) rnd [0..<nat (min n 160)] in
      if exact \<and> n < 160 then
        (if n < 0 then None else Some (setBit r (nat n) (\<not> id_bit a (nat n))))
      else Some r)"

subsection \<open>Addresses\<close>

datatype addr = V4 bytes | V6 bytes

text \<open>\<^verbatim>\<open>netip.Addr.Unmap\<close>: an IPv4-mapped IPv6 address as the IPv4 address it is.\<close>

definition mapped :: bytes where "mapped = replicate 10 0 @ [0xff, 0xff]"

definition Unmap :: "addr \<Rightarrow> addr" where
  "Unmap a = (case a of V4 b \<Rightarrow> V4 b | V6 b \<Rightarrow> if take 12 b = mapped then V4 (drop 12 b) else V6 b)"

definition Is4 :: "addr \<Rightarrow> bool" where
  "Is4 a = (case a of V4 b \<Rightarrow> True | V6 b \<Rightarrow> False)"

definition addrBytes :: "addr \<Rightarrow> bytes" where
  "addrBytes a = (case a of V4 b \<Rightarrow> b | V6 b \<Rightarrow> b)"

definition IsUnspecified :: "addr \<Rightarrow> bool" where
  "IsUnspecified a \<longleftrightarrow> list_all (\<lambda>b. b = 0) (addrBytes a)"

record NodeInfo =
  nID :: ID
  nAddr :: addr
  nPort :: uint16

definition compactAddr4 :: nat where "compactAddr4 = 6"
definition compactAddr6 :: nat where "compactAddr6 = 18"
definition compactNode4 :: nat where "compactNode4 = 20 + compactAddr4"
definition compactNode6 :: nat where "compactNode6 = 20 + compactAddr6"

lemmas compact_sizes = compactAddr4_def compactAddr6_def compactNode4_def compactNode6_def

definition appendCompactAddr :: "bytes \<Rightarrow> addr \<Rightarrow> uint16 \<Rightarrow> bytes" where
  "appendCompactAddr dst a port = dst @ addrBytes (Unmap a) @ be_bytes 2 port"

definition parseCompactAddr :: "bytes \<Rightarrow> (addr \<times> uint16) option" where
  "parseCompactAddr b =
     (let port = push_bit 8 (ucast (b ! (length b - 2))) OR ucast (b ! (length b - 1)) in
      if length b = compactAddr4 then Some (V4 (take 4 b), port)
      else if length b = compactAddr6 then Some (V6 (take 16 b), port)
      else None)"

definition appendCompactNodes :: "bytes \<Rightarrow> NodeInfo list \<Rightarrow> bool \<Rightarrow> bytes" where
  "appendCompactNodes dst nodes v6 =
     foldl (\<lambda>dst n. if Is4 (Unmap (nAddr n)) = v6 then dst else appendCompactAddr (dst @ nID n) (nAddr n) (nPort n)) dst nodes"

fun nodesLoop :: "nat \<Rightarrow> bytes \<Rightarrow> NodeInfo list \<Rightarrow> NodeInfo list" where
  "nodesLoop sz b nodes =
     (if b = [] \<or> sz = 0 then nodes
      else
        (case parseCompactAddr (drop 20 (take sz b)) of
           None \<Rightarrow> nodesLoop sz (drop sz b) nodes
         | Some (a, port) \<Rightarrow>
             if port = 0 \<or> IsUnspecified a then nodesLoop sz (drop sz b) nodes
             else nodesLoop sz (drop sz b) (nodes @ [\<lparr>nID = take 20 b, nAddr = a, nPort = port\<rparr>])))"

definition parseCompactNodes :: "bytes \<Rightarrow> bool \<Rightarrow> NodeInfo list option" where
  "parseCompactNodes b v6 =
     (let sz = (if v6 then compactNode6 else compactNode4) in
      if length b mod sz \<noteq> 0 then None else Some (nodesLoop sz b []))"

declare nodesLoop.simps [simp del]

definition unmapNode :: "NodeInfo \<Rightarrow> NodeInfo" where
  "unmapNode n = n\<lparr>nAddr := Unmap (nAddr n)\<rparr>"

subsection \<open>Distance\<close>

text \<open>A list of bytes as an unsigned integer, the first byte the most significant.\<close>

fun idval :: "bytes \<Rightarrow> nat" where
  "idval [] = 0"
| "idval (b # bs) = unat b * 256 ^ length bs + idval bs"

lemma idval_bound: "idval bs < 256 ^ length bs"
proof (induction bs)
  case (Cons b bs)
  have "unat b * 256 ^ length bs + idval bs < (unat b + 1) * 256 ^ length bs" using Cons by simp
  also have "\<dots> \<le> 256 * 256 ^ length bs" using unat_byte [of b] by (intro mult_right_mono) simp_all
  finally show ?case by simp
qed simp

lemma idval_less:
  assumes "length bs = length cs" and "b < c"
  shows "idval (b # bs) < idval (c # cs)"
proof -
  have "unat b + 1 \<le> unat c" using assms(2) by (simp add: word_less_nat_alt)
  then have "(unat b + 1) * 256 ^ length bs \<le> unat c * 256 ^ length bs" by (rule mult_right_mono) simp
  then show ?thesis using idval_bound [of bs] assms(1) by simp
qed

lemma cmpLoop_sgn:
  "length a = length x \<Longrightarrow> length b = length x \<Longrightarrow>
   cmpLoop (zip x (zip a b)) = sgn (int (idval (map2 (XOR) x a)) - int (idval (map2 (XOR) x b)))"
proof (induction x arbitrary: a b)
  case (Cons y x)
  obtain c a' where a: "a = c # a'" using Cons.prems(1) by (cases a) auto
  obtain d b' where b: "b = d # b'" using Cons.prems(2) by (cases b) auto
  let ?a = "map2 (XOR) x a'" and ?b = "map2 (XOR) x b'"
  have len: "length ?a = length ?b" "length ?a = length x" "length ?b = length x" using Cons.prems a b by simp_all
  have x: "c XOR y = y XOR c" "d XOR y = y XOR d" by (simp_all add: xor.commute)
  consider "y XOR c = y XOR d" | "y XOR c < y XOR d" | "y XOR d < y XOR c" by fastforce
  then show ?case
  proof cases
    case 1
    then show ?thesis using Cons.IH [of a' b'] Cons.prems a b len x by simp
  next
    case 2
    have "idval (map2 (XOR) (y # x) a) < idval (map2 (XOR) (y # x) b)" using idval_less [OF len(1) 2] a b by simp
    then have "sgn (int (idval (map2 (XOR) (y # x) a)) - int (idval (map2 (XOR) (y # x) b))) = -1" by (simp only: sgn_if) simp
    moreover have "cmpLoop (zip (y # x) (zip a b)) = -1" using 2 a b x by (auto simp: Let_def)
    ultimately show ?thesis by simp
  next
    case 3
    have "idval (map2 (XOR) (y # x) b) < idval (map2 (XOR) (y # x) a)" using idval_less [OF len(1) [symmetric] 3] a b by simp
    then have "sgn (int (idval (map2 (XOR) (y # x) a)) - int (idval (map2 (XOR) (y # x) b))) = 1" by (simp only: sgn_if) simp
    moreover have "cmpLoop (zip (y # x) (zip a b)) = 1" using 3 a b x by (auto simp: Let_def)
    ultimately show ?thesis by simp
  qed
qed simp

lemma Xor_map2: "length a = 20 \<Longrightarrow> length b = 20 \<Longrightarrow> Xor a b = map2 (XOR) a b"
  by (intro nth_equalityI) (simp_all add: Xor_def)

text \<open>
  C36. Comparing the distances of two identifiers byte by byte is comparing their XOR with the target as
  160-bit unsigned integers, so \<^verbatim>\<open>Closer\<close> picks the one at the smaller distance.
\<close>

theorem distance_order:
  assumes "is_id x" and "is_id a" and "is_id b"
  shows "cmpDistance x a b = sgn (int (idval (Xor x a)) - int (idval (Xor x b))) \<and>
    (Closer x a b \<longleftrightarrow> idval (Xor x a) < idval (Xor x b))"
  using cmpLoop_sgn [of a x b] assms Xor_map2 [of x a] Xor_map2 [of x b]
  by (simp add: cmpDistance_def Closer_def is_id_def sgn_if)

theorem distance_order_witness:
  "Closer (replicate 20 0xff) (replicate 20 0xfe) (replicate 20 0x0f) \<longleftrightarrow>
     idval (Xor (replicate 20 0xff) (replicate 20 0xfe)) < idval (Xor (replicate 20 0xff) (replicate 20 0x0f))"
  using distance_order [of "replicate 20 0xff" "replicate 20 0xfe" "replicate 20 0x0f"] by (simp add: is_id_def)

subsection \<open>Prefixes\<close>

lemma id_bit_pbit: "id_bit a i = pbit a i"
  by (simp add: id_bit_def and_pieceBit pbit_def)

lemma length_setBit [simp]: "length (setBit a i v) = length a"
  by (simp add: setBit_def)

lemma pbit_setBit: "i div 8 < length a \<Longrightarrow> pbit (setBit a i v) j = (if j = i then v else pbit a j)"
  by (simp add: setBit_def pbit_set pbit_clear)

lemma copy_bits:
  assumes "length r = 20" and "n \<le> 160"
  shows "length (foldl (\<lambda>r i. setBit r i (id_bit a i)) r [0..<n]) = 20 \<and>
    (\<forall>j. pbit (foldl (\<lambda>r i. setBit r i (id_bit a i)) r [0..<n]) j = (if j < n then pbit a j else pbit r j))"
  using assms(2)
proof (induction n)
  case (Suc n)
  then have "n div 8 < 20" by simp
  with Suc show ?case by (auto simp: pbit_setBit id_bit_pbit less_Suc_eq)
qed (simp add: assms(1))

lemma pbit_Cons: "pbit (x # a) j = (if j < 8 then bit x (7 - j) else pbit a (j - 8))"
proof (cases "j < 8")
  case False
  then obtain m where j: "j = m + 8" by (metis le_add_diff_inverse2 not_less)
  have "(m + 8) div 8 = Suc (m div 8)" by simp
  then show ?thesis by (simp add: pbit_def j)
qed (simp add: pbit_def)

lemma prefixLoop_first:
  "length a = length b \<Longrightarrow> s + length a = 20 \<Longrightarrow> k = prefixLoop s (zip a b) \<Longrightarrow>
   8 * s \<le> k \<and> k \<le> 160 \<and>
   (\<forall>i. 8 * s \<le> i \<and> i < k \<longrightarrow> pbit a (i - 8 * s) = pbit b (i - 8 * s)) \<and>
   (k < 160 \<longrightarrow> pbit a (k - 8 * s) \<noteq> pbit b (k - 8 * s))"
proof (induction a arbitrary: b s k)
  case (Cons x a)
  obtain y b' where b: "b = y # b'" using Cons.prems(1) by (cases b) auto
  show ?case
  proof (cases "x XOR y = 0")
    case False
    note first = leadingZeros8_first [OF False]
    have k: "k = 8 * s + leadingZeros8 (x XOR y)" using Cons.prems(3) b False by simp
    have "pbit (x # a) j = pbit b j" if "j < leadingZeros8 (x XOR y)" for j
      using first(1) first(3) [OF that] that b by (simp add: pbit_Cons bit_xor_iff)
    moreover have "pbit (x # a) (leadingZeros8 (x XOR y)) \<noteq> pbit b (leadingZeros8 (x XOR y))"
      using first(1,2) b by (simp add: pbit_Cons bit_xor_iff)
    moreover have "k \<le> 160" using k first(1) Cons.prems(2) by simp
    ultimately show ?thesis using k by auto
  next
    case True
    have "\<not> bit (x XOR y) n" for n unfolding True by simp
    then have xy: "x = y" by (intro bit_word_eqI) (simp add: bit_xor_iff)
    have ih: "8 * Suc s \<le> k \<and> k \<le> 160 \<and>
      (\<forall>i. 8 * Suc s \<le> i \<and> i < k \<longrightarrow> pbit a (i - 8 * Suc s) = pbit b' (i - 8 * Suc s)) \<and>
      (k < 160 \<longrightarrow> pbit a (k - 8 * Suc s) \<noteq> pbit b' (k - 8 * Suc s))"
      using Cons.IH [of b' "Suc s" k] Cons.prems b True by simp
    have shift: "pbit (z # c) (i - 8 * s) = pbit c (i - 8 * Suc s)" if "8 * Suc s \<le> i" for z c i
    proof -
      have "i - 8 * s - 8 = i - 8 * Suc s" "\<not> i - 8 * s < 8" using that by simp_all
      then show ?thesis by (simp only: pbit_Cons if_False)
    qed
    have "pbit (x # a) (i - 8 * s) = pbit b (i - 8 * s)" if "8 * s \<le> i" "i < k" for i
    proof (cases "8 * Suc s \<le> i")
      case True
      then show ?thesis using ih that b shift by simp
    next
      case False
      then have "i - 8 * s < 8" by simp
      then show ?thesis using b xy by (simp add: pbit_Cons)
    qed
    then show ?thesis using ih b shift [of k] by auto
  qed
qed simp

lemma commonPrefixLen_first:
  assumes "is_id a" and "is_id b"
  shows "commonPrefixLen a b \<le> 160" "i < commonPrefixLen a b \<Longrightarrow> pbit a i = pbit b i"
    "commonPrefixLen a b < 160 \<Longrightarrow> pbit a (commonPrefixLen a b) \<noteq> pbit b (commonPrefixLen a b)"
  using prefixLoop_first [of a b 0 "commonPrefixLen a b"] assms by (simp_all add: is_id_def commonPrefixLen_def)

lemma commonPrefixLen_eq:
  assumes "is_id a" and "is_id b" and "\<And>i. i < n \<Longrightarrow> pbit a i = pbit b i" and "n < 160" and "pbit a n \<noteq> pbit b n"
  shows "commonPrefixLen a b = n"
  using commonPrefixLen_first [OF assms(1,2)] assms(3-5) by (metis less_trans linorder_neqE_nat)

lemma commonPrefixLen_ge:
  assumes "is_id a" and "is_id b" and "\<And>i. i < n \<Longrightarrow> pbit a i = pbit b i" and "n \<le> 160"
  shows "n \<le> commonPrefixLen a b"
  using commonPrefixLen_first [OF assms(1,2)] assms(3,4) by (metis not_le less_le_trans)

text \<open>
  C37. An identifier drawn to share a prefix does: whatever the random bytes, it shares at least the
  bits asked for with the given one, and exactly those when it is to be in that bucket and no closer.
\<close>

theorem random_prefix_shared:
  assumes "is_id rnd" and "is_id a" and "0 \<le> n"
  shows "\<exists>r. randomIDWithPrefix rnd a n exact = Some r \<and> is_id r \<and> min n 160 \<le> int (commonPrefixLen a r) \<and>
    (exact \<and> n < 160 \<longrightarrow> int (commonPrefixLen a r) = n)"
proof -
  define m where "m = nat (min n 160)"
  define c where "c = foldl (\<lambda>r i. setBit r i (id_bit a i)) rnd [0..<m]"
  have m: "m \<le> 160" "int m = min n 160" using assms(3) by (auto simp: m_def)
  have c: "length c = 20" "\<And>j. pbit c j = (if j < m then pbit a j else pbit rnd j)"
    using copy_bits [of rnd m a] assms(1) m(1) by (simp_all add: is_id_def c_def)
  show ?thesis
  proof (cases "exact \<and> n < 160")
    case True
    then have n: "nat n = m" "m < 160" "int m = n" using m assms(3) by linarith+
    define r where "r = setBit c m (\<not> id_bit a m)"
    have "m div 8 < length c" using n c(1) by simp
    then have bits: "pbit r j = (if j = m then \<not> pbit a m else pbit c j)" for j
      by (simp add: r_def pbit_setBit id_bit_pbit)
    have "is_id r" using c(1) by (simp add: is_id_def r_def)
    moreover have "commonPrefixLen a r = m"
      using assms(2) calculation n(2) bits c(2) by (intro commonPrefixLen_eq) simp_all
    moreover have "randomIDWithPrefix rnd a n exact = Some r"
      using True assms(3) n unfolding randomIDWithPrefix_def m_def [symmetric] c_def [symmetric] Let_def
      by (simp add: r_def)
    ultimately show ?thesis using n by auto
  next
    case False
    then have "randomIDWithPrefix rnd a n exact = Some c"
      unfolding randomIDWithPrefix_def m_def [symmetric] c_def [symmetric] Let_def by auto
    moreover have "is_id c" using c(1) by (simp add: is_id_def)
    moreover have "m \<le> commonPrefixLen a c"
      using assms(2) calculation(2) m(1) c(2) by (intro commonPrefixLen_ge) simp_all
    ultimately show ?thesis using False m(2) by auto
  qed
qed

theorem random_prefix_shared_witness:
  "\<exists>r. randomIDWithPrefix (replicate 20 0x5a) (replicate 20 0x3c) 13 True = Some r \<and> is_id r \<and>
    int (commonPrefixLen (replicate 20 0x3c) r) = 13"
  using random_prefix_shared [of "replicate 20 0x5a" "replicate 20 0x3c" 13 True] by (auto simp: is_id_def)

subsection \<open>Compact node information\<close>

definition addr_ok :: "addr \<Rightarrow> bool" where
  "addr_ok a = (case a of V4 b \<Rightarrow> length b = 4 | V6 b \<Rightarrow> length b = 16)"

text \<open>A node that can be reached: it has a port and an address of its own.\<close>

definition reachable :: "NodeInfo \<Rightarrow> bool" where
  "reachable n \<longleftrightarrow> is_id (nID n) \<and> addr_ok (nAddr n) \<and> nPort n \<noteq> 0 \<and> \<not> IsUnspecified (Unmap (nAddr n))"

definition nodeBytes :: "NodeInfo \<Rightarrow> bytes" where
  "nodeBytes n = nID n @ addrBytes (Unmap (nAddr n)) @ be_bytes 2 (nPort n)"

lemma Unmap_ok: "addr_ok a \<Longrightarrow> addr_ok (Unmap a)"
  by (auto simp: addr_ok_def Unmap_def split: addr.splits)

lemma length_addr: "addr_ok a \<Longrightarrow> length (addrBytes a) = (if Is4 a then 4 else 16)"
  by (auto simp: addr_ok_def addrBytes_def Is4_def split: addr.splits)

lemma port_bytes: "be_bytes 2 port = [ucast (drop_bit 8 port), ucast port]" for port :: uint16
  by (simp add: be_bytes_numeral be_bytes_Suc)

lemma port_read: "push_bit 8 (ucast (ucast (drop_bit 8 port) :: byte)) OR ucast (ucast port :: byte) = port" for port :: uint16
  by (rule bit_word_eqI) (auto simp: bit_simps not_less dest: bit_imp_le_length)

lemma parse_addr:
  assumes "addr_ok a"
  shows "parseCompactAddr (addrBytes a @ be_bytes 2 port) = Some (a, port)"
proof -
  have ends: "(xs @ be_bytes 2 port) ! (length (xs @ be_bytes 2 port) - 2) = ucast (drop_bit 8 port)"
    "(xs @ be_bytes 2 port) ! (length (xs @ be_bytes 2 port) - 1) = ucast port" for xs
    by (simp_all add: port_bytes nth_append)
  show ?thesis
    unfolding parseCompactAddr_def ends Let_def port_read
    using assms by (cases a) (simp_all add: addrBytes_def addr_ok_def compact_sizes)
qed

lemma appendCompactNodes_bytes:
  "appendCompactNodes dst nodes v6 = dst @ concat (map nodeBytes (filter (\<lambda>n. Is4 (Unmap (nAddr n)) \<noteq> v6) nodes))"
  unfolding appendCompactNodes_def
  by (induction nodes arbitrary: dst) (simp_all add: appendCompactAddr_def nodeBytes_def)

lemma nodesLoop_node:
  assumes "reachable n" and "sz = (if Is4 (Unmap (nAddr n)) then compactNode4 else compactNode6)"
  shows "length (nodeBytes n) = sz" "nodesLoop sz (nodeBytes n @ rest) nodes = nodesLoop sz rest (nodes @ [unmapNode n])"
proof -
  let ?a = "Unmap (nAddr n)"
  have ok: "length (nID n) = 20" "addr_ok ?a" "nPort n \<noteq> 0" "\<not> IsUnspecified ?a"
    using assms(1) Unmap_ok by (auto simp: reachable_def is_id_def)
  show len: "length (nodeBytes n) = sz"
    using ok length_addr [OF ok(2)] assms(2) by (simp add: nodeBytes_def compact_sizes)
  define b where "b = nodeBytes n @ rest"
  have "take sz b = nodeBytes n" "drop sz b = rest" using len by (simp_all add: b_def)
  moreover have "drop 20 (nodeBytes n) = addrBytes ?a @ be_bytes 2 (nPort n)" "take 20 b = nID n"
    using ok(1) by (simp_all add: nodeBytes_def b_def)
  moreover have "b \<noteq> []" "sz \<noteq> 0" using len assms(2) ok(1) by (auto simp: b_def nodeBytes_def compact_sizes)
  moreover have "\<lparr>nID = nID n, nAddr = ?a, nPort = nPort n\<rparr> = unmapNode n" by (simp add: unmapNode_def)
  ultimately have "nodesLoop sz b nodes = nodesLoop sz rest (nodes @ [unmapNode n])"
    using ok parse_addr [OF ok(2), of "nPort n"] by (simp add: nodesLoop.simps [of sz b])
  then show "nodesLoop sz (nodeBytes n @ rest) nodes = nodesLoop sz rest (nodes @ [unmapNode n])" by (simp add: b_def)
qed

lemma nodesLoop_nodes:
  assumes "list_all (\<lambda>n. reachable n \<and> sz = (if Is4 (Unmap (nAddr n)) then compactNode4 else compactNode6)) ns"
  shows "length (concat (map nodeBytes ns)) = sz * length ns \<and>
    nodesLoop sz (concat (map nodeBytes ns)) nodes = nodes @ map unmapNode ns"
  using assms
proof (induction ns arbitrary: nodes)
  case Nil
  then show ?case by (simp add: nodesLoop.simps)
next
  case (Cons n ns)
  then have n: "reachable n" "sz = (if Is4 (Unmap (nAddr n)) then compactNode4 else compactNode6)" by simp_all
  have "list_all (\<lambda>n. reachable n \<and> sz = (if Is4 (Unmap (nAddr n)) then compactNode4 else compactNode6)) ns"
    using Cons.prems unfolding list.pred_inject by blast
  from Cons.IH [OF this] nodesLoop_node [OF n] show ?case by simp
qed

text \<open>
  C38. Compact node information carries the nodes of its family, in order: what one node appends of
  nodes that can be reached, another parses back as the same identifiers, addresses and ports,
  with an IPv4 address that was mapped into IPv6 as the IPv4 address it is.
\<close>

theorem compact_nodes_roundtrip:
  assumes "list_all reachable nodes"
  shows "parseCompactNodes (appendCompactNodes [] nodes v6) v6 =
    Some (map unmapNode (filter (\<lambda>n. Is4 (Unmap (nAddr n)) \<noteq> v6) nodes))"
proof -
  let ?ns = "filter (\<lambda>n. Is4 (Unmap (nAddr n)) \<noteq> v6) nodes"
  define sz where "sz = (if v6 then compactNode6 else compactNode4)"
  have "list_all (\<lambda>n. reachable n \<and> sz = (if Is4 (Unmap (nAddr n)) then compactNode4 else compactNode6)) ?ns"
    using assms by (auto simp: list_all_iff sz_def)
  from nodesLoop_nodes [OF this, of "[]"] show ?thesis
    unfolding parseCompactNodes_def appendCompactNodes_bytes sz_def [symmetric] by simp
qed

theorem compact_nodes_roundtrip_witness:
  "parseCompactNodes (appendCompactNodes []
     [\<lparr>nID = replicate 20 7, nAddr = V6 (mapped @ [10, 0, 0, 1]), nPort = 6881\<rparr>] False) False =
   Some [\<lparr>nID = replicate 20 7, nAddr = V4 [10, 0, 0, 1], nPort = 6881\<rparr>]"
  using compact_nodes_roundtrip [of "[\<lparr>nID = replicate 20 7, nAddr = V6 (mapped @ [10, 0, 0, 1]), nPort = 6881\<rparr>]" False]
  by (simp add: reachable_def is_id_def addr_ok_def Unmap_def mapped_def IsUnspecified_def addrBytes_def Is4_def unmapNode_def)

subsection \<open>Hex\<close>

lemma hex_nibble: "d < 16 \<Longrightarrow> fromHexChar (hexNibble d) = Some d"
proof -
  assume "d < 16"
  then have n: "unat d < 16" by (simp add: word_less_nat_alt)
  have "d = of_nat (unat d)" by simp
  moreover have "unat d = 0 \<or> unat d = 1 \<or> unat d = 2 \<or> unat d = 3 \<or> unat d = 4 \<or> unat d = 5 \<or> unat d = 6 \<or> unat d = 7 \<or>
    unat d = 8 \<or> unat d = 9 \<or> unat d = 10 \<or> unat d = 11 \<or> unat d = 12 \<or> unat d = 13 \<or> unat d = 14 \<or> unat d = 15"
  proof -
    have "unat d \<in> set [0..<16]" using n by simp
    then show ?thesis by (simp add: upt_rec eval_nat_numeral)
  qed
  ultimately have "d = 0 \<or> d = 1 \<or> d = 2 \<or> d = 3 \<or> d = 4 \<or> d = 5 \<or> d = 6 \<or> d = 7 \<or> d = 8 \<or> d = 9 \<or> d = 10 \<or> d = 11 \<or>
    d = 12 \<or> d = 13 \<or> d = 14 \<or> d = 15"
    by (elim disjE) simp_all
  then show ?thesis by (elim disjE) (simp_all add: fromHexChar_def hexNibble_def)
qed

lemma byte_nibbles': "drop_bit 4 b < 16" "b AND 0x0f < 16" "push_bit 4 (drop_bit 4 b) OR (b AND 0x0f) = b" for b :: byte
proof -
  show "drop_bit 4 b < 16" using unat_byte [of b] by (simp add: word_less_nat_alt unat_drop_bit less_mult_imp_div_less)
  have f: "(0x0f :: byte) = mask 4" by (simp add: mask_eq_exp_minus_1)
  show "b AND 0x0f < 16" unfolding f using take_bit_nat_less_exp [of 4 "unat b"]
    by (simp add: word_less_nat_alt take_bit_eq_mask [symmetric] unsigned_take_bit_eq)
  show "push_bit 4 (drop_bit 4 b) OR (b AND 0x0f) = b"
    unfolding f by (rule bit_word_eqI) (auto simp: bit_simps)
qed

lemma ParseID_String: "is_id a \<Longrightarrow> ParseID (IDString a) = (a, True)"
proof -
  have len: "length (hexEncode bs) = 2 * length bs" for bs by (induction bs) (simp_all add: hexEncode_def)
  have "hexDecode (hexEncode bs) = (bs, True)" for bs
    by (induction bs) (simp_all add: hexEncode_def hex_nibble byte_nibbles')
  then show "is_id a \<Longrightarrow> ParseID (IDString a) = (a, True)" by (simp add: ParseID_def IDString_def is_id_def len)
qed

lemma ParseID_is_id: "is_id (fst (ParseID s))"
proof -
  have "2 * length (fst (hexDecode s)) \<le> length s" for s
    by (induction s rule: hexDecode.induct) (auto split: option.split prod.split)
  from this [of s] show ?thesis by (auto simp: ParseID_def is_id_def split: prod.split)
qed

end
