(* ===== verification/Pool_Reserve.thy ===== *)
theory Pool_Reserve
  imports Buffer_Pool "HOL-Library.Multiset"
begin

text \<open>
  The classes behind the buffer pool, \<^verbatim>\<open>bufferpool/bufferpool.go\<close>: each has a \<^verbatim>\<open>sync.Pool\<close> and a reserve
  that outlives collections, with a target the retention budget bounds. Buffers are addresses; how many
  bytes were allocated at each is kept beside the program's own state, to tell whether a slice made
  from an address stays within them. Which buffer a \<^verbatim>\<open>sync.Pool\<close> gives, if any, and which it still holds
  after a collection, are arguments. Operations run one at a time: the atomics and the mutex are not
  modelled, and \<^verbatim>\<open>held\<close> mirrors the length of the reserve after each of them.
\<close>

record sizeClass =
  spool :: "nat list"
  free :: "nat list"
  held :: int
  csize :: int
  target :: int
  refill :: int
  cepoch :: nat

record pools =
  classes :: "sizeClass list"
  gcEpoch :: nat
  budget :: int
  committed :: int
  allocated :: "nat list"

definition DefaultRetainedBytes :: int where "DefaultRetainedBytes = 32 * 2 ^ 20"

text \<open>\<^verbatim>\<open>init\<close>: the classes with their sizes, and nothing allocated.\<close>

definition initClass :: "nat \<Rightarrow> sizeClass" where
  "initClass i = \<lparr>spool = [], free = [], held = 0, csize = int (classSize i), target = 0, refill = 0, cepoch = 0\<rparr>"

definition initPools :: pools where
  "initPools = \<lparr>classes = map initClass [0..<numClasses], gcEpoch = 0, budget = DefaultRetainedBytes, committed = 0, allocated = []\<rparr>"

definition cls :: "pools \<Rightarrow> nat \<Rightarrow> sizeClass" where
  "cls s i = classes s ! i"

definition setClass :: "nat \<Rightarrow> sizeClass \<Rightarrow> pools \<Rightarrow> pools" where
  "setClass i c s = s\<lparr>classes := (classes s)[i := c]\<rparr>"

subsection \<open>The reserve of a class\<close>

definition reserveMore :: "nat \<Rightarrow> pools \<Rightarrow> pools" where
  "reserveMore i s =
     (let c = cls s i; s = s\<lparr>committed := committed s + csize c\<rparr> in
      if committed s > budget s then s\<lparr>committed := committed s - csize c\<rparr>
      else setClass i (c\<lparr>target := target c + 1\<rparr>) s)"

definition aim :: "nat \<Rightarrow> int \<Rightarrow> pools \<Rightarrow> pools" where
  "aim i t s =
     (let c = cls s i in
      (setClass i (c\<lparr>target := t\<rparr>) s)\<lparr>committed := committed s + (t - target c) * csize c\<rparr>)"

definition takeReserve :: "nat \<Rightarrow> pools \<Rightarrow> nat option \<times> pools" where
  "takeReserve i s =
     (let c = cls s i in
      if free c = [] then (None, s)
      else (Some (last (free c)), setClass i (c\<lparr>free := butlast (free c), held := int (length (free c)) - 1\<rparr>) s))"

definition beginRefill :: "nat \<Rightarrow> pools \<Rightarrow> pools" where
  "beginRefill i s =
     (if cepoch (cls s i) = gcEpoch s then s
      else
        (let s = setClass i ((cls s i)\<lparr>cepoch := gcEpoch s\<rparr>) s;
             s = (if refill (cls s i) > 0 then aim i (held (cls s i)) s else s) in
         setClass i ((cls s i)\<lparr>refill := target (cls s i)\<rparr>) s))"

definition keep :: "nat \<Rightarrow> nat \<Rightarrow> pools \<Rightarrow> bool \<times> pools" where
  "keep i p s =
     (let c = cls s i; c = c\<lparr>refill := refill c - 1\<rparr> in
      if refill c < 0 then (False, setClass i (c\<lparr>refill := 0\<rparr>) s)
      else if held c \<ge> target c then (False, setClass i c s)
      else if int (length (free c)) \<ge> target c then (False, setClass i c s)
      else (True, setClass i (c\<lparr>free := free c @ [p], held := int (length (free c)) + 1\<rparr>) s))"

text \<open>The loops of \<^verbatim>\<open>trim\<close>: the target of a class falls while the targets
  together are above the budget. A target is never negative.\<close>

function trimTarget :: "nat \<Rightarrow> pools \<Rightarrow> pools" where
  "trimTarget i s =
     (if committed s > budget s \<and> target (cls s i) > 0 \<and> i < length (classes s) then
        trimTarget i ((setClass i ((cls s i)\<lparr>target := target (cls s i) - 1\<rparr>) s)\<lparr>committed := committed s - csize (cls s i)\<rparr>)
      else s)"
  by pat_completeness auto
termination
  by (relation "measure (\<lambda>(i, s). nat (target (cls s i)))") (auto simp: cls_def setClass_def)

declare trimTarget.simps [simp del]

definition trimClass :: "nat \<Rightarrow> pools \<Rightarrow> pools" where
  "trimClass i s =
     (let s = trimTarget i s; c = cls s i in
      if held c \<le> target c then s
      else
        (let f = (if int (length (free c)) > target c then take (nat (target c)) (free c) else free c) in
         setClass i (c\<lparr>free := f, held := int (length f)\<rparr>) s))"

fun trimFrom :: "nat \<Rightarrow> pools \<Rightarrow> pools" where
  "trimFrom 0 s = s"
| "trimFrom (Suc i) s = trimFrom i (trimClass i s)"

definition trim :: "pools \<Rightarrow> pools" where "trim s = trimFrom numClasses s"

definition SetRetainedBytes :: "int \<Rightarrow> pools \<Rightarrow> pools" where
  "SetRetainedBytes n s =
     (let n = (if n < 0 then 0 else n); s = s\<lparr>budget := n\<rparr> in if committed s > n then trim s else s)"

definition RetainedBytes :: "pools \<Rightarrow> int" where "RetainedBytes s = committed s"

subsection \<open>Buffers\<close>

text \<open>A slice of the memory at an address: its length and its capacity. \<^verbatim>\<open>make\<close> allocates at a new address.\<close>

record buf =
  baddr :: nat
  blen :: nat
  bcap :: nat

definition makeBuf :: "nat \<Rightarrow> nat \<Rightarrow> pools \<Rightarrow> buf \<times> pools" where
  "makeBuf n c s = (\<lparr>baddr = length (allocated s), blen = n, bcap = c\<rparr>, s\<lparr>allocated := allocated s @ [c]\<rparr>)"

text \<open>\<open>pick\<close> is the position in the class's \<^verbatim>\<open>sync.Pool\<close> of the buffer it gives, if it gives one.\<close>

definition fromPool :: "nat \<Rightarrow> nat option \<Rightarrow> pools \<Rightarrow> nat option \<times> pools" where
  "fromPool i pick s =
     (case pick of
        None \<Rightarrow> (None, s)
      | Some k \<Rightarrow>
          (let c = cls s i in
           if k < length (spool c)
           then (Some (spool c ! k), setClass i (c\<lparr>spool := take k (spool c) @ drop (Suc k) (spool c)\<rparr>) s)
           else (None, s)))"

definition poolGet :: "int \<Rightarrow> nat option \<Rightarrow> pools \<Rightarrow> buf option \<times> pools" where
  "poolGet sz pick s =
     (if sz \<le> 0 then (None, s)
      else if sz > int MaxSize then (case makeBuf (nat sz) (nat sz) s of (b, s) \<Rightarrow> (Some b, s))
      else
        (let i = classUp sz in
         case fromPool i pick s of
           (Some p, s) \<Rightarrow> (Some \<lparr>baddr = p, blen = nat sz, bcap = classSize i\<rparr>, s)
         | (None, s) \<Rightarrow>
             (case (if held (cls s i) > 0 then takeReserve i s else (None, s)) of
                (Some p, s) \<Rightarrow> (Some \<lparr>baddr = p, blen = nat sz, bcap = classSize i\<rparr>, s)
              | (None, s) \<Rightarrow>
                  (case makeBuf (nat sz) (classSize i) (reserveMore i s) of (b, s) \<Rightarrow> (Some b, s)))))"

definition poolPut :: "buf \<Rightarrow> pools \<Rightarrow> pools" where
  "poolPut b s =
     (if bcap b < MinSize \<or> bcap b > MaxSize then s
      else
        (let i = classDown (bcap b); p = baddr b;
             s = (if gcEpoch s \<noteq> cepoch (cls s i) then beginRefill i s else s);
             (kept, s) = (if refill (cls s i) > 0 then keep i p s else (False, s)) in
         if kept then s else setClass i ((cls s i)\<lparr>spool := spool (cls s i) @ [p]\<rparr>) s))"

text \<open>A collection: \<^verbatim>\<open>watchCollections\<close> counts it, and each \<^verbatim>\<open>sync.Pool\<close> loses what it is not left with.\<close>

definition collect :: "(nat \<Rightarrow> bool) \<Rightarrow> pools \<Rightarrow> pools" where
  "collect survives s =
     s\<lparr>gcEpoch := gcEpoch s + 1, classes := map (\<lambda>c. c\<lparr>spool := filter survives (spool c)\<rparr>) (classes s)\<rparr>"

subsection \<open>What holds between operations\<close>

definition cost :: "sizeClass \<Rightarrow> int" where "cost c = csize c * target c"

definition inClass :: "sizeClass \<Rightarrow> nat multiset" where "inClass c = mset (spool c) + mset (free c)"

definition total :: "pools \<Rightarrow> int" where "total s = sum_list (map cost (classes s))"

definition inPools :: "pools \<Rightarrow> nat multiset" where "inPools s = sum_list (map inClass (classes s))"

text \<open>
  A class of its size, whose reserve is within its target, and whose buffers all have the bytes a slice
  of the class needs.
\<close>

definition class_ok :: "nat list \<Rightarrow> nat \<Rightarrow> sizeClass \<Rightarrow> bool" where
  "class_ok alloc i c \<longleftrightarrow>
     csize c = int (classSize i) \<and> held c = int (length (free c)) \<and> int (length (free c)) \<le> target c \<and> 0 \<le> refill c \<and>
     (\<forall>p \<in># inClass c. p < length alloc \<and> classSize i \<le> alloc ! p)"

definition pools_ok :: "pools \<Rightarrow> bool" where
  "pools_ok s \<longleftrightarrow> length (classes s) = numClasses \<and> (\<forall>i < numClasses. class_ok (allocated s) i (cls s i)) \<and>
     committed s = total s \<and> committed s \<le> budget s"

lemma sum_update:
  fixes f :: "'a \<Rightarrow> 'b::comm_monoid_add"
  assumes "i < length xs"
  shows "sum_list (map f (xs[i := y])) + f (xs ! i) = sum_list (map f xs) + f y"
  using assms
proof (induction xs arbitrary: i)
  case (Cons x xs)
  then show ?case by (cases i) (simp_all add: ac_simps)
qed simp

lemma setClass_fields [simp]:
  "gcEpoch (setClass i c s) = gcEpoch s" "budget (setClass i c s) = budget s" "committed (setClass i c s) = committed s"
  "allocated (setClass i c s) = allocated s" "length (classes (setClass i c s)) = length (classes s)"
  by (simp_all add: setClass_def)

lemma cls_fields [simp]:
  "cls (s\<lparr>committed := n\<rparr>) i = cls s i" "cls (s\<lparr>budget := n\<rparr>) i = cls s i" "cls (s\<lparr>allocated := a\<rparr>) i = cls s i"
  "total (s\<lparr>committed := n\<rparr>) = total s" "total (s\<lparr>budget := n\<rparr>) = total s" "total (s\<lparr>allocated := a\<rparr>) = total s"
  "inPools (s\<lparr>committed := n\<rparr>) = inPools s" "inPools (s\<lparr>budget := n\<rparr>) = inPools s" "inPools (s\<lparr>allocated := a\<rparr>) = inPools s"
  by (simp_all add: cls_def total_def inPools_def)

lemma cls_setClass: "i < length (classes s) \<Longrightarrow> cls (setClass i c s) j = (if j = i then c else cls s j)"
  by (simp add: cls_def setClass_def)

lemma sums_setClass:
  assumes "i < length (classes s)"
  shows "total (setClass i c s) = total s - cost (cls s i) + cost c"
    and "inPools (setClass i c s) + inClass (cls s i) = inPools s + inClass c"
  using sum_update [of i "classes s" cost c] sum_update [of i "classes s" inClass c] assms
  by (simp_all add: total_def inPools_def setClass_def cls_def)

lemma same_inPools:
  assumes "i < length (classes s)" and "inClass c = inClass (cls s i)"
  shows "inPools (setClass i c s) = inPools s"
  using sums_setClass(2) [OF assms(1), of c] assms(2) by simp

text \<open>Replacing a class by one that is as much in order, with the difference of their costs accounted for.\<close>

lemma setClass_ok:
  assumes "pools_ok s" and "i < numClasses" and "class_ok (allocated s) i c"
    and "n = committed s + cost c - cost (cls s i)" and "n \<le> budget s"
  shows "pools_ok ((setClass i c s)\<lparr>committed := n\<rparr>)"
proof -
  have len: "i < length (classes s)" using assms(1,2) by (simp add: pools_ok_def)
  have "class_ok (allocated s) j (cls (setClass i c s) j)" if "j < numClasses" for j
    using assms(1,3) that by (simp add: cls_setClass [OF len] pools_ok_def)
  then show ?thesis using assms(1,4,5) sums_setClass(1) [OF len, of c] by (simp add: pools_ok_def)
qed

lemma setClass_ok_same:
  assumes "pools_ok s" and "i < numClasses" and "class_ok (allocated s) i c" and "cost c = cost (cls s i)"
  shows "pools_ok (setClass i c s)"
proof -
  have "committed s \<le> budget s" using assms(1) by (simp add: pools_ok_def)
  from setClass_ok [OF assms(1-3) refl] this assms(4)
  have "pools_ok ((setClass i c s)\<lparr>committed := committed s\<rparr>)" by simp
  moreover have "(setClass i c s)\<lparr>committed := committed s\<rparr> = setClass i c s" by (simp add: setClass_def)
  ultimately show ?thesis by simp
qed

lemma okD: "pools_ok s \<Longrightarrow> i < numClasses \<Longrightarrow> class_ok (allocated s) i (cls s i) \<and> i < length (classes s)"
  by (simp add: pools_ok_def)

lemma reserveMore_ok:
  assumes "pools_ok s" and "i < numClasses"
  shows "pools_ok (reserveMore i s)" "inPools (reserveMore i s) = inPools s" "allocated (reserveMore i s) = allocated s"
proof -
  let ?c = "cls s i"
  let ?d = "?c\<lparr>target := target ?c + 1\<rparr>"
  note ok = okD [OF assms]
  have d: "class_ok (allocated s) i ?d" "inClass ?d = inClass ?c" "cost ?d = cost ?c + csize ?c"
    using ok by (simp_all add: class_ok_def inClass_def cost_def algebra_simps)
  have eq: "reserveMore i s =
      (if committed s + csize ?c > budget s then s else (setClass i ?d s)\<lparr>committed := committed s + csize ?c\<rparr>)"
    by (simp add: reserveMore_def Let_def setClass_def)
  show "pools_ok (reserveMore i s)"
    using setClass_ok [OF assms d(1), of "committed s + csize ?c"] assms(1) d(3) unfolding eq by simp
  show "inPools (reserveMore i s) = inPools s" "allocated (reserveMore i s) = allocated s"
    using same_inPools [OF conjunct2 [OF ok] d(2)] unfolding eq by simp_all
qed

lemma takeReserve_ok:
  assumes "pools_ok s" and "i < numClasses" and "takeReserve i s = (r, s')"
  shows "pools_ok s'" "inPools s = inPools s' + (case r of None \<Rightarrow> {#} | Some p \<Rightarrow> {#p#})" "allocated s' = allocated s"
    "\<And>p. r = Some p \<Longrightarrow> p \<in># inClass (cls s i)"
proof -
  let ?c = "cls s i"
  note ok = okD [OF assms(1,2)]
  have "pools_ok s' \<and> inPools s = inPools s' + (case r of None \<Rightarrow> {#} | Some p \<Rightarrow> {#p#}) \<and> allocated s' = allocated s \<and>
    (\<forall>p. r = Some p \<longrightarrow> p \<in># inClass ?c)"
  proof (cases "free ?c = []")
    case True
    then show ?thesis using assms by (simp add: takeReserve_def)
  next
    case False
    let ?d = "?c\<lparr>free := butlast (free ?c), held := int (length (free ?c)) - 1\<rparr>"
    have r: "r = Some (last (free ?c))" "s' = setClass i ?d s" using assms(3) False by (auto simp: takeReserve_def Let_def)
    have split: "mset (free ?c) = mset (butlast (free ?c)) + {#last (free ?c)#}"
      using append_butlast_last_id [OF False] by (metis mset_append mset_single_iff_right mset.simps(1,2) add_mset_add_single)
    then have ic: "inClass ?c = inClass ?d + {#last (free ?c)#}" by (simp add: inClass_def)
    have "0 < length (free ?c)" using False by simp
    then have len: "held ?d = int (length (free ?d))" "int (length (free ?d)) \<le> int (length (free ?c))" by (simp_all, linarith)
    have "p \<in># inClass ?c" if "p \<in># inClass ?d" for p using that unfolding ic by simp
    then have "\<forall>p \<in># inClass ?d. p < length (allocated s) \<and> classSize i \<le> allocated s ! p" using ok unfolding class_ok_def by blast
    moreover have "csize ?d = csize ?c" "target ?d = target ?c" "refill ?d = refill ?c" by simp_all
    ultimately have "class_ok (allocated s) i ?d" using ok len unfolding class_ok_def by linarith
    then have "pools_ok s'" unfolding r(2) by (rule setClass_ok_same [OF assms(1,2)]) (simp add: cost_def)
    moreover have "inPools s = inPools s' + {#last (free ?c)#}"
      using sums_setClass(2) [OF conjunct2 [OF ok], of ?d] ic r(2) by (simp add: ac_simps)
    ultimately show ?thesis using r ic by simp
  qed
  then show "pools_ok s'" "inPools s = inPools s' + (case r of None \<Rightarrow> {#} | Some p \<Rightarrow> {#p#})" "allocated s' = allocated s"
    "\<And>p. r = Some p \<Longrightarrow> p \<in># inClass (cls s i)" by blast+
qed

lemma fromPool_ok:
  assumes "pools_ok s" and "i < numClasses" and "fromPool i pick s = (r, s')"
  shows "pools_ok s'" "inPools s = inPools s' + (case r of None \<Rightarrow> {#} | Some p \<Rightarrow> {#p#})" "allocated s' = allocated s"
    "\<And>p. r = Some p \<Longrightarrow> p \<in># inClass (cls s i)"
proof -
  let ?c = "cls s i"
  note ok = okD [OF assms(1,2)]
  have "pools_ok s' \<and> inPools s = inPools s' + (case r of None \<Rightarrow> {#} | Some p \<Rightarrow> {#p#}) \<and> allocated s' = allocated s \<and>
    (\<forall>p. r = Some p \<longrightarrow> p \<in># inClass ?c)"
  proof (cases "\<exists>k. pick = Some k \<and> k < length (spool ?c)")
    case False
    then have "r = None" "s' = s" using assms(3) by (auto simp: fromPool_def split: option.splits if_splits)
    then show ?thesis using assms(1) by simp
  next
    case True
    then obtain k where k: "pick = Some k" "k < length (spool ?c)" by blast
    let ?d = "?c\<lparr>spool := take k (spool ?c) @ drop (Suc k) (spool ?c)\<rparr>"
    have r: "r = Some (spool ?c ! k)" "s' = setClass i ?d s" using assms(3) k by (auto simp: fromPool_def Let_def)
    have "mset (spool ?c) = mset (take k (spool ?c) @ spool ?c ! k # drop (Suc k) (spool ?c))"
      using id_take_nth_drop [OF k(2)] by simp
    then have ic: "inClass ?c = inClass ?d + {#spool ?c ! k#}" by (simp add: inClass_def)
    then have "class_ok (allocated s) i ?d" using ok by (auto simp: class_ok_def)
    then have "pools_ok s'" unfolding r(2) by (rule setClass_ok_same [OF assms(1,2)]) (simp add: cost_def)
    moreover have "inPools s = inPools s' + {#spool ?c ! k#}"
      using sums_setClass(2) [OF conjunct2 [OF ok], of ?d] ic r(2) by (simp add: ac_simps)
    ultimately show ?thesis using r ic by simp
  qed
  then show "pools_ok s'" "inPools s = inPools s' + (case r of None \<Rightarrow> {#} | Some p \<Rightarrow> {#p#})" "allocated s' = allocated s"
    "\<And>p. r = Some p \<Longrightarrow> p \<in># inClass (cls s i)" by blast+
qed

lemma aim_ok:
  assumes "pools_ok s" and "i < numClasses" and "t = held (cls s i)"
  shows "pools_ok (aim i t s)" "inPools (aim i t s) = inPools s" "allocated (aim i t s) = allocated s"
proof -
  let ?c = "cls s i"
  let ?d = "?c\<lparr>target := t\<rparr>"
  note ok = okD [OF assms(1,2)]
  have d: "class_ok (allocated s) i ?d" "inClass ?d = inClass ?c" using ok assms(3) by (simp_all add: class_ok_def inClass_def)
  have t: "t \<le> target ?c" "0 \<le> csize ?c" using ok assms(3) by (simp_all add: class_ok_def)
  then have "(t - target ?c) * csize ?c \<le> 0" by (simp add: mult_nonpos_nonneg)
  moreover have "committed s \<le> budget s" using assms(1) by (simp add: pools_ok_def)
  ultimately have le: "committed s + (t - target ?c) * csize ?c \<le> budget s" by linarith
  have "committed s + (t - target ?c) * csize ?c = committed s + cost ?d - cost ?c" by (simp add: cost_def algebra_simps)
  from setClass_ok [OF assms(1,2) d(1) this le] show "pools_ok (aim i t s)" unfolding aim_def Let_def .
  show "inPools (aim i t s) = inPools s" "allocated (aim i t s) = allocated s"
    using same_inPools [OF conjunct2 [OF ok] d(2)] by (simp_all add: aim_def Let_def)
qed

lemma beginRefill_ok:
  assumes "pools_ok s" and "i < numClasses"
  shows "pools_ok (beginRefill i s) \<and> inPools (beginRefill i s) = inPools s \<and> allocated (beginRefill i s) = allocated s"
proof (cases "cepoch (cls s i) = gcEpoch s")
  case False
  let ?c = "(cls s i)\<lparr>cepoch := gcEpoch s\<rparr>"
  define s1 where "s1 = setClass i ?c s"
  note ok = okD [OF assms]
  have c: "class_ok (allocated s) i ?c" "inClass ?c = inClass (cls s i)" "cost ?c = cost (cls s i)"
    using ok by (simp_all add: class_ok_def inClass_def cost_def)
  have s1: "pools_ok s1" "inPools s1 = inPools s" "allocated s1 = allocated s"
    using setClass_ok_same [OF assms c(1,3)] same_inPools [OF conjunct2 [OF ok] c(2)] by (simp_all add: s1_def)
  define s2 where "s2 = (if refill (cls s1 i) > 0 then aim i (held (cls s1 i)) s1 else s1)"
  have s2: "pools_ok s2" "inPools s2 = inPools s" "allocated s2 = allocated s"
    using aim_ok [OF s1(1) assms(2) refl] s1 by (simp_all add: s2_def)
  note ok2 = okD [OF s2(1) assms(2)]
  let ?d = "(cls s2 i)\<lparr>refill := target (cls s2 i)\<rparr>"
  have d: "class_ok (allocated s2) i ?d" "inClass ?d = inClass (cls s2 i)" "cost ?d = cost (cls s2 i)"
    using ok2 by (simp_all add: class_ok_def inClass_def cost_def)
  have "beginRefill i s = setClass i ?d s2" using False by (simp add: beginRefill_def Let_def s1_def s2_def)
  then show ?thesis
    using setClass_ok_same [OF s2(1) assms(2) d(1,3)] same_inPools [OF conjunct2 [OF ok2] d(2)] s2 by simp
qed (use assms in \<open>simp add: beginRefill_def\<close>)

lemma keep_ok:
  assumes "pools_ok s" and "i < numClasses" and "keep i p s = (kept, s')" and "p < length (allocated s)" and "classSize i \<le> allocated s ! p"
  shows "pools_ok s' \<and> inPools s' = inPools s + (if kept then {#p#} else {#}) \<and> allocated s' = allocated s"
proof -
  let ?c = "(cls s i)\<lparr>refill := refill (cls s i) - 1\<rparr>"
  note ok = okD [OF assms(1,2)]
  have same: "pools_ok (setClass i d s) \<and> inPools (setClass i d s) = inPools s"
    if "class_ok (allocated s) i d" "inClass d = inClass (cls s i)" "cost d = cost (cls s i)" for d
    using setClass_ok_same [OF assms(1,2) that(1,3)] same_inPools [OF conjunct2 [OF ok] that(2)] by simp
  consider "refill ?c < 0" | "\<not> refill ?c < 0" "held ?c \<ge> target ?c \<or> int (length (free ?c)) \<ge> target ?c"
    | "\<not> refill ?c < 0" "\<not> held ?c \<ge> target ?c" "\<not> int (length (free ?c)) \<ge> target ?c" by blast
  then show ?thesis
  proof cases
    case 1
    then have "kept = False" "s' = setClass i (?c\<lparr>refill := 0\<rparr>) s" using assms(3) by (auto simp: keep_def Let_def)
    then show ?thesis using same [of "?c\<lparr>refill := 0\<rparr>"] ok by (simp add: class_ok_def inClass_def cost_def)
  next
    case 2
    then have "keep i p s = (False, setClass i ?c s)" unfolding keep_def Let_def by auto
    then have "kept = False" "s' = setClass i ?c s" using assms(3) by simp_all
    then show ?thesis using same [of ?c] ok 2(1) by (simp add: class_ok_def inClass_def cost_def)
  next
    case 3
    let ?d = "?c\<lparr>free := free ?c @ [p], held := int (length (free ?c)) + 1\<rparr>"
    have "keep i p s = (True, setClass i ?d s)" using 3 unfolding keep_def Let_def by simp
    then have r: "kept = True" "s' = setClass i ?d s" using assms(3) by simp_all
    have ic: "inClass ?d = inClass (cls s i) + {#p#}" by (simp add: inClass_def)
    have "class_ok (allocated s) i ?d" using ok assms(4,5) 3 ic by (auto simp: class_ok_def)
    then have "pools_ok s'" unfolding r(2) by (rule setClass_ok_same [OF assms(1,2)]) (simp add: cost_def)
    then show ?thesis using sums_setClass(2) [OF conjunct2 [OF ok], of ?d] ic r by (simp add: ac_simps)
  qed
qed

subsection \<open>Giving memory back\<close>

text \<open>While \<^verbatim>\<open>trim\<close> runs, the targets may still be above the budget.\<close>

definition pools_acc :: "pools \<Rightarrow> bool" where
  "pools_acc s \<longleftrightarrow> length (classes s) = numClasses \<and> (\<forall>i < numClasses. class_ok (allocated s) i (cls s i)) \<and> committed s = total s"

lemma pools_ok_acc: "pools_ok s \<longleftrightarrow> pools_acc s \<and> committed s \<le> budget s"
  by (auto simp: pools_ok_def pools_acc_def)

lemma setClass_acc:
  assumes "pools_acc s" and "i < numClasses" and "class_ok (allocated s) i c" and "n = committed s + cost c - cost (cls s i)"
  shows "pools_acc ((setClass i c s)\<lparr>committed := n\<rparr>)"
proof -
  have len: "i < length (classes s)" using assms(1,2) by (simp add: pools_acc_def)
  have "class_ok (allocated s) j (cls (setClass i c s) j)" if "j < numClasses" for j
    using assms(1,3) that by (simp add: cls_setClass [OF len] pools_acc_def)
  then show ?thesis using assms(1,4) sums_setClass(1) [OF len, of c] by (simp add: pools_acc_def)
qed

lemma trimTarget_result:
  "i < length (classes s) \<Longrightarrow> 0 \<le> target (cls s i) \<Longrightarrow>
   \<exists>t. 0 \<le> t \<and> t \<le> target (cls s i) \<and>
     trimTarget i s = (setClass i ((cls s i)\<lparr>target := t\<rparr>) s)\<lparr>committed := committed s - csize (cls s i) * (target (cls s i) - t)\<rparr> \<and>
     (committed (trimTarget i s) \<le> budget s \<or> t = 0)"
proof (induction i s rule: trimTarget.induct)
  case (1 i s)
  let ?c = "cls s i"
  show ?case
  proof (cases "committed s > budget s \<and> target ?c > 0 \<and> i < length (classes s)")
    case False
    then have "trimTarget i s = s" by (subst trimTarget.simps) (rule if_not_P)
    moreover have "(setClass i (?c\<lparr>target := target ?c\<rparr>) s)\<lparr>committed := committed s - csize ?c * (target ?c - target ?c)\<rparr> = s"
      using 1(2) by (simp add: setClass_def cls_def)
    moreover have "committed s \<le> budget s \<or> target ?c = 0" using False 1(2,3) by linarith
    ultimately show ?thesis using 1(3) by (intro exI [of _ "target ?c"]) simp
  next
    case True
    let ?d = "?c\<lparr>target := target ?c - 1\<rparr>"
    define s1 where "s1 = (setClass i ?d s)\<lparr>committed := committed s - csize ?c\<rparr>"
    have step: "trimTarget i s = trimTarget i s1" unfolding s1_def by (subst trimTarget.simps) (rule if_P [OF True])
    have s1: "cls s1 i = ?d" "i < length (classes s1)" "budget s1 = budget s" "committed s1 = committed s - csize ?c"
      using 1(2) by (simp_all add: s1_def cls_setClass)
    have "0 \<le> target (cls s1 i)" using True s1(1) by simp
    from 1(1) [OF True, folded s1_def, OF s1(2) this]
    obtain t where t: "0 \<le> t" "t \<le> target ?d"
      "trimTarget i s1 = (setClass i (?d\<lparr>target := t\<rparr>) s1)\<lparr>committed := committed s1 - csize ?d * (target ?d - t)\<rparr>"
      "committed (trimTarget i s1) \<le> budget s \<or> t = 0"
      unfolding s1(1,3) by blast
    have "setClass i (?d\<lparr>target := t\<rparr>) s1 = (setClass i (?c\<lparr>target := t\<rparr>) s)\<lparr>committed := committed s - csize ?c\<rparr>"
      by (simp add: setClass_def s1_def)
    moreover have "committed s1 - csize ?d * (target ?d - t) = committed s - csize ?c * (target ?c - t)"
      by (simp add: s1 algebra_simps)
    ultimately have "trimTarget i s1 = (setClass i (?c\<lparr>target := t\<rparr>) s)\<lparr>committed := committed s - csize ?c * (target ?c - t)\<rparr>"
      using t(3) by simp
    moreover have "t \<le> target ?c" using t(2) by simp
    ultimately show ?thesis unfolding step using t(1,4) by blast
  qed
qed

text \<open>A class whose target fell, with its reserve cut to it.\<close>

definition cutTo :: "int \<Rightarrow> sizeClass \<Rightarrow> sizeClass" where
  "cutTo t c = c\<lparr>target := t, free := take (nat t) (free c), held := int (min (length (free c)) (nat t))\<rparr>"

lemma cutTo_ok:
  assumes "class_ok alloc i c" and "0 \<le> t"
  shows "class_ok alloc i (cutTo t c)" "inClass (cutTo t c) \<subseteq># inClass c"
proof -
  show sub: "inClass (cutTo t c) \<subseteq># inClass c"
  proof -
    have "mset (free c) = mset (take (nat t) (free c)) + mset (drop (nat t) (free c))"
      by (simp only: mset_append [symmetric] append_take_drop_id)
    then show ?thesis by (simp add: inClass_def cutTo_def)
  qed
  have "\<forall>p \<in># inClass (cutTo t c). p < length alloc \<and> classSize i \<le> alloc ! p"
    using assms(1) mset_subset_eqD [OF sub] unfolding class_ok_def by blast
  then show "class_ok alloc i (cutTo t c)" using assms by (auto simp: class_ok_def cutTo_def)
qed

lemma accD: "pools_acc s \<Longrightarrow> i < numClasses \<Longrightarrow> class_ok (allocated s) i (cls s i) \<and> i < length (classes s)"
  by (simp add: pools_acc_def)

lemma trimClass_result:
  assumes "pools_acc s" and "i < numClasses"
  shows "\<exists>t n. 0 \<le> t \<and> trimClass i s = (setClass i (cutTo t (cls s i)) s)\<lparr>committed := n\<rparr> \<and>
    n = committed s + cost (cutTo t (cls s i)) - cost (cls s i) \<and> n \<le> committed s \<and> (n \<le> budget s \<or> t = 0)"
proof -
  let ?c = "cls s i"
  note ok = accD [OF assms]
  have c: "held ?c = int (length (free ?c))" "0 \<le> target ?c" "0 \<le> csize ?c" using ok by (auto simp: class_ok_def)
  obtain t where t: "0 \<le> t" "t \<le> target ?c"
    "trimTarget i s = (setClass i (?c\<lparr>target := t\<rparr>) s)\<lparr>committed := committed s - csize ?c * (target ?c - t)\<rparr>"
    "committed (trimTarget i s) \<le> budget s \<or> t = 0"
    using trimTarget_result [OF conjunct2 [OF ok] c(2)] by blast
  define n where "n = committed s - csize ?c * (target ?c - t)"
  have s1: "cls (trimTarget i s) i = ?c\<lparr>target := t\<rparr>" using ok unfolding t(3) by (simp add: cls_setClass)
  have "trimClass i s = (setClass i (cutTo t ?c) s)\<lparr>committed := n\<rparr>"
  proof (cases "held ?c \<le> t")
    case True
    then have "length (free ?c) \<le> nat t" using c(1) t(1) by linarith
    then have "cutTo t ?c = ?c\<lparr>target := t\<rparr>" using c(1) by (simp add: cutTo_def min_absorb1)
    moreover have "trimClass i s = trimTarget i s" using True s1 by (simp add: trimClass_def Let_def)
    ultimately show ?thesis unfolding t(3) n_def by simp
  next
    case False
    then have lt: "int (length (free ?c)) > t" "nat t < length (free ?c)" using c(1) t(1) by linarith+
    then have "cutTo t ?c = ?c\<lparr>target := t, free := take (nat t) (free ?c), held := int (length (take (nat t) (free ?c)))\<rparr>"
      by (simp add: cutTo_def)
    moreover have "trimClass i s = setClass i (?c\<lparr>target := t, free := take (nat t) (free ?c), held := int (length (take (nat t) (free ?c)))\<rparr>) (trimTarget i s)"
      using False lt s1 by (simp add: trimClass_def Let_def)
    ultimately show ?thesis unfolding t(3) n_def by (simp add: setClass_def)
  qed
  moreover have "n = committed s + cost (cutTo t ?c) - cost ?c" by (simp add: n_def cutTo_def cost_def algebra_simps)
  moreover have "n \<le> committed s" using c(3) t(2) by (simp add: n_def)
  moreover have "n \<le> budget s \<or> t = 0" using t(3,4) by (simp add: n_def)
  ultimately show ?thesis using t(1) by blast
qed

lemma trimClass_acc:
  assumes "pools_acc s" and "i < numClasses"
  shows "pools_acc (trimClass i s) \<and> inPools (trimClass i s) \<subseteq># inPools s \<and> allocated (trimClass i s) = allocated s \<and>
    budget (trimClass i s) = budget s \<and> (committed (trimClass i s) \<le> budget s \<or> target (cls (trimClass i s) i) = 0) \<and>
    committed (trimClass i s) \<le> committed s \<and> (\<forall>j. j \<noteq> i \<longrightarrow> cls (trimClass i s) j = cls s j)"
proof -
  let ?c = "cls s i"
  note ok = accD [OF assms]
  obtain t n where t: "0 \<le> t" "trimClass i s = (setClass i (cutTo t ?c) s)\<lparr>committed := n\<rparr>"
    "n = committed s + cost (cutTo t ?c) - cost ?c" "n \<le> committed s" "n \<le> budget s \<or> t = 0"
    using trimClass_result [OF assms] by blast
  note cut = cutTo_ok [OF conjunct1 [OF ok] t(1)]
  have "pools_acc (trimClass i s)" unfolding t(2) by (rule setClass_acc [OF assms cut(1) t(3)])
  moreover have "inPools (setClass i (cutTo t ?c) s) \<subseteq># inPools s"
  proof -
    obtain m where m: "inClass ?c = inClass (cutTo t ?c) + m" using cut(2) by (auto simp: subset_mset.le_iff_add)
    have "inPools (setClass i (cutTo t ?c) s) + m + inClass (cutTo t ?c) = inPools s + inClass (cutTo t ?c)"
      using sums_setClass(2) [OF conjunct2 [OF ok], of "cutTo t ?c"] unfolding m by (simp add: ac_simps)
    then have "inPools s = inPools (setClass i (cutTo t ?c) s) + m" by simp
    then show ?thesis by simp
  qed
  moreover have "target (cutTo t ?c) = t" by (simp add: cutTo_def)
  ultimately show ?thesis using t(4,5) ok unfolding t(2) by (auto simp: cls_setClass)
qed

lemma trimFrom_acc:
  "pools_acc s \<Longrightarrow> k \<le> numClasses \<Longrightarrow> committed s \<le> budget s \<or> (\<forall>j. k \<le> j \<and> j < numClasses \<longrightarrow> target (cls s j) = 0) \<Longrightarrow>
   pools_acc (trimFrom k s) \<and> inPools (trimFrom k s) \<subseteq># inPools s \<and> allocated (trimFrom k s) = allocated s \<and>
   budget (trimFrom k s) = budget s \<and>
   (committed (trimFrom k s) \<le> budget s \<or> (\<forall>j < numClasses. target (cls (trimFrom k s) j) = 0))"
proof (induction k arbitrary: s)
  case (Suc k)
  let ?s = "trimClass k s"
  have k: "k < numClasses" using Suc.prems(2) by simp
  note tc = trimClass_acc [OF Suc.prems(1) k]
  have "committed ?s \<le> budget ?s \<or> (\<forall>j. k \<le> j \<and> j < numClasses \<longrightarrow> target (cls ?s j) = 0)"
  proof (cases "committed ?s \<le> budget s")
    case False
    then have "target (cls ?s k) = 0" "\<forall>j. Suc k \<le> j \<and> j < numClasses \<longrightarrow> target (cls s j) = 0"
      using tc Suc.prems(3) by auto
    then have "target (cls ?s j) = 0" if "k \<le> j" "j < numClasses" for j
      using that tc by (cases "j = k") auto
    then show ?thesis by blast
  qed (use tc in simp)
  from Suc.IH [OF conjunct1 [OF tc] _ this] k have "pools_acc (trimFrom k ?s) \<and> inPools (trimFrom k ?s) \<subseteq># inPools ?s \<and>
    allocated (trimFrom k ?s) = allocated ?s \<and> budget (trimFrom k ?s) = budget ?s \<and>
    (committed (trimFrom k ?s) \<le> budget ?s \<or> (\<forall>j < numClasses. target (cls (trimFrom k ?s) j) = 0))" by simp
  then show ?case using tc subset_mset.order_trans by fastforce
qed auto

lemma SetRetainedBytes_ok:
  assumes "pools_ok s"
  shows "pools_ok (SetRetainedBytes n s) \<and> inPools (SetRetainedBytes n s) \<subseteq># inPools s \<and>
    allocated (SetRetainedBytes n s) = allocated s \<and> budget (SetRetainedBytes n s) = max 0 n"
proof -
  define m where "m = (if n < 0 then 0 else n)"
  define s1 where "s1 = s\<lparr>budget := m\<rparr>"
  have s1: "pools_acc s1" "inPools s1 = inPools s" "allocated s1 = allocated s" "budget s1 = m" "committed s1 = committed s"
    using assms by (simp_all add: s1_def pools_ok_acc pools_acc_def)
  have m: "m = max 0 n" "0 \<le> m" by (auto simp: m_def)
  have eq: "SetRetainedBytes n s = (if committed s1 > m then trim s1 else s1)"
    by (simp add: SetRetainedBytes_def Let_def m_def s1_def)
  show ?thesis
  proof (cases "committed s1 > m")
    case True
    have tf: "pools_acc (trim s1) \<and> inPools (trim s1) \<subseteq># inPools s1 \<and> allocated (trim s1) = allocated s1 \<and>
      budget (trim s1) = budget s1 \<and> (committed (trim s1) \<le> budget s1 \<or> (\<forall>j < numClasses. target (cls (trim s1) j) = 0))"
      unfolding trim_def by (rule trimFrom_acc [OF s1(1)]) simp_all
    have "committed (trim s1) \<le> m"
    proof (rule ccontr)
      assume "\<not> committed (trim s1) \<le> m"
      then have z: "\<forall>j < numClasses. target (cls (trim s1) j) = 0" using tf s1(4) by simp
      have "length (classes (trim s1)) = numClasses" using tf by (simp add: pools_acc_def)
      with z have "\<forall>c \<in> set (classes (trim s1)). cost c = 0" by (auto simp: in_set_conv_nth cls_def cost_def)
      then have "sum_list (map cost (classes (trim s1))) = 0" by (intro sum_list_nonneg_eq_0_iff [THEN iffD2]) auto
      then have "committed (trim s1) = 0" using tf by (simp add: pools_acc_def total_def)
      then show False using \<open>\<not> committed (trim s1) \<le> m\<close> m(2) by simp
    qed
    then show ?thesis using True tf s1 m(1) unfolding eq by (simp add: pools_ok_acc)
  next
    case False
    then have "SetRetainedBytes n s = s1" "committed s1 \<le> m" unfolding eq by auto
    then show ?thesis using s1 m(1) by (simp add: pools_ok_acc)
  qed
qed

lemma class_ok_grow: "class_ok a i c \<Longrightarrow> class_ok (a @ b) i c"
  by (auto simp: class_ok_def nth_append)

lemma makeBuf_ok:
  assumes "pools_ok s"
  shows "pools_ok (snd (makeBuf n c s)) \<and> inPools (snd (makeBuf n c s)) = inPools s"
  using assms class_ok_grow by (auto simp: makeBuf_def pools_ok_def)

lemma collect_ok:
  assumes "pools_ok s"
  shows "pools_ok (collect f s) \<and> inPools (collect f s) \<subseteq># inPools s \<and> allocated (collect f s) = allocated s \<and>
    budget (collect f s) = budget s"
proof -
  let ?g = "\<lambda>c. c\<lparr>spool := filter f (spool c)\<rparr>"
  have g: "class_ok a i c \<Longrightarrow> class_ok a i (?g c)" "cost (?g c) = cost c" "inClass (?g c) \<subseteq># inClass c" for a i and c :: sizeClass
    by (auto simp: class_ok_def cost_def inClass_def multiset_filter_subset)
  have "sum_list (map inClass (map ?g cs)) \<subseteq># sum_list (map inClass cs)" for cs :: "sizeClass list"
    using g(3) by (induction cs) (auto intro!: subset_mset.add_mono)
  then have "inPools (collect f s) \<subseteq># inPools s" by (simp add: inPools_def collect_def)
  moreover have "total (collect f s) = total s" using g(2) by (simp add: total_def collect_def comp_def)
  moreover have "cls (collect f s) i = ?g (cls s i)" if "i < length (classes s)" for i
    using that by (simp add: cls_def collect_def)
  ultimately show ?thesis using assms g(1) by (simp add: pools_ok_def) (simp add: collect_def)
qed

subsection \<open>Taking a buffer and giving it back\<close>

text \<open>What \<^verbatim>\<open>Get\<close> gives is a slice of a buffer that leaves the pools, or of one made for it.\<close>

definition given :: "int \<Rightarrow> pools \<Rightarrow> buf \<Rightarrow> pools \<Rightarrow> bool" where
  "given sz s b s' \<longleftrightarrow>
     pools_ok s' \<and> blen b = nat sz \<and> int (bcap b) = Align sz \<and> baddr b < length (allocated s') \<and> bcap b \<le> allocated s' ! baddr b \<and>
     (inPools s = add_mset (baddr b) (inPools s') \<and> allocated s' = allocated s \<or>
      inPools s = inPools s' \<and> baddr b = length (allocated s) \<and> (\<exists>n. allocated s' = allocated s @ [n]))"

lemma given_pooled:
  assumes "0 < sz" "sz \<le> int MaxSize" "i = classUp sz" "pools_ok s" "pools_ok s'"
    and "inPools s = inPools s' + {#p#}" "allocated s' = allocated s" "p \<in># inClass (cls s i)"
  shows "given sz s \<lparr>baddr = p, blen = nat sz, bcap = classSize i\<rparr> s'"
proof -
  note c = class_of_size [OF assms(1,2)]
  have "class_ok (allocated s) i (cls s i)" using okD [OF assms(4)] c(2) assms(3) by simp
  then have "p < length (allocated s) \<and> classSize i \<le> allocated s ! p" using assms(8) by (simp add: class_ok_def)
  then show ?thesis using assms c(1) by (simp add: given_def)
qed

lemma given_made:
  assumes "pools_ok s" "pools_ok s1" "inPools s1 = inPools s" "allocated s1 = allocated s" "int c = Align sz"
    and "makeBuf (nat sz) c s1 = (b, s')"
  shows "given sz s b s'"
  using assms(2-6) makeBuf_ok [OF assms(2), of "nat sz" c] by (auto simp: given_def makeBuf_def)

lemma poolGet_ok:
  assumes "pools_ok s" and "0 < sz"
  shows "\<exists>b s'. poolGet sz pick s = (Some b, s') \<and> given sz s b s'"
proof (cases "sz > int MaxSize")
  case True
  obtain b s' where mk: "makeBuf (nat sz) (nat sz) s = (b, s')" by fastforce
  have "int (nat sz) = Align sz" using True assms(2) by (simp add: Align_def pool_consts)
  from given_made [OF assms(1,1) refl refl this mk] show ?thesis using True assms(2) mk by (simp add: poolGet_def)
next
  case False
  let ?i = "classUp sz"
  have sz: "sz \<le> int MaxSize" using False by simp
  note c = class_of_size [OF assms(2) sz]
  obtain r s1 where fp: "fromPool ?i pick s = (r, s1)" by fastforce
  note fo = fromPool_ok [OF assms(1) c(2) fp]
  obtain r2 s2 where tr: "(if held (cls s1 ?i) > 0 then takeReserve ?i s1 else (None, s1)) = (r2, s2)" by fastforce
  have get: "poolGet sz pick s = (case r of Some p \<Rightarrow> (Some \<lparr>baddr = p, blen = nat sz, bcap = classSize ?i\<rparr>, s1)
     | None \<Rightarrow> (case r2 of Some p \<Rightarrow> (Some \<lparr>baddr = p, blen = nat sz, bcap = classSize ?i\<rparr>, s2)
     | None \<Rightarrow> (case makeBuf (nat sz) (classSize ?i) (reserveMore ?i s2) of (b, s) \<Rightarrow> (Some b, s))))"
    using assms(2) False fp tr by (cases "held (cls s1 ?i) > 0") (simp_all add: poolGet_def Let_def split: option.split)
  show ?thesis
  proof (cases r)
    case (Some p)
    then show ?thesis using given_pooled [OF assms(2) sz refl assms(1) fo(1) _ fo(3) fo(4)] fo(2) get by simp
  next
    case None
    have s1: "inPools s1 = inPools s" "allocated s1 = allocated s" using fo(2,3) None by simp_all
    have to: "pools_ok s2 \<and> inPools s1 = inPools s2 + (case r2 of None \<Rightarrow> {#} | Some p \<Rightarrow> {#p#}) \<and> allocated s2 = allocated s1 \<and>
      (\<forall>p. r2 = Some p \<longrightarrow> p \<in># inClass (cls s1 ?i))"
    proof (cases "held (cls s1 ?i) > 0")
      case True
      then have "takeReserve ?i s1 = (r2, s2)" using tr by simp
      note t = takeReserve_ok [OF fo(1) c(2) this]
      show ?thesis using t(1-3) t(4) by blast
    qed (use tr fo(1) in auto)
    show ?thesis
    proof (cases r2)
      case (Some p)
      have "given sz s1 \<lparr>baddr = p, blen = nat sz, bcap = classSize ?i\<rparr> s2"
        by (rule given_pooled [OF assms(2) sz refl fo(1)]) (use to Some in simp_all)
      then show ?thesis using get None Some s1 by (simp add: given_def)
    next
      case r2: None
      have s2: "pools_ok s2" "inPools s2 = inPools s" "allocated s2 = allocated s" using to r2 s1 by simp_all
      note rm = reserveMore_ok [OF s2(1) c(2)]
      obtain b s' where mk: "makeBuf (nat sz) (classSize ?i) (reserveMore ?i s2) = (b, s')" by fastforce
      have "given sz s b s'" by (rule given_made [OF assms(1) rm(1) _ _ c(1) mk]) (use rm s2 in simp_all)
      then show ?thesis using get None r2 mk by simp
    qed
  qed
qed

lemma poolPut_ok:
  assumes "pools_ok s" and "baddr b < length (allocated s)" and "bcap b \<le> allocated s ! baddr b"
  shows "pools_ok (poolPut b s) \<and> allocated (poolPut b s) = allocated s \<and>
    (inPools (poolPut b s) = inPools s \<or> inPools (poolPut b s) = add_mset (baddr b) (inPools s))"
proof (cases "bcap b < MinSize \<or> bcap b > MaxSize")
  case False
  let ?i = "classDown (bcap b)"
  have b: "MinSize \<le> bcap b" "bcap b \<le> MaxSize" using False by simp_all
  note c = class_of_capacity [OF b]
  define s1 where "s1 = (if gcEpoch s \<noteq> cepoch (cls s ?i) then beginRefill ?i s else s)"
  have s1: "pools_ok s1" "inPools s1 = inPools s" "allocated s1 = allocated s"
    using beginRefill_ok [OF assms(1) c(1)] assms(1) by (simp_all add: s1_def)
  obtain kept s2 where k: "(if refill (cls s1 ?i) > 0 then keep ?i (baddr b) s1 else (False, s1)) = (kept, s2)" by fastforce
  have s2: "pools_ok s2 \<and> inPools s2 = inPools s1 + (if kept then {#baddr b#} else {#}) \<and> allocated s2 = allocated s1"
  proof (cases "refill (cls s1 ?i) > 0")
    case True
    then have "keep ?i (baddr b) s1 = (kept, s2)" using k by simp
    then show ?thesis by (rule keep_ok [OF s1(1) c(1)]) (use assms(2,3) c(2) s1 in simp_all)
  qed (use k s1 in auto)
  let ?d = "(cls s2 ?i)\<lparr>spool := spool (cls s2 ?i) @ [baddr b]\<rparr>"
  have put: "poolPut b s = (if kept then s2 else setClass ?i ?d s2)"
    using False k by (cases "refill (cls s1 ?i) > 0") (simp_all add: poolPut_def Let_def flip: s1_def)
  note ok = okD [OF conjunct1 [OF s2] c(1)]
  have ic: "inClass ?d = add_mset (baddr b) (inClass (cls s2 ?i))" by (simp add: inClass_def)
  have "class_ok (allocated s2) ?i ?d" using ok assms(2,3) c(2) s2 s1 unfolding class_ok_def ic by auto
  then have "pools_ok (setClass ?i ?d s2)" by (rule setClass_ok_same [OF conjunct1 [OF s2] c(1)]) (simp add: cost_def)
  moreover have "inPools (setClass ?i ?d s2) = add_mset (baddr b) (inPools s2)"
    using sums_setClass(2) [OF conjunct2 [OF ok], of ?d] unfolding ic by simp
  ultimately show ?thesis using s2 s1 unfolding put by (cases kept) simp_all
qed (use assms in \<open>simp add: poolPut_def\<close>)

subsection \<open>A program that uses the pool\<close>

text \<open>
  A program holds buffers: it asks the pool for one, makes one of its own, narrows one, or gives one
  back, after which it no longer uses it. Between these steps the budget may be set and the runtime may
  collect. A position outside what the program holds is no step.
\<close>

datatype poolOp =
    OpGet int "nat option"
  | OpMake nat nat
  | OpNarrow nat nat nat
  | OpPut nat
  | OpRetain int
  | OpCollect "nat \<Rightarrow> bool"

fun poolStep :: "poolOp \<Rightarrow> pools \<times> buf list \<Rightarrow> pools \<times> buf list" where
  "poolStep (OpGet sz pick) (s, bs) =
     (case poolGet sz pick s of (Some b, s) \<Rightarrow> (s, b # bs) | (None, s) \<Rightarrow> (s, bs))"
| "poolStep (OpMake n c) (s, bs) = (if n \<le> c then (case makeBuf n c s of (b, s) \<Rightarrow> (s, b # bs)) else (s, bs))"
| "poolStep (OpNarrow k n c) (s, bs) =
     (if k < length bs \<and> n \<le> c \<and> c \<le> bcap (bs ! k) then (s, bs[k := (bs ! k)\<lparr>blen := n, bcap := c\<rparr>]) else (s, bs))"
| "poolStep (OpPut k) (s, bs) =
     (if k < length bs then (poolPut (bs ! k) s, take k bs @ drop (Suc k) bs) else (s, bs))"
| "poolStep (OpRetain n) (s, bs) = (SetRetainedBytes n s, bs)"
| "poolStep (OpCollect f) (s, bs) = (collect f s, bs)"

definition poolRun :: "poolOp list \<Rightarrow> pools \<times> buf list" where
  "poolRun ops = fold poolStep ops (initPools, [])"

text \<open>The budget is what it was last set to.\<close>

fun lastRetain :: "int \<Rightarrow> poolOp list \<Rightarrow> int" where
  "lastRetain n [] = n"
| "lastRetain n (OpRetain m # ops) = lastRetain (max 0 m) ops"
| "lastRetain n (_ # ops) = lastRetain n ops"

definition bytesHeld :: "pools \<Rightarrow> int" where
  "bytesHeld s = sum_list (map (\<lambda>c. csize c * int (length (free c))) (classes s))"

text \<open>No buffer is in two places, and what the program holds is within what was allocated.\<close>

definition inUse :: "pools \<times> buf list \<Rightarrow> nat multiset" where
  "inUse w = inPools (fst w) + mset (map baddr (snd w))"

definition world_ok :: "pools \<times> buf list \<Rightarrow> bool" where
  "world_ok w \<longleftrightarrow>
     pools_ok (fst w) \<and> (\<forall>p. count (inUse w) p \<le> (if p < length (allocated (fst w)) then 1 else 0)) \<and>
     (\<forall>b \<in> set (snd w). blen b \<le> bcap b \<and> bcap b \<le> allocated (fst w) ! baddr b)"

lemma owned_fresh: "world_ok w \<Longrightarrow> b \<in> set (snd w) \<Longrightarrow> baddr b < length (allocated (fst w))"
proof -
  assume w: "world_ok w" and b: "b \<in> set (snd w)"
  then have "baddr b \<in># inUse w" by (auto simp: inUse_def)
  then have "count (inUse w) (baddr b) > 0" by (rule count_greater_zero_iff [THEN iffD2])
  moreover have "count (inUse w) (baddr b) \<le> (if baddr b < length (allocated (fst w)) then 1 else 0)" using w by (simp add: world_ok_def)
  ultimately have "0 < (if baddr b < length (allocated (fst w)) then 1 else (0 :: nat))" by (rule less_le_trans)
  then show ?thesis by (rule contrapos_pp) simp
qed

text \<open>A step that only moves buffers or drops them, and allocates nothing.\<close>

lemma world_ok_shrink:
  assumes "world_ok w" and "pools_ok (fst w')" and "inUse w' \<subseteq># inUse w" and "allocated (fst w') = allocated (fst w)"
    and "\<And>b. b \<in> set (snd w') \<Longrightarrow> blen b \<le> bcap b \<and> bcap b \<le> allocated (fst w) ! baddr b"
  shows "world_ok w'"
proof -
  have "count (inUse w') p \<le> count (inUse w) p" for p using assms(3) by (rule mset_subset_eq_count)
  moreover have "count (inUse w) p \<le> (if p < length (allocated (fst w)) then 1 else 0)" for p using assms(1) by (simp add: world_ok_def)
  ultimately have "count (inUse w') p \<le> (if p < length (allocated (fst w)) then 1 else 0)" for p using order_trans by blast
  then show ?thesis using assms(2,4,5) by (simp add: world_ok_def)
qed

lemma world_ok_new:
  assumes "world_ok (s, bs)" and "pools_ok s'" and "inPools s' = inPools s" and "baddr b = length (allocated s)"
    and "allocated s' = allocated s @ [n]" and "blen b \<le> bcap b" and "bcap b \<le> n"
  shows "world_ok (s', b # bs)"
proof -
  have once: "count (inUse (s, bs)) p \<le> (if p < length (allocated s) then 1 else 0)" for p using assms(1) by (simp add: world_ok_def)
  moreover have "inUse (s', b # bs) = add_mset (length (allocated s)) (inUse (s, bs))" using assms(3,4) by (simp add: inUse_def)
  ultimately have "count (inUse (s', b # bs)) p \<le> (if p < length (allocated s') then 1 else 0)" for p
    using assms(5) once [of p] by (cases p "length (allocated s)" rule: linorder_cases) simp_all
  moreover have "\<forall>c \<in> set (b # bs). blen c \<le> bcap c \<and> bcap c \<le> allocated s' ! baddr c"
    using assms owned_fresh [OF assms(1)] by (auto simp: world_ok_def nth_append)
  ultimately show ?thesis using assms(2) by (simp add: world_ok_def)
qed

lemma mset_drop_nth: "k < length xs \<Longrightarrow> mset xs = add_mset (xs ! k) (mset (take k xs @ drop (Suc k) xs))"
  by (metis id_take_nth_drop mset_append mset.simps(2) union_mset_add_mset_right)

lemma set_drop_nth: "x \<in> set (take k xs @ drop (Suc k) xs) \<Longrightarrow> x \<in> set xs"
  by (auto dest: in_set_takeD in_set_dropD)

lemma Get_world:
  assumes "world_ok (s, bs)" and "given sz s b s'" and "0 < sz"
  shows "world_ok (s', b # bs)"
proof -
  note g = assms(2) [unfolded given_def]
  have cap: "blen b \<le> bcap b" using g assms(3) class_of_size(3) [OF assms(3)] by (cases "sz \<le> int MaxSize") (auto simp: Align_def pool_consts)
  show ?thesis
  proof (cases "allocated s' = allocated s")
    case True
    then have eq: "inPools s = add_mset (baddr b) (inPools s')" using g by auto
    show ?thesis
      by (rule world_ok_shrink [OF assms(1)]) (use g True cap assms(1) in \<open>auto simp: inUse_def eq world_ok_def\<close>)
  next
    case False
    then obtain n where n: "allocated s' = allocated s @ [n]" "inPools s' = inPools s" "baddr b = length (allocated s)" using g by auto
    then show ?thesis using world_ok_new [OF assms(1) _ n(2,3,1) cap] g by simp
  qed
qed

lemma poolStep_ok:
  assumes "world_ok w"
  shows "world_ok (poolStep op w)"
proof -
  obtain s bs where w: "w = (s, bs)" by fastforce
  have s: "pools_ok s" "world_ok (s, bs)" using assms w by (simp_all add: world_ok_def)
  have fits: "b \<in> set bs \<Longrightarrow> blen b \<le> bcap b \<and> bcap b \<le> allocated s ! baddr b" for b using s(2) by (simp add: world_ok_def)
  show ?thesis
  proof (cases op)
    case (OpGet sz pick)
    show ?thesis
    proof (cases "0 < sz")
      case True
      obtain b s' where "poolGet sz pick s = (Some b, s')" "given sz s b s'" using poolGet_ok [OF s(1) True] by blast
      then show ?thesis using Get_world [OF s(2) _ True] w OpGet by simp
    qed (use s w OpGet in \<open>simp add: poolGet_def\<close>)
  next
    case (OpMake n c)
    then show ?thesis using world_ok_new [OF s(2), of "snd (makeBuf n c s)" "fst (makeBuf n c s)" c] makeBuf_ok [OF s(1), of n c] s(2) w
      by (simp add: makeBuf_def)
  next
    case (OpNarrow k n c)
    show ?thesis
    proof (cases "k < length bs \<and> n \<le> c \<and> c \<le> bcap (bs ! k)")
      case True
      let ?bs = "bs[k := (bs ! k)\<lparr>blen := n, bcap := c\<rparr>]"
      have "map baddr ?bs = map baddr bs" using True by (simp add: map_update list_update_same_conv)
      then have "inUse (s, ?bs) = inUse (s, bs)" by (simp add: inUse_def del: mset_map)
      moreover have "blen b \<le> bcap b \<and> bcap b \<le> allocated s ! baddr b" if "b \<in> set ?bs" for b
        using set_update_subset_insert [of bs k] that fits fits [of "bs ! k"] True by fastforce
      ultimately have "world_ok (s, ?bs)" by (intro world_ok_shrink [OF s(2)]) (use s in simp_all)
      then show ?thesis using True w OpNarrow by simp
    qed (use s w OpNarrow in auto)
  next
    case (OpPut k)
    show ?thesis
    proof (cases "k < length bs")
      case True
      let ?b = "bs ! k" and ?bs = "take k bs @ drop (Suc k) bs"
      have b: "?b \<in> set bs" using True by simp
      have lt: "baddr ?b < length (allocated s)" using owned_fresh [OF s(2), of ?b] b by simp
      note p = poolPut_ok [OF s(1) lt conjunct2 [OF fits [OF b]]]
      have "mset (map baddr bs) = add_mset (baddr ?b) (mset (map baddr ?bs))" using mset_drop_nth [OF True] by simp
      then have "inUse (poolPut ?b s, ?bs) \<subseteq># inUse (s, bs)" using p by (auto simp: inUse_def)
      then have "world_ok (poolPut ?b s, ?bs)"
        by (intro world_ok_shrink [OF s(2)]) (use p fits in \<open>auto dest: in_set_takeD in_set_dropD\<close>)
      then show ?thesis using True w OpPut by simp
    qed (use s w OpPut in simp)
  next
    case (OpRetain n)
    have "world_ok (SetRetainedBytes n s, bs)"
      by (rule world_ok_shrink [OF s(2)]) (use SetRetainedBytes_ok [OF s(1), of n] fits in \<open>auto simp: inUse_def\<close>)
    then show ?thesis using w OpRetain by simp
  next
    case (OpCollect f)
    have "world_ok (collect f s, bs)"
      by (rule world_ok_shrink [OF s(2)]) (use collect_ok [OF s(1), of f] fits in \<open>auto simp: inUse_def\<close>)
    then show ?thesis using w OpCollect by simp
  qed
qed

lemma initPools_ok: "world_ok (initPools, [])"
proof -
  have "sum_list (map inClass (map initClass xs)) = {#}" "sum_list (map cost (map initClass xs)) = 0" for xs
    by (induction xs) (simp_all add: inClass_def initClass_def cost_def)
  then show ?thesis by (simp add: world_ok_def inUse_def pools_ok_def initPools_def inPools_def total_def cls_def class_ok_def
    initClass_def inClass_def DefaultRetainedBytes_def del: map_map upt_Suc)
qed

lemma poolRun_ok: "world_ok (poolRun ops)"
proof -
  have "world_ok w \<Longrightarrow> world_ok (fold poolStep ops w)" for w by (induction ops arbitrary: w) (simp_all add: poolStep_ok)
  then show ?thesis using initPools_ok by (simp add: poolRun_def)
qed

lemma reserve_budget [simp]:
  "budget (reserveMore i s) = budget s" "budget (aim i t s) = budget s" "budget (snd (takeReserve i s)) = budget s"
  "budget (beginRefill i s) = budget s" "budget (snd (keep i p s)) = budget s" "budget (snd (fromPool i pick s)) = budget s"
  "budget (snd (makeBuf n c s)) = budget s"
  by (simp_all add: reserveMore_def aim_def takeReserve_def beginRefill_def keep_def fromPool_def makeBuf_def Let_def split: option.split)

lemma poolGet_budget: "budget (snd (poolGet sz pick s)) = budget s"
proof -
  let ?i = "classUp sz"
  obtain r s1 where fp: "fromPool ?i pick s = (r, s1)" by fastforce
  obtain r2 s2 where tr: "(if held (cls s1 ?i) > 0 then takeReserve ?i s1 else (None, s1)) = (r2, s2)" by fastforce
  have b: "budget s1 = budget s" "budget s2 = budget s1"
    using reserve_budget(6) [of ?i pick s] reserve_budget(3) [of ?i s1] fp tr by (auto simp del: reserve_budget split: if_splits)
  have "budget (snd (makeBuf (nat sz) (classSize ?i) (reserveMore ?i s2))) = budget s" using b by simp
  moreover have "budget (snd (makeBuf (nat sz) (nat sz) s)) = budget s" by simp
  ultimately show ?thesis unfolding poolGet_def Let_def fp prod.case tr
    using b by (auto simp del: reserve_budget split: option.split prod.split)
qed

lemma poolPut_budget: "budget (poolPut b s) = budget s"
proof -
  let ?i = "classDown (bcap b)"
  define s1 where "s1 = (if gcEpoch s \<noteq> cepoch (cls s ?i) then beginRefill ?i s else s)"
  obtain kept s2 where k: "(if refill (cls s1 ?i) > 0 then keep ?i (baddr b) s1 else (False, s1)) = (kept, s2)" by fastforce
  have "budget s1 = budget s" by (simp add: s1_def)
  then have "budget s2 = budget s" using reserve_budget(5) [of ?i "baddr b" s1] k by (auto simp del: reserve_budget split: if_splits)
  then show ?thesis using k unfolding poolPut_def Let_def s1_def [symmetric] k prod.case by simp
qed

lemma poolStep_budget: "world_ok w \<Longrightarrow> budget (fst (poolStep op w)) = lastRetain (budget (fst w)) [op]"
proof -
  assume ok: "world_ok w"
  obtain s bs where w: "w = (s, bs)" by fastforce
  have s: "pools_ok s" using ok w by (simp add: world_ok_def)
  show ?thesis
  proof (cases op)
    case (OpGet sz pick)
    then show ?thesis using poolGet_budget [of sz pick s] w by (auto split: prod.splits option.splits)
  qed (use w SetRetainedBytes_ok [OF s] collect_ok [OF s] poolPut_budget in \<open>auto simp: makeBuf_def\<close>)
qed

lemma lastRetain_Cons: "lastRetain n (op # ops) = lastRetain (lastRetain n [op]) ops"
  by (cases op) simp_all

lemma poolRun_budget: "budget (fst (poolRun ops)) = lastRetain DefaultRetainedBytes ops"
proof -
  have "world_ok w \<Longrightarrow> budget (fst (fold poolStep ops w)) = lastRetain (budget (fst w)) ops" for w
  proof (induction ops arbitrary: w)
    case (Cons op ops)
    show ?case using Cons.IH [OF poolStep_ok [OF Cons.prems, of op]] poolStep_budget [OF Cons.prems, of op]
      lastRetain_Cons [of "budget (fst w)" op ops] by simp
  qed simp
  from this [OF initPools_ok] show ?thesis by (simp add: poolRun_def initPools_def)
qed

lemma bytesHeld_committed:
  assumes "pools_ok s"
  shows "0 \<le> bytesHeld s" "bytesHeld s \<le> committed s"
proof -
  let ?h = "\<lambda>c. csize c * int (length (free c))"
  have "0 \<le> ?h c \<and> ?h c \<le> cost c" if c: "c \<in> set (classes s)" for c
  proof -
    have "length (classes s) = numClasses" using assms by (simp add: pools_ok_def)
    then obtain i where i: "i < numClasses" "c = cls s i" using c unfolding in_set_conv_nth cls_def by metis
    then have "csize c = int (classSize i)" "int (length (free c)) \<le> target c" using okD [OF assms i(1)] by (simp_all add: class_ok_def)
    then show ?thesis by (simp add: cost_def mult_left_mono)
  qed
  then have "0 \<le> sum_list (map ?h (classes s)) \<and> sum_list (map ?h (classes s)) \<le> sum_list (map cost (classes s))"
    by (auto intro!: sum_list_nonneg sum_list_mono)
  then show "0 \<le> bytesHeld s" "bytesHeld s \<le> committed s" using assms by (simp_all add: bytesHeld_def pools_ok_def total_def)
qed

subsection \<open>The pool's promises\<close>

text \<open>
  C39: however a program uses the pool, and whenever the runtime collects, what the reserves hold in
  bytes is at most what \<^verbatim>\<open>RetainedBytes\<close> reports, which is at most the retention last set with
  \<^verbatim>\<open>SetRetainedBytes\<close> (the default before the first; a negative one counts as zero). A retention set
  now holds at once: what is reserved above it is given back before \<^verbatim>\<open>SetRetainedBytes\<close> returns.
\<close>

theorem pool_retention:
  "0 \<le> bytesHeld (fst (poolRun ops)) \<and>
   bytesHeld (fst (poolRun ops)) \<le> RetainedBytes (fst (poolRun ops)) \<and>
   RetainedBytes (fst (poolRun ops)) \<le> lastRetain DefaultRetainedBytes ops \<and>
   bytesHeld (SetRetainedBytes n (fst (poolRun ops))) \<le> max 0 n"
proof -
  have ok: "pools_ok (fst (poolRun ops))" using poolRun_ok by (simp add: world_ok_def)
  note r = SetRetainedBytes_ok [OF ok, of n]
  have "committed (SetRetainedBytes n (fst (poolRun ops))) \<le> max 0 n" using r by (simp add: pools_ok_def)
  moreover have "committed (fst (poolRun ops)) \<le> lastRetain DefaultRetainedBytes ops"
    using ok poolRun_budget [of ops] by (simp add: pools_ok_def)
  ultimately show ?thesis using bytesHeld_committed [OF ok] bytesHeld_committed(2) [OF conjunct1 [OF r]] by (simp add: RetainedBytes_def)
qed

text \<open>
  C40: however a program uses the pool, a \<^verbatim>\<open>Get\<close> of a positive size gives it a buffer of that length and
  of the capacity \<^verbatim>\<open>Align\<close> reports, all of it within the memory allocated at its address; and that
  memory is neither a buffer the program already holds nor one still in the pools, so no two holders
  ever share a buffer.
\<close>

theorem pool_get_exclusive:
  assumes "0 < sz"
  shows "\<exists>b s'. poolGet sz pick (fst (poolRun ops)) = (Some b, s') \<and>
    int (blen b) = sz \<and> int (bcap b) = Align sz \<and> blen b \<le> bcap b \<and> bcap b \<le> allocated s' ! baddr b \<and>
    baddr b < length (allocated s') \<and> baddr b \<notin> baddr ` set (snd (poolRun ops)) \<and> baddr b \<notin># inPools s'"
proof -
  obtain s bs where w: "poolRun ops = (s, bs)" by fastforce
  have ok: "world_ok (s, bs)" using poolRun_ok [of ops] w by simp
  then have "pools_ok s" by (simp add: world_ok_def)
  then obtain b s' where g: "poolGet sz pick s = (Some b, s')" "given sz s b s'" using poolGet_ok assms by blast
  have ok': "world_ok (s', b # bs)" by (rule Get_world [OF ok g(2) assms])
  then have "count (inUse (s', b # bs)) (baddr b) \<le> (if baddr b < length (allocated s') then 1 else 0)" by (simp add: world_ok_def)
  then have "count (inPools s') (baddr b) = 0 \<and> count (mset (map baddr bs)) (baddr b) = 0"
    by (simp add: inUse_def split: if_splits)
  then have "baddr b \<notin># inPools s'" "baddr b \<notin> baddr ` set bs" by (auto simp: count_eq_zero_iff)
  moreover have "blen b \<le> bcap b" using ok' by (simp add: world_ok_def)
  ultimately show ?thesis using g assms w by (auto simp: given_def)
qed

theorem pool_get_exclusive_witness:
  "\<exists>b s'. poolGet 100 (Some 0) (fst (poolRun [OpGet 100 None, OpGet 70 None, OpPut 0])) = (Some b, s') \<and>
    int (blen b) = 100 \<and> int (bcap b) = Align 100 \<and> blen b \<le> bcap b \<and> bcap b \<le> allocated s' ! baddr b \<and>
    baddr b < length (allocated s') \<and> baddr b \<notin> baddr ` set (snd (poolRun [OpGet 100 None, OpGet 70 None, OpPut 0])) \<and>
    baddr b \<notin># inPools s'"
  by (rule pool_get_exclusive) simp

end
