(* ===== verification/Spec2Isabelle.thy ===== *)
theory Spec2Isabelle
  imports Hpack_Roundtrip Quic_Varint Quic_Send_Run Quic_Recv_Run Quic_Ranges Ws_Roundtrip Ws_Pool Ws_Deflate H2_Settings H2_Fields Dht_Id Pool_Reserve
begin

text \<open>
  A verification of the protocol core of fib, a Go library of event loops with the protocols that run
  on them. The event loops (\<^verbatim>\<open>core\<close>) read bytes from connections and hand them to the handler of a
  protocol. What is verified here is the part of the protocols that is computation on those bytes: it
  parses input nobody vouches for, keeps state from one read to the next, and takes its buffers from a
  pool all connections share (\<^verbatim>\<open>bufferpool\<close>). HTTP/2 (\<^verbatim>\<open>http\<close>) frames its messages and compresses their
  fields with HPACK (\<^verbatim>\<open>hpack\<close>); HTTP/3 stands on the streams of QUIC (\<^verbatim>\<open>http3/quic\<close>); WebSocket
  connections (\<^verbatim>\<open>websocket\<close>) parse frames; BitTorrent (\<^verbatim>\<open>bittorrent\<close>) exchanges bitfields and nodes. Paths
  are relative to \<^verbatim>\<open>src/\<close>, and definitions have the names of the Go functions and types they translate.

  \<^bold>\<open>How Go is modelled.\<close> A \<^verbatim>\<open>[]byte\<close> and a \<^verbatim>\<open>string\<close> are lists of 8-bit words, \<^verbatim>\<open>uintN\<close> is an N-bit word
  where it can wrap, and \<^verbatim>\<open>int\<close> is an integer. A struct is a record, a method takes and returns it, an error
  is a value of a sum or an option, and a panic or a loop that does not end is \<^const>\<open>None\<close>.
  What the capacity of a slice decides, and the pool buffer a slice lies in, are modelled where the code
  depends on them. Functions of the runtime whose result Go leaves open (hashes, random bytes, which
  buffer a \<^verbatim>\<open>sync.Pool\<close> returns) and code of other packages (\<^verbatim>\<open>compress/flate\<close>, a caller's callback) are
  arguments, and the theorems hold for all of them. \<open>Fib_Prelude\<close> and \<open>Big_Endian\<close> hold what is shared.

  \<^bold>\<open>HPACK\<close> (\<^verbatim>\<open>hpack/hpack.go\<close>, \<^verbatim>\<open>hpack/huffman.go\<close>, \<^verbatim>\<open>hpack/index.go\<close>, \<^verbatim>\<open>hpack/tables.go\<close>).
  \<^item> \<open>Hpack_Int\<close>: \<^verbatim>\<open>appendInt\<close> and \<^verbatim>\<open>readInt\<close> on 64-bit words; what is written is read back, but for
    numbers too large, which the reader refuses.
  \<^item> \<open>Hpack_Tables\<close>, \<open>Hpack_Prefix_Code\<close>, \<open>Hpack_Code\<close>, \<open>Hpack_Huffman\<close>: the tables, the contract of a prefix code
    (locale \<open>prefix_code\<close>, interpreted on the table of the source), the tree and the four-bit steps built from it.
    The table-driven decoder accepts exactly the encodings, and returns what was encoded.
  \<^item> \<open>Probing\<close>, \<open>Hpack_Table\<close>, \<open>Hpack_Index\<close>, \<open>Hpack_Dynamic\<close>: linear probing with backward-shift deletion
    (locale \<open>probing\<close>), the dynamic table with the two hash tables over it, and the contract of a dynamic
    table (locale \<open>header_table\<close>), interpreted on a decoder's and on an encoder's table.
  \<^item> \<open>Hpack_Decoder\<close>, \<open>Hpack_Spec\<close>: the decoder with its caches refines a specification without slots, indexes or
    caches, and keeps its invariant through every call.
  \<^item> \<open>Hpack_Encoder\<close>, \<open>Hpack_Roundtrip\<close>: encoder and decoder stay in step; every block written is decoded to its
    fields, also across changes of the table size, and a sensitive field never enters a table.

  \<^bold>\<open>QUIC\<close> (\<^verbatim>\<open>http3/quic/varint.go\<close>, \<^verbatim>\<open>http3/quic/buffer.go\<close>).
  \<^item> \<open>Quic_Varint\<close>: the variable-length integers and their inverse.
  \<^item> \<open>Quic_Spans\<close>: \<^verbatim>\<open>addSpan\<close> and \<^verbatim>\<open>sort.Search\<close> on offsets that wrap at 64 bits.
  \<^item> \<open>Quic_Send\<close>, \<open>Quic_Send_Inv\<close>, \<open>Quic_Send_Run\<close>: \<^verbatim>\<open>sendBuffer\<close>, its invariant, and its runs as the step relation
    \<open>send_step\<close>, which keeps the bytes written, in flight and acknowledged beside it: no byte is forgotten, what is
    sent is what was written, something can be sent while something is missing, and no pool buffer leaks.
  \<^item> \<open>Quic_Recv\<close>, \<open>Quic_Recv_Run\<close>: \<^verbatim>\<open>recvBuffer\<close> and its runs \<open>recv_step\<close>: frames in any order give the stream's
    bytes in order, all that arrived in sequence are delivered, and the memory held is bounded.
  \<^item> \<open>Quic_Ranges\<close>: \<^verbatim>\<open>rangeSet\<close> is the set of packet numbers received, but for the lowest range dropped when full.

  \<^bold>\<open>WebSocket\<close> (\<^verbatim>\<open>websocket/frame.go\<close>, \<^verbatim>\<open>utf8.go\<close>, \<^verbatim>\<open>deflate.go\<close>, \<^verbatim>\<open>token.go\<close>, and the frame writers of
  \<^verbatim>\<open>handler.go\<close>).
  \<^item> \<open>Ws_Utf8\<close>, \<open>Ws_Mask\<close>: the incremental validator accepts exactly UTF-8, and masking by words is masking by bytes.
  \<^item> \<open>Ws_Frame\<close>: \<^verbatim>\<open>Parser\<close> with every operation, \<^verbatim>\<open>MarshalFrame\<close>, \<^verbatim>\<open>sendFrame\<close> and \<^verbatim>\<open>sendMaskedFrame\<close>.
  \<^item> \<open>Ws_Spec\<close>, \<open>Ws_Parser\<close>, \<open>Ws_Stream\<close>: the parser delivers the events of the stream, however it is cut into reads
    and whether payloads are copied or lent.
  \<^item> \<open>Ws_Roundtrip\<close>: frames written are read back, and whatever is delivered is a well-formed sequence of events.
  \<^item> \<open>Ws_Pool\<close>: no buffer goes back to the pool twice or while it is in use.
  \<^item> \<open>Ws_Deflate\<close>: the negotiation of compression; whatever a server answers, a client of this package takes.

  \<^bold>\<open>The buffer pool\<close> (\<^verbatim>\<open>bufferpool/bufferpool.go\<close>). \<open>Buffer_Pool\<close> is the pool as its users see it, with a lease
  for each buffer lent. \<open>Pool_Reserve\<close> is what is behind it: the size classes, their reserves, the retention
  budget and what a collection does. What is retained stays within the budget, and a buffer has one owner.

  \<^bold>\<open>HTTP/2\<close> (\<^verbatim>\<open>http/h2_frame.go\<close>, \<^verbatim>\<open>h2_pseudo.go\<close>, the settings of \<^verbatim>\<open>h2_server.go\<close>, \<^verbatim>\<open>tokenByte\<close> of
  \<^verbatim>\<open>request_head.go\<close>). \<open>H2_Frame\<close> and \<open>H2_Framing\<close>: the frame reader and the writers; what is written is read
  back, header blocks and push promises in frames that fit. \<open>H2_Settings\<close>: any settings of a client leave a
  state in which writing headers ends. \<open>H2_Fields\<close>: the table of known names is right about each, and
  no valid name or value can split a line.

  \<^bold>\<open>BitTorrent\<close> (\<^verbatim>\<open>bittorrent/peer/bitfield.go\<close>, \<^verbatim>\<open>bittorrent/dht/id.go\<close>). \<open>Bt_Bitfield\<close>: a bitfield is a set of
  pieces and only well-formed payloads are accepted. \<open>Dht_Id\<close>: XOR distances, random identifiers with a prefix, and
  the compact form of nodes.

  \<^bold>\<open>Bounds and fuel.\<close> Loops are structural, or come with a termination proof, but for these. The probes of the
  hash tables take as many turns as the table has slots, and that is shown to be enough wherever the invariant
  holds. \<open>popLostLoop\<close> has one turn more than there are lost ranges, and each turn that does not return removes one. \<open>headerLoop\<close> and
  \<open>promiseLoop\<close> are partial functions, since a frame size of zero would make them loop; that they return
  after any settings of a client is shown in \<open>H2_Settings\<close>. Offsets and packet numbers of QUIC are below \<open>2 ^ 62\<close>, as in the
  protocol: a hypothesis of the theorems on them or of the steps that write.

  \<^bold>\<open>Not modelled.\<close> The event loops, dialing and system calls of \<^verbatim>\<open>core\<close>, the task pools and every lock and atomic:
  operations are taken one at a time. The packets, recovery and congestion control of QUIC, QPACK and HTTP/3, the
  HTTP/1 server and client, the streams of HTTP/2, WebSocket connections with their handshake and callbacks,
  the rest of BitTorrent, TLS, gRPC, WebRTC, media, KCP, SOCKS and the middleware: they are driven by timers,
  sockets, callbacks or cryptography, or stand on parts that are. Text of errors, logs and statistics are
  left out everywhere. Zones of IPv6 addresses are left out of \<open>Dht_Id\<close>, since the compact form has none.
\<close>

end
